(* ===== verification/Prelude.thy ===== *)
theory Prelude
  imports Main "HOL-Library.Word"
begin

text \<open>
  Shared vocabulary of the development: machine types of the Go sources, results with an
  error or a panic, slice expressions, the little-endian codec of \<open>encoding/binary\<close>, the
  contracts (locales) that several components instantiate, and the generic lemmas about them.
\<close>

unbundle bit_operations_syntax

named_theorems go_defs \<open>definitions of operations that only arrange fields or branches\<close>
named_theorems inv_intros \<open>preservation of component invariants\<close>

section \<open>Types\<close>

type_synonym byte = "8 word"
type_synonym bytes = "byte list"
type_synonym u32 = "32 word"
type_synonym u64 = "64 word"

text \<open>
  Third-party values the hub only carries around and compares are kept as opaque tokens:
  a \<open>peer.ID\<close> and a public key as bytes, a multiaddress as text. Whatever is computed from
  them is a parameter of the definition that needs it.
\<close>

type_synonym peer_id = bytes
type_synonym pubkey = bytes
type_synonym multiaddr = string

section \<open>Errors and panics\<close>

text \<open>An \<open>error\<close> value of Go, and the run-time panics the sources can raise.\<close>

datatype go_error =
    EOF
  | UnexpectedEOF
  | StreamReset
  | MsgIntegrityError
  | ErrText string

datatype go_panic =
    SliceBounds
  | IndexRange
  | DivideByZero
  | NilDeref
  | NilMapWrite
  | PanicErr go_error
  | PanicWith string

datatype fault = GoError go_error | GoPanic go_panic

type_synonym 'a go = "fault + 'a"

abbreviation ok :: "'a \<Rightarrow> 'a go" where "ok \<equiv> Inr"
abbreviation fail :: "go_error \<Rightarrow> 'a go" where "fail e \<equiv> Inl (GoError e)"
abbreviation panic :: "go_panic \<Rightarrow> 'a go" where "panic p \<equiv> Inl (GoPanic p)"

definition and_then :: "'a go \<Rightarrow> ('a \<Rightarrow> 'b go) \<Rightarrow> 'b go" where
  "and_then x f = (case x of Inl e \<Rightarrow> Inl e | Inr v \<Rightarrow> f v)"

lemma and_then_simps [simp]:
  "and_then (Inl e) f = Inl e"
  "and_then (Inr v) f = f v"
  by (simp_all add: and_then_def)

lemma and_then_Inr_iff:
  "and_then x f = Inr y \<longleftrightarrow> (\<exists>v. x = Inr v \<and> f v = Inr y)"
  by (cases x) simp_all

fun is_panic :: "'a go \<Rightarrow> bool" where
  "is_panic (Inl (GoPanic _)) = True"
| "is_panic _ = False"

lemma is_panic_and_then [simp]:
  "is_panic (and_then x f) \<longleftrightarrow> is_panic x \<or> (\<exists>v. x = Inr v \<and> is_panic (f v))"
  by (cases x rule: is_panic.cases) simp_all

text \<open>A result that is never an error value: the code returns or panics.\<close>

fun no_error :: "'a go \<Rightarrow> bool" where
  "no_error (Inl (GoError _)) = False"
| "no_error _ = True"

lemma no_error_and_then [inv_intros]:
  "no_error x \<Longrightarrow> (\<And>v. x = Inr v \<Longrightarrow> no_error (f v)) \<Longrightarrow> no_error (and_then x f)"
  by (cases x rule: no_error.cases) simp_all

lemma no_error_iff: "no_error x \<longleftrightarrow> (\<exists>v. x = ok v) \<or> is_panic x"
  by (cases x rule: no_error.cases) simp_all

section \<open>Slices\<close>

text \<open>
  The slice expression \<open>xs[lo:hi]\<close> of a slice whose capacity is its length; out of range it
  panics.
\<close>

definition go_slice :: "'a list \<Rightarrow> nat \<Rightarrow> nat \<Rightarrow> 'a list go" where
  "go_slice xs lo hi =
     (if lo \<le> hi \<and> hi \<le> length xs then ok (take (hi - lo) (drop lo xs)) else panic SliceBounds)"

lemma go_slice_ok:
  "lo \<le> hi \<Longrightarrow> hi \<le> length xs \<Longrightarrow> go_slice xs lo hi = ok (take (hi - lo) (drop lo xs))"
  by (simp add: go_slice_def)

lemma go_slice_panic:
  "hi < lo \<or> length xs < hi \<Longrightarrow> go_slice xs lo hi = panic SliceBounds"
  by (auto simp: go_slice_def)

lemma no_error_go_slice [simp]: "no_error (go_slice xs lo hi)"
  by (simp add: go_slice_def)

section \<open>Little-endian integers\<close>

text \<open>\<open>binary.LittleEndian.PutUint32\<close>, \<open>PutUint64\<close> and their readers.\<close>

definition PutUint32 :: "u32 \<Rightarrow> bytes" where
  "PutUint32 v = [ucast v, ucast (drop_bit 8 v), ucast (drop_bit 16 v), ucast (drop_bit 24 v)]"

fun Uint32 :: "bytes \<Rightarrow> u32 go" where
  "Uint32 (b0 # b1 # b2 # b3 # _) =
     ok (ucast b0 OR push_bit 8 (ucast b1) OR push_bit 16 (ucast b2) OR push_bit 24 (ucast b3))"
| "Uint32 _ = panic IndexRange"

definition PutUint64 :: "u64 \<Rightarrow> bytes" where
  "PutUint64 v =
     [ucast v, ucast (drop_bit 8 v), ucast (drop_bit 16 v), ucast (drop_bit 24 v),
      ucast (drop_bit 32 v), ucast (drop_bit 40 v), ucast (drop_bit 48 v), ucast (drop_bit 56 v)]"

fun Uint64 :: "bytes \<Rightarrow> u64 go" where
  "Uint64 (b0 # b1 # b2 # b3 # b4 # b5 # b6 # b7 # _) =
     ok (ucast b0 OR push_bit 8 (ucast b1) OR push_bit 16 (ucast b2) OR push_bit 24 (ucast b3) OR
         push_bit 32 (ucast b4) OR push_bit 40 (ucast b5) OR push_bit 48 (ucast b6) OR
         push_bit 56 (ucast b7))"
| "Uint64 _ = panic IndexRange"

lemma length_PutUint32 [simp]: "length (PutUint32 v) = 4"
  by (simp add: PutUint32_def)

lemma length_PutUint64 [simp]: "length (PutUint64 v) = 8"
  by (simp add: PutUint64_def)

lemma no_error_Uint32 [simp]: "no_error (Uint32 bs)"
  by (cases bs rule: Uint32.cases) simp_all

lemma Uint32_total: "4 \<le> length bs \<Longrightarrow> \<exists>w. Uint32 bs = ok w"
  by (cases bs rule: Uint32.cases) auto

lemma Uint64_total: "8 \<le> length bs \<Longrightarrow> \<exists>w. Uint64 bs = ok w"
  by (cases bs rule: Uint64.cases) auto

text \<open>
  Bit \<open>n\<close> of one stored byte, shifted back to its place, is bit \<open>n\<close> of the integer when the
  byte covers \<open>n\<close>: the only fact about bits the round trips need.
\<close>

lemma bit_stored_byte:
  fixes v :: "'a::len word"
  shows "bit (push_bit k (ucast (ucast (drop_bit k v) :: byte) :: 'a word)) n \<longleftrightarrow>
         k \<le> n \<and> n < k + 8 \<and> bit v n"
  by (auto simp: bit_simps dest: bit_imp_le_length)

lemma bit_first_byte:
  fixes v :: "'a::len word"
  shows "bit (ucast (ucast v :: byte) :: 'a word) n \<longleftrightarrow> n < 8 \<and> bit v n"
  by (auto simp: bit_simps dest: bit_imp_le_length)

lemma Uint32_PutUint32 [simp]: "Uint32 (PutUint32 v @ rest) = ok v"
proof -
  have "(ucast (ucast v :: byte) OR push_bit 8 (ucast (ucast (drop_bit 8 v) :: byte)) OR
         push_bit 16 (ucast (ucast (drop_bit 16 v) :: byte)) OR
         push_bit 24 (ucast (ucast (drop_bit 24 v) :: byte)) :: u32) = v" (is "?w = v")
  proof (rule bit_word_eqI)
    fix n assume "n < LENGTH(32)"
    then have "n < 8 \<or> 8 \<le> n \<and> n < 16 \<or> 16 \<le> n \<and> n < 24 \<or> 24 \<le> n \<and> n < 32"
      by simp linarith
    then show "bit ?w n \<longleftrightarrow> bit v n"
      unfolding bit_or_iff bit_stored_byte bit_first_byte by auto
  qed
  then show ?thesis by (simp add: PutUint32_def)
qed

lemma Uint32_PutUint32_exact [simp]: "Uint32 (PutUint32 v) = ok v"
  using Uint32_PutUint32 [of v "[]"] by simp

lemma Uint64_PutUint64 [simp]: "Uint64 (PutUint64 v @ rest) = ok v"
proof -
  have "(ucast (ucast v :: byte) OR push_bit 8 (ucast (ucast (drop_bit 8 v) :: byte)) OR
         push_bit 16 (ucast (ucast (drop_bit 16 v) :: byte)) OR
         push_bit 24 (ucast (ucast (drop_bit 24 v) :: byte)) OR
         push_bit 32 (ucast (ucast (drop_bit 32 v) :: byte)) OR
         push_bit 40 (ucast (ucast (drop_bit 40 v) :: byte)) OR
         push_bit 48 (ucast (ucast (drop_bit 48 v) :: byte)) OR
         push_bit 56 (ucast (ucast (drop_bit 56 v) :: byte)) :: u64) = v" (is "?w = v")
  proof (rule bit_word_eqI)
    fix n assume "n < LENGTH(64)"
    then have "n < 8 \<or> 8 \<le> n \<and> n < 16 \<or> 16 \<le> n \<and> n < 24 \<or> 24 \<le> n \<and> n < 32 \<or>
        32 \<le> n \<and> n < 40 \<or> 40 \<le> n \<and> n < 48 \<or> 48 \<le> n \<and> n < 56 \<or> 56 \<le> n \<and> n < 64"
      by simp linarith
    then show "bit ?w n \<longleftrightarrow> bit v n"
      unfolding bit_or_iff bit_stored_byte bit_first_byte by (elim disjE) simp_all
  qed
  then show ?thesis by (simp add: PutUint64_def)
qed

lemma Uint64_PutUint64_exact [simp]: "Uint64 (PutUint64 v) = ok v"
  using Uint64_PutUint64 [of v "[]"] by simp

section \<open>Contracts shared by the components\<close>

text \<open>
  A FIFO container: what its clients may assume, stated over an abstraction to a list.
\<close>

locale fifo_queue =
  fixes empty :: "'q"
    and enq :: "'a \<Rightarrow> 'q \<Rightarrow> 'q"
    and deq :: "'q \<Rightarrow> ('a \<times> 'q) option"
    and clear :: "'q \<Rightarrow> 'q"
    and size_of :: "'q \<Rightarrow> nat"
    and contents :: "'q \<Rightarrow> 'a list"
    and invar :: "'q \<Rightarrow> bool"
  assumes invar_empty: "invar empty"
    and invar_enq: "invar q \<Longrightarrow> invar (enq x q)"
    and invar_deq: "invar q \<Longrightarrow> deq q = Some (x, q') \<Longrightarrow> invar q'"
    and invar_clear: "invar q \<Longrightarrow> invar (clear q)"
    and contents_empty: "contents empty = []"
    and contents_enq: "invar q \<Longrightarrow> contents (enq x q) = contents q @ [x]"
    and deq_None: "invar q \<Longrightarrow> deq q = None \<longleftrightarrow> contents q = []"
    and deq_Some: "invar q \<Longrightarrow> deq q = Some (x, q') \<Longrightarrow> contents q = x # contents q'"
    and contents_clear: "invar q \<Longrightarrow> contents (clear q) = []"
    and size_contents: "invar q \<Longrightarrow> size_of q = length (contents q)"

text \<open>Taking out \<open>n\<close> elements one after the other; it stops early on an empty queue.\<close>

primrec drain :: "('q \<Rightarrow> ('a \<times> 'q) option) \<Rightarrow> nat \<Rightarrow> 'q \<Rightarrow> 'a list \<times> 'q" where
  "drain take_one 0 q = ([], q)"
| "drain take_one (Suc n) q =
     (case take_one q of None \<Rightarrow> ([], q)
      | Some (x, q') \<Rightarrow> (case drain take_one n q' of (xs, r) \<Rightarrow> (x # xs, r)))"

context fifo_queue
begin

lemma invar_enq_all: "invar q \<Longrightarrow> invar (fold enq xs q)"
  by (induction xs arbitrary: q) (simp_all add: invar_enq)

lemma contents_enq_all: "invar q \<Longrightarrow> contents (fold enq xs q) = contents q @ xs"
  by (induction xs arbitrary: q) (simp_all add: invar_enq contents_enq)

lemma drain_take: "invar q \<Longrightarrow> fst (drain deq n q) = take n (contents q)"
proof (induction n arbitrary: q)
  case (Suc n)
  show ?case
  proof (cases "deq q")
    case None
    moreover from None deq_None [OF Suc.prems] have "contents q = []" by simp
    ultimately show ?thesis by simp
  next
    case (Some p)
    then obtain x q' where q': "deq q = Some (x, q')" by (cases p) simp
    have "invar q'" using Suc.prems q' by (rule invar_deq)
    then have "fst (drain deq n q') = take n (contents q')" by (rule Suc.IH)
    with q' deq_Some [OF Suc.prems q'] show ?thesis by (simp add: case_prod_unfold)
  qed
qed simp

lemma fifo_order:
  assumes "invar q" and "contents q = []"
  shows "fst (drain deq (length xs) (fold enq xs q)) = xs"
  using assms by (simp add: drain_take invar_enq_all contents_enq_all)

end

text \<open>
  A self-delimiting codec: what is decoded after an encoded value is what was appended to it.
\<close>

locale prefix_codec =
  fixes valid :: "'a \<Rightarrow> bool"
    and enc :: "'a \<Rightarrow> 'b list"
    and dec :: "'b list \<Rightarrow> ('a \<times> 'b list) option"
  assumes dec_enc: "valid x \<Longrightarrow> dec (enc x @ rest) = Some (x, rest)"

text \<open>Decoding exactly \<open>n\<close> values.\<close>

primrec decode_n :: "('b list \<Rightarrow> ('a \<times> 'b list) option) \<Rightarrow> nat \<Rightarrow> 'b list \<Rightarrow> ('a list \<times> 'b list) option" where
  "decode_n dec 0 bs = Some ([], bs)"
| "decode_n dec (Suc n) bs =
     (case dec bs of None \<Rightarrow> None
      | Some (x, r) \<Rightarrow> (case decode_n dec n r of None \<Rightarrow> None | Some (xs, r') \<Rightarrow> Some (x # xs, r')))"

context prefix_codec
begin

lemma prefix_free:
  assumes "valid x" "valid y" and "enc x @ r = enc y @ s"
  shows "x = y \<and> r = s"
  using dec_enc [OF assms(1), of r] dec_enc [OF assms(2), of s] unfolding assms(3) by simp

lemma decode_n_concat:
  "list_all valid xs \<Longrightarrow> decode_n dec (length xs) (concat (map enc xs) @ rest) = Some (xs, rest)"
  by (induction xs) (simp_all add: dec_enc)

lemma concat_enc_inj:
  "list_all valid xs \<Longrightarrow> list_all valid ys \<Longrightarrow> length xs = length ys \<Longrightarrow>
   concat (map enc xs) = concat (map enc ys) \<Longrightarrow> xs = ys"
  by (metis append_Nil2 decode_n_concat option.inject prod.inject)

end

text \<open>
  A machine that consumes events and answers each with an output, an invariant its steps keep,
  and a specification machine it simulates.
\<close>

primrec run :: "('s \<Rightarrow> 'e \<Rightarrow> 's \<times> 'o) \<Rightarrow> 's \<Rightarrow> 'e list \<Rightarrow> 's \<times> 'o list" where
  "run step s [] = (s, [])"
| "run step s (e # es) =
     (case step s e of (s', out) \<Rightarrow> (case run step s' es of (s'', outs) \<Rightarrow> (s'', out # outs)))"

lemma run_Cons:
  "run step s (e # es) =
     (fst (run step (fst (step s e)) es), snd (step s e) # snd (run step (fst (step s e)) es))"
  by (simp add: case_prod_unfold)

declare run.simps(2) [simp del]

locale invariant_machine =
  fixes step :: "'s \<Rightarrow> 'e \<Rightarrow> 's \<times> 'o"
    and inv :: "'s \<Rightarrow> bool"
  assumes step_inv: "inv s \<Longrightarrow> inv (fst (step s e))"

context invariant_machine
begin

lemma run_inv: "inv s \<Longrightarrow> inv (fst (run step s es))"
  by (induction es arbitrary: s) (simp_all add: run_Cons step_inv)

end

text \<open>
  A property that every step keeps unless a given condition holds when the step is taken.
\<close>

locale unless_machine = invariant_machine step inv
  for step :: "'s \<Rightarrow> 'e \<Rightarrow> 's \<times> 'o" and inv :: "'s \<Rightarrow> bool" +
  fixes keeps :: "'s \<Rightarrow> bool"
    and releases :: "'s \<Rightarrow> 'e \<Rightarrow> bool"
  assumes step_unless: "inv s \<Longrightarrow> keeps s \<Longrightarrow> keeps (fst (step s e)) \<or> releases s e"

context unless_machine
begin

lemma run_unless:
  "inv s \<Longrightarrow> keeps s \<Longrightarrow>
   keeps (fst (run step s es)) \<or>
   (\<exists>n < length es. releases (fst (run step s (take n es))) (es ! n))"
proof (induction es arbitrary: s)
  case (Cons e es)
  from step_unless [OF Cons.prems] show ?case
  proof
    assume "keeps (fst (step s e))"
    from Cons.IH [OF step_inv [OF Cons.prems(1)] this] show ?thesis
    proof
      assume "\<exists>n<length es. releases (fst (run step (fst (step s e)) (take n es))) (es ! n)"
      then obtain n where "n < length es" "releases (fst (run step (fst (step s e)) (take n es))) (es ! n)"
        by blast
      then have "Suc n < length (e # es) \<and>
          releases (fst (run step s (take (Suc n) (e # es)))) ((e # es) ! Suc n)"
        by (simp add: run_Cons)
      then show ?thesis by blast
    qed (simp add: run_Cons)
  next
    assume "releases s e"
    then show ?thesis by (intro disjI2 exI [of _ 0]) simp
  qed
qed simp

end

text \<open>
  A simulation that holds for a bounded number of steps: the invariant may depend on how many
  events were consumed (a counter that would wrap), up to \<open>budget\<close> of them.
\<close>

locale budget_simulation =
  fixes step :: "'s \<Rightarrow> 'e \<Rightarrow> 's \<times> 'o"
    and inv :: "nat \<Rightarrow> 's \<Rightarrow> bool"
    and budget :: nat
    and spec :: "'a \<Rightarrow> 'e \<Rightarrow> 'a \<times> 'o"
    and abs :: "'s \<Rightarrow> 'a"
  assumes step_inv: "k < budget \<Longrightarrow> inv k s \<Longrightarrow> inv (Suc k) (fst (step s e))"
    and step_abs: "k < budget \<Longrightarrow> inv k s \<Longrightarrow> spec (abs s) e = (abs (fst (step s e)), snd (step s e))"

context budget_simulation
begin

lemma run_inv: "inv k s \<Longrightarrow> k + length es \<le> budget \<Longrightarrow> inv (k + length es) (fst (run step s es))"
proof (induction es arbitrary: k s)
  case (Cons e es)
  with step_inv [of k s e] have "inv (Suc k) (fst (step s e))" by simp
  from Cons.IH [OF this] Cons.prems(2) show ?case by (simp add: run_Cons)
qed simp

lemma run_abs:
  "inv k s \<Longrightarrow> k + length es \<le> budget \<Longrightarrow>
   run spec (abs s) es = (abs (fst (run step s es)), snd (run step s es))"
proof (induction es arbitrary: k s)
  case (Cons e es)
  with step_inv [of k s e] have "inv (Suc k) (fst (step s e))" by simp
  from Cons.IH [OF this] Cons.prems step_abs [of k s e] show ?case by (simp add: run_Cons)
qed simp

end

end
