(* ===== verification/Net_Lib.thy ===== *)
theory Net_Lib
  imports Prelude
begin

text \<open>
  The parameter that stands for libp2p, go-multiaddr and \<open>encoding/gob\<close>: the conversions the hub
  calls on peer ids, multiaddresses and the serialised metadata record. The development assumes
  nothing about them except in named hypotheses.
\<close>

text \<open>\<open>MetadataSerializable\<close>, the record handed to gob.\<close>

record metadata_ser =
  ser_PublicKey :: bytes
  ser_Id :: string
  ser_LastSeen :: u32
  ser_Addr :: bytes

record net_lib =
  Pretty :: "peer_id \<Rightarrow> string"
  DecodeId :: "string \<Rightarrow> go_error + peer_id"
  MarshalId :: "peer_id \<Rightarrow> go_error + bytes"
  AddrString :: "multiaddr \<Rightarrow> string"
  AddrBytes :: "multiaddr \<Rightarrow> bytes"
  NewMultiaddr :: "string \<Rightarrow> go_error + multiaddr"
  NewMultiaddrBytes :: "bytes \<Rightarrow> go_error + multiaddr"
  GobEncode :: "metadata_ser \<Rightarrow> go_error + bytes"
  GobDecode :: "bytes \<Rightarrow> go_error + metadata_ser"

text \<open>\<open>if err != nil { panic(err) }\<close>\<close>

definition or_panic :: "go_error + 'a \<Rightarrow> 'a go" where
  "or_panic r = (case r of Inl e \<Rightarrow> panic (PanicErr e) | Inr v \<Rightarrow> ok v)"

lemma or_panic_simps [simp]: "or_panic (Inl e) = panic (PanicErr e)" "or_panic (Inr v) = ok v"
  by (simp_all add: or_panic_def)

lemma no_error_or_panic [simp]: "no_error (or_panic r)"
  by (cases r) simp_all

text \<open>
  A concrete instance for witnesses: ids and addresses are their own text with one byte per
  character, and gob writes the four fields with one-byte lengths (values of at most 255 bytes).
\<close>

definition text_bytes :: "string \<Rightarrow> bytes" where
  "text_bytes s = map (\<lambda>c. of_nat (of_char c)) s"

definition bytes_text :: "bytes \<Rightarrow> string" where
  "bytes_text bs = map (\<lambda>b. char_of (unat b)) bs"

lemma bytes_text_text_bytes [simp]: "bytes_text (text_bytes s) = s"
  by (induction s) (simp_all add: bytes_text_def text_bytes_def unat_of_nat)

lemma text_bytes_bytes_text [simp]: "text_bytes (bytes_text bs) = bs"
proof -
  have "of_nat (unat b mod 256) = b" for b :: byte
  proof -
    have "unat b < 2 ^ LENGTH(8)" by (rule unsigned_less)
    then show ?thesis by simp
  qed
  then show ?thesis by (induction bs) (simp_all add: bytes_text_def text_bytes_def)
qed

definition sized :: "bytes \<Rightarrow> bytes" where
  "sized bs = of_nat (length bs) # bs"

fun unsized :: "bytes \<Rightarrow> bytes \<times> bytes" where
  "unsized [] = ([], [])"
| "unsized (n # bs) = (take (unat n) bs, drop (unat n) bs)"

lemma unsized_sized: "length bs < 256 \<Longrightarrow> unsized (sized bs @ rest) = (bs, rest)"
  by (simp add: sized_def unat_of_nat)

definition toy_gob_enc :: "metadata_ser \<Rightarrow> go_error + bytes" where
  "toy_gob_enc v = Inr (sized (ser_PublicKey v) @ sized (text_bytes (ser_Id v)) @
     sized (PutUint32 (ser_LastSeen v)) @ sized (ser_Addr v))"

definition toy_gob_dec :: "bytes \<Rightarrow> go_error + metadata_ser" where
  "toy_gob_dec bs =
     (case unsized bs of (k, r1) \<Rightarrow>
      case unsized r1 of (i, r2) \<Rightarrow>
      case unsized r2 of (l, r3) \<Rightarrow>
      case unsized r3 of (a, _) \<Rightarrow>
      case Uint32 l of
        Inr n \<Rightarrow> Inr \<lparr>ser_PublicKey = k, ser_Id = bytes_text i, ser_LastSeen = n, ser_Addr = a\<rparr>
      | Inl _ \<Rightarrow> Inl EOF)"

definition toy_net :: net_lib where
  "toy_net =
     \<lparr>Pretty = bytes_text, DecodeId = (\<lambda>s. Inr (text_bytes s)), MarshalId = (\<lambda>i. Inr i),
      AddrString = (\<lambda>a. a), AddrBytes = text_bytes, NewMultiaddr = (\<lambda>s. Inr s),
      NewMultiaddrBytes = (\<lambda>b. Inr (bytes_text b)),
      GobEncode = toy_gob_enc, GobDecode = toy_gob_dec\<rparr>"

lemma toy_gob_round:
  "length (ser_PublicKey v) < 256 \<Longrightarrow> length (ser_Id v) < 256 \<Longrightarrow> length (ser_Addr v) < 256 \<Longrightarrow>
   toy_gob_enc v = Inr bs \<Longrightarrow> toy_gob_dec bs = Inr v"
  using unsized_sized [of "ser_Addr v" "[]"]
  by (auto simp: toy_gob_enc_def toy_gob_dec_def unsized_sized text_bytes_def [of "ser_Id v"])
     (simp add: text_bytes_def [symmetric])

end
