(* ===== verification/Utils_Crypto.thy ===== *)
theory Utils_Crypto
  imports Prelude
begin

text \<open>
  \<^verbatim>\<open>utils/crypto.go\<close>: the chain-specific signature format (the recovery id is folded into the
  last one or two bytes), public-key recovery, and the hexadecimal forms of keys with the
  \<open>encoding/hex\<close> routines they use. The elliptic-curve and hash functions of go-ethereum are the
  fields of the parameter \<open>crypto_lib\<close>.
\<close>

record crypto_lib =
  Keccak256 :: "bytes \<Rightarrow> bytes"
  Sign :: "bytes \<Rightarrow> bytes \<Rightarrow> go_error + bytes"
  Ecrecover :: "bytes \<Rightarrow> bytes \<Rightarrow> go_error + bytes"
  UnmarshalPubkey :: "bytes \<Rightarrow> go_error + pubkey"
  CompressPubkey :: "pubkey \<Rightarrow> bytes"
  DecompressPubkey :: "bytes \<Rightarrow> go_error + pubkey"

definition lift_err :: "go_error + 'a \<Rightarrow> 'a go" where
  "lift_err r = (case r of Inl e \<Rightarrow> fail e | Inr v \<Rightarrow> ok v)"

lemma lift_err_simps [simp]: "lift_err (Inl e) = fail e" "lift_err (Inr v) = ok v"
  by (simp_all add: lift_err_def)

lemma is_panic_lift_err [simp]: "\<not> is_panic (lift_err r)"
  by (cases r) simp_all

text \<open>Integer division of Go: truncated towards zero, a run-time panic on a zero divisor.\<close>

definition go_div :: "int \<Rightarrow> int \<Rightarrow> int go" where
  "go_div a b = (if b = 0 then panic DivideByZero else ok (sgn a * sgn b * (\<bar>a\<bar> div \<bar>b\<bar>)))"

lemma is_panic_go_div [simp]: "is_panic (go_div a b) \<longleftrightarrow> b = 0"
  by (simp add: go_div_def)

lemma go_div_nonneg: "0 \<le> a \<Longrightarrow> 0 < b \<Longrightarrow> go_div a b = ok (a div b)"
  by (cases "a = 0") (simp_all add: go_div_def sgn_if)

section \<open>Signing and recovery\<close>

definition LaSign :: "crypto_lib \<Rightarrow> bytes \<Rightarrow> bytes \<Rightarrow> byte \<Rightarrow> bytes go" where
  "LaSign L data prv chainId =
     and_then (lift_err (Sign L (Keccak256 L data) prv)) (\<lambda>signature.
       if length signature \<le> 64 then panic IndexRange
       else if chainId < 110
       then ok (signature[64 := chainId * 2 + 35 + signature ! 64])
       else
         let encodedRecId = (ucast chainId * 2 + 35 + ucast (signature ! 64) :: u32);
             recIdBytes = PutUint32 encodedRecId
         in ok (take 64 signature @ [recIdBytes ! 1, recIdBytes ! 0]))"

text \<open>Answers \<open>(-1, err)\<close> on a wrong length; the caller only looks at the error then.\<close>

definition recoverEncodedRecIdFromSignature :: "bytes \<Rightarrow> int go" where
  "recoverEncodedRecIdFromSignature sig =
     (if length sig \<noteq> 65 \<and> length sig \<noteq> 66
      then fail (ErrText ''signature must be 65 bytes long'')
      else if length sig = 65 then ok (uint (sig ! 64))
      else and_then (Uint32 [sig ! 65, sig ! 64, 0, 0]) (\<lambda>v. ok (uint v)))"

definition EcRecover :: "crypto_lib \<Rightarrow> bytes \<Rightarrow> bytes \<Rightarrow> byte \<Rightarrow> pubkey go" where
  "EcRecover L data sig chainId =
     (let dataHash = Keccak256 L data in
      if length sig \<noteq> 65 \<and> length sig \<noteq> 66
      then fail (ErrText ''signature must be 65 or 66 bytes long'')
      else
        and_then (recoverEncodedRecIdFromSignature sig) (\<lambda>encodedRecId.
        and_then (go_div (encodedRecId - 36) 2) (\<lambda>q.
        and_then (go_div q (uint chainId)) (\<lambda>recId.
          let recSig = take 64 sig @ [word_of_int recId] in
          and_then (lift_err (Ecrecover L dataHash recSig)) (\<lambda>rpk.
            lift_err (UnmarshalPubkey L rpk))))))"

section \<open>Hexadecimal text\<close>

text \<open>\<open>hex.EncodeToString\<close> and \<open>hex.DecodeString\<close>, which yields the bytes before the first error.\<close>

definition hextable :: string where
  "hextable = ''0123456789abcdef''"

fun EncodeToString :: "bytes \<Rightarrow> string" where
  "EncodeToString [] = []"
| "EncodeToString (b # bs) =
     hextable ! unat (drop_bit 4 b) # hextable ! unat (b AND 15) # EncodeToString bs"

definition fromHexChar :: "char \<Rightarrow> byte option" where
  "fromHexChar c =
     (let n = (of_char c :: nat) in
      if 48 \<le> n \<and> n \<le> 57 then Some (of_nat (n - 48))
      else if 97 \<le> n \<and> n \<le> 102 then Some (of_nat (n - 97 + 10))
      else if 65 \<le> n \<and> n \<le> 70 then Some (of_nat (n - 65 + 10))
      else None)"

fun DecodeString :: "string \<Rightarrow> bytes \<times> go_error option" where
  "DecodeString [] = ([], None)"
| "DecodeString [p] =
     (case fromHexChar p of
        None \<Rightarrow> ([], Some (ErrText ''invalid byte''))
      | Some _ \<Rightarrow> ([], Some (ErrText ''odd length hex string'')))"
| "DecodeString (p # q # cs) =
     (case fromHexChar p of
        None \<Rightarrow> ([], Some (ErrText ''invalid byte''))
      | Some a \<Rightarrow>
        (case fromHexChar q of
           None \<Rightarrow> ([], Some (ErrText ''invalid byte''))
         | Some b \<Rightarrow>
           (case DecodeString cs of (bs, err) \<Rightarrow> ((push_bit 4 a OR b) # bs, err))))"

text \<open>\<open>HexToBytes\<close> logs a decoding error and returns the prefix decoded so far.\<close>

definition HexToBytes :: "string \<Rightarrow> bytes" where
  "HexToBytes publicKey = fst (DecodeString publicKey)"

definition BytesToHex :: "bytes \<Rightarrow> string" where
  "BytesToHex publicKey = EncodeToString publicKey"

definition PublicKeyToHexString :: "crypto_lib \<Rightarrow> pubkey \<Rightarrow> string" where
  "PublicKeyToHexString L publicKey = BytesToHex (CompressPubkey L publicKey)"

definition PublicKeyToBytes :: "crypto_lib \<Rightarrow> pubkey \<Rightarrow> bytes" where
  "PublicKeyToBytes L publicKey = CompressPubkey L publicKey"

definition HexToPublicKey :: "crypto_lib \<Rightarrow> string \<Rightarrow> pubkey go" where
  "HexToPublicKey L publicKey = lift_err (DecompressPubkey L (HexToBytes publicKey))"

section \<open>Hexadecimal round trip\<close>

lemma fromHexChar_hextable: "n < 16 \<Longrightarrow> fromHexChar (hextable ! n) = Some (of_nat n)"
proof -
  have "\<forall>n \<in> {0..<16}. fromHexChar (hextable ! n) = Some (of_nat n)" by code_simp
  then show "n < 16 \<Longrightarrow> ?thesis" by simp
qed

lemma nibbles_join: "push_bit 4 (drop_bit 4 b) OR (b AND 15) = (b :: byte)"
proof (rule bit_word_eqI)
  fix n
  have "bit (15 :: byte) n \<longleftrightarrow> n < 4"
    using bit_mask_iff [where 'a = byte, of 4 n] by (auto simp: mask_eq_exp_minus_1)
  then show "bit (push_bit 4 (drop_bit 4 b) OR (b AND 15)) n \<longleftrightarrow> bit b n"
    by (auto simp: bit_simps dest: bit_imp_le_length)
qed

lemma unat_high_nibble: "unat (drop_bit 4 (b :: byte)) < 16"
proof -
  have "unat (drop_bit 4 b) = unat b div 16" by (simp add: drop_bit_eq_div unat_div)
  moreover have "unat b < 2 ^ LENGTH(8)" by (rule unsigned_less)
  ultimately show ?thesis by (simp add: less_mult_imp_div_less)
qed

lemma unat_low_nibble: "unat (b AND (15 :: byte)) < 16"
proof -
  have "b AND 15 \<le> (15 :: byte)" by (rule word_and_le1)
  then show ?thesis by (simp add: word_le_nat_alt)
qed

lemma DecodeString_append:
  "DecodeString (EncodeToString bs @ cs) = (bs @ fst (DecodeString cs), snd (DecodeString cs))"
  by (induction bs)
     (simp_all add: fromHexChar_hextable unat_high_nibble unat_low_nibble nibbles_join)

lemma DecodeString_EncodeToString: "DecodeString (EncodeToString bs) = (bs, None)"
  using DecodeString_append [of bs "[]"] by simp

lemma length_EncodeToString [simp]: "length (EncodeToString bs) = 2 * length bs"
  by (induction bs) simp_all

lemma EncodeToString_append: "EncodeToString (xs @ ys) = EncodeToString xs @ EncodeToString ys"
  by (induction xs) simp_all

lemma HexToBytes_BytesToHex [simp]: "HexToBytes (BytesToHex bs) = bs"
  by (simp add: HexToBytes_def BytesToHex_def DecodeString_EncodeToString)

lemma BytesToHex_inject [simp]: "BytesToHex a = BytesToHex b \<longleftrightarrow> a = b"
  by (metis HexToBytes_BytesToHex)

lemma length_BytesToHex [simp]: "length (BytesToHex bs) = 2 * length bs"
  by (simp add: BytesToHex_def)

section \<open>The recovery id survives the chain encoding\<close>

lemma recId_arith:
  fixes c v :: int
  assumes "0 < c" and "v = 0 \<or> v = 1"
  shows "go_div (c * 2 + 35 + v - 36) 2 = ok (c - 1 + v)" and "go_div (c - 1 + v) c = ok v"
proof -
  have "(c * 2 + 35 + v - 36) div 2 = c - 1 + v" using assms(2) by auto
  then show "go_div (c * 2 + 35 + v - 36) 2 = ok (c - 1 + v)"
    using assms by (subst go_div_nonneg) auto
  have "(c - 1 + v) div c = v"
    using assms by (auto simp: div_pos_pos_trivial)
  then show "go_div (c - 1 + v) c = ok v"
    using assms by (subst go_div_nonneg) auto
qed

text \<open>The one-byte form cannot overflow below chain 110, the two-byte form holds every chain id.\<close>

lemma encoded_one_byte:
  fixes c v :: byte
  assumes "c < 110" and "v = 0 \<or> v = 1"
  shows "uint (c * 2 + 35 + v) = uint c * 2 + 35 + uint v"
proof -
  have c: "uint c < 110" using assms(1) by (simp add: word_less_def)
  have v: "uint v \<le> 1" using assms(2) by auto
  have nn: "0 \<le> uint c" "0 \<le> uint v" by simp_all
  have "uint (c * 2 + 35 + v) = (uint c * 2 + 35 + uint v) mod 256"
    by (simp add: uint_word_ariths mod_simps)
  with c v nn show ?thesis by (simp add: mod_pos_pos_trivial)
qed

lemma encoded_two_bytes:
  fixes c v :: byte
  assumes "v = 0 \<or> v = 1"
  defines "e \<equiv> (ucast c * 2 + 35 + ucast v :: u32)"
  shows "Uint32 [PutUint32 e ! 0, PutUint32 e ! 1, 0, 0] = ok e"
    and "uint e = uint c * 2 + 35 + uint v"
proof -
  have c: "uint c < 256" using uint_lt2p [of c] by simp
  have v: "uint v \<le> 1" using assms(1) by auto
  have nn: "0 \<le> uint c" "0 \<le> uint v" by simp_all
  have uc: "uint (ucast c :: u32) = uint c" and uv: "uint (ucast v :: u32) = uint v"
    by (simp_all add: uint_up_ucast is_up)
  have "uint e = (uint c * 2 + 35 + uint v) mod 2 ^ 32"
    by (simp add: e_def uint_word_ariths mod_simps uc uv)
  with c v nn show u: "uint e = uint c * 2 + 35 + uint v" by (simp add: mod_pos_pos_trivial)
  with c v have small: "uint e < 2 ^ 16" by simp
  have "drop_bit 16 e = 0" and "drop_bit 24 e = 0"
    using small by (simp_all add: drop_bit_eq_div word_uint_eq_iff uint_div)
  then have "PutUint32 e = [PutUint32 e ! 0, PutUint32 e ! 1, 0, 0]"
    by (simp add: PutUint32_def)
  then show "Uint32 [PutUint32 e ! 0, PutUint32 e ! 1, 0, 0] = ok e"
    by (metis Uint32_PutUint32_exact)
qed

lemma signed_restore:
  assumes "length s = 65"
  shows "take 64 s @ [s ! 64] = s"
proof -
  have "take (Suc 64) s = take 64 s @ [s ! 64]" using assms by (intro take_Suc_conv_app_nth) simp
  moreover have "take (Suc 64) s = s" using assms by simp
  ultimately show ?thesis by simp
qed

lemma recover_signed:
  assumes sign: "Sign L (Keccak256 L data) prv = Inr s"
    and len: "length s = 65"
    and rec: "s ! 64 = 0 \<or> s ! 64 = 1"
    and chain: "chainId \<noteq> 0"
  shows "\<exists>t. LaSign L data prv chainId = ok t \<and> length t = (if chainId < 110 then 65 else 66) \<and>
    EcRecover L data t chainId =
      and_then (lift_err (Ecrecover L (Keccak256 L data) s)) (\<lambda>rpk. lift_err (UnmarshalPubkey L rpk))"
proof -
  let ?v = "s ! 64"
  have c: "0 < uint chainId" using chain by (simp add: word_neq_0_conv word_less_def)
  have v: "uint ?v = 0 \<or> uint ?v = 1" using rec by auto
  note arith = recId_arith [OF c v]
  show ?thesis
  proof (cases "chainId < 110")
    case True
    let ?t = "s[64 := chainId * 2 + 35 + ?v]"
    have "uint (?t ! 64) = uint chainId * 2 + 35 + uint ?v"
      using encoded_one_byte [OF True rec] len by simp
    then show ?thesis
      using True sign len arith signed_restore [OF len]
      by (simp add: LaSign_def EcRecover_def recoverEncodedRecIdFromSignature_def)
  next
    case False
    let ?e = "ucast chainId * 2 + 35 + ucast ?v :: u32"
    let ?t = "take 64 s @ [PutUint32 ?e ! 1, PutUint32 ?e ! 0]"
    have nth: "?t ! 64 = PutUint32 ?e ! 1" "?t ! 65 = PutUint32 ?e ! 0"
      using len by (simp_all add: nth_append)
    show ?thesis
      using False sign len arith signed_restore [OF len] encoded_two_bytes [OF rec, of chainId] nth
      by (simp add: LaSign_def EcRecover_def recoverEncodedRecIdFromSignature_def Let_def)
  qed
qed

text \<open>
  C21: for every chain id but 0, a signature made by \<open>LaSign\<close> (library signature of 65 bytes, recovery id
  0 or 1) has 65 bytes below chain 110 and 66 from there on, and \<open>EcRecover\<close> hands exactly the
  library's original 65-byte signature to \<open>crypto.Ecrecover\<close>: the chain encoding of the recovery
  id is inverted without loss at both widths.
\<close>
theorem EcRecover_LaSign:
  assumes sign: "Sign L (Keccak256 L data) prv = Inr s"
    and len: "length s = 65"
    and rec: "s ! 64 = 0 \<or> s ! 64 = 1"
    and chain: "chainId \<noteq> 0"
  shows "\<exists>t. LaSign L data prv chainId = ok t \<and> length t = (if chainId < 110 then 65 else 66) \<and>
    EcRecover L data t chainId =
      and_then (lift_err (Ecrecover L (Keccak256 L data) s)) (\<lambda>rpk. lift_err (UnmarshalPubkey L rpk))"
  using assms by (rule recover_signed)

text \<open>
  A toy instance of the library used by witnesses: the hash is the identity, the one key pair
  signs with 64 zero bytes and recovery id 1, and recovery answers for that signature only.
\<close>

definition toy_crypto :: crypto_lib where
  "toy_crypto =
     \<lparr>Keccak256 = (\<lambda>d. d),
      Sign = (\<lambda>h prv. Inr (replicate 64 0 @ [1])),
      Ecrecover = (\<lambda>h s. if s = replicate 64 0 @ [1] then Inr [4, 7] else Inl (ErrText ''bad signature'')),
      UnmarshalPubkey = (\<lambda>b. Inr (tl b)),
      CompressPubkey = (\<lambda>k. 2 # k),
      DecompressPubkey = (\<lambda>b. if b = [] then Inl (ErrText ''invalid key'') else Inr (tl b))\<rparr>"

lemma EcRecover_LaSign_witness:
  "\<exists>t. LaSign toy_crypto [1, 2] [] 200 = ok t \<and> length t = (66::nat) \<and>
     EcRecover toy_crypto [1, 2] t 200 = ok [7]"
  using EcRecover_LaSign [of toy_crypto "[1, 2]" "[]" "replicate 64 0 @ [1]" 200]
  by (simp add: toy_crypto_def nth_append)

text \<open>
  With chain id 0, the package default of \<open>config.ChainId\<close>, \<open>EcRecover\<close> panics (integer division by
  zero) on every signature of an accepted length, whatever its bytes.
\<close>
theorem EcRecover_chain0_panics:
  assumes "length sig = 65 \<or> length sig = 66"
  shows "EcRecover L data sig 0 = panic DivideByZero"
proof -
  have "\<exists>e. recoverEncodedRecIdFromSignature sig = ok e"
    using assms by (auto simp: recoverEncodedRecIdFromSignature_def)
  then show ?thesis
    using assms by (auto simp: EcRecover_def go_div_def and_then_def)
qed

lemma EcRecover_chain0_panics_witness:
  "EcRecover toy_crypto [] (replicate 65 0) 0 = panic DivideByZero"
  by (rule EcRecover_chain0_panics) simp

text \<open>
  With a non-zero chain id \<open>EcRecover\<close> never panics: every input ends in a key or in an error value.
\<close>
theorem EcRecover_no_panic:
  assumes "chainId \<noteq> 0"
  shows "\<not> is_panic (EcRecover L data sig chainId)"
proof -
  have "uint chainId \<noteq> 0" using assms by (simp add: word_uint_eq_iff)
  moreover have "\<not> is_panic (recoverEncodedRecIdFromSignature sig)"
    by (auto simp: recoverEncodedRecIdFromSignature_def)
  ultimately show ?thesis by (simp add: EcRecover_def Let_def)
qed

lemma EcRecover_no_panic_witness: "\<not> is_panic (EcRecover toy_crypto [] [] 42)"
  by (rule EcRecover_no_panic) simp

end
