(* ===== verification/Crc32.thy ===== *)
theory Crc32
  imports Prelude
begin

text \<open>
  \<open>crc32.ChecksumIEEE\<close> of Go's standard library as its table-driven loop computes it, and the
  error detection the frame format relies on: two messages of equal length that differ only
  inside a window of at most four consecutive bytes never have the same checksum.
\<close>

section \<open>The checksum\<close>

definition IEEE_poly :: u32 where
  "IEEE_poly = 0xEDB88320"

definition crc_bit :: "u32 \<Rightarrow> u32" where
  "crc_bit c = (if bit c 0 then drop_bit 1 c XOR IEEE_poly else drop_bit 1 c)"

definition crc_table :: "byte \<Rightarrow> u32" where
  "crc_table i = (crc_bit ^^ 8) (ucast i)"

definition crc_update :: "u32 \<Rightarrow> byte \<Rightarrow> u32" where
  "crc_update crc v = crc_table (ucast crc XOR v) XOR drop_bit 8 crc"

definition ChecksumIEEE :: "bytes \<Rightarrow> u32" where
  "ChecksumIEEE p = NOT (foldl crc_update (NOT 0) p)"

lemma ChecksumIEEE_Nil: "ChecksumIEEE [] = 0"
  by (simp add: ChecksumIEEE_def)

section \<open>The register update is linear and injective\<close>

lemma xor_cancel [simp]:
  fixes a b c :: "'a::len word"
  shows "a XOR c = b XOR c \<longleftrightarrow> a = b" and "c XOR a = c XOR b \<longleftrightarrow> a = b"
  by (auto simp: bit_eq_iff bit_xor_iff)

lemma crc_bit_xor: "crc_bit (a XOR b) = crc_bit a XOR crc_bit b"
  by (auto simp: crc_bit_def bit_xor_iff drop_bit_xor ac_simps)

lemma crc_bits_xor: "(crc_bit ^^ n) (a XOR b) = (crc_bit ^^ n) a XOR (crc_bit ^^ n) b"
  by (induction n) (simp_all add: crc_bit_xor)

text \<open>The top bit of the result tells which branch was taken.\<close>

lemma bit_31_crc_bit: "bit (crc_bit c) 31 \<longleftrightarrow> bit c 0"
proof -
  have "bit IEEE_poly 31" unfolding IEEE_poly_def by code_simp
  moreover have "\<not> bit (drop_bit 1 c) 31"
    by (auto simp: bit_drop_bit_eq dest: bit_imp_le_length)
  ultimately show ?thesis by (simp add: crc_bit_def bit_xor_iff)
qed

lemma crc_bit_inj: "crc_bit c = crc_bit d \<Longrightarrow> c = d"
proof -
  assume eq: "crc_bit c = crc_bit d"
  then have b0: "bit c 0 \<longleftrightarrow> bit d 0" by (metis bit_31_crc_bit)
  have "drop_bit 1 c = drop_bit 1 d"
    using eq b0 by (auto simp: crc_bit_def split: if_splits)
  then have "bit c (Suc n) \<longleftrightarrow> bit d (Suc n)" for n
    by (metis bit_drop_bit_eq comp_apply plus_1_eq_Suc)
  with b0 show "c = d" by (metis bit_word_eqI old.nat.exhaust)
qed

lemma crc_bits_inj: "(crc_bit ^^ n) c = (crc_bit ^^ n) d \<Longrightarrow> c = d"
  by (induction n) (auto dest: crc_bit_inj)

lemma crc_bits_low_zero: "\<forall>i<n. \<not> bit x i \<Longrightarrow> (crc_bit ^^ n) x = drop_bit n x"
  by (induction n) (auto simp: crc_bit_def bit_drop_bit_eq drop_bit_drop_bit)

lemma crc_update_bits: "crc_update crc v = (crc_bit ^^ 8) (crc XOR ucast v)"
proof -
  let ?low = "ucast (ucast crc XOR v) :: u32"
  let ?high = "push_bit 8 (drop_bit 8 crc)"
  have split: "crc XOR ucast v = ?low XOR ?high"
    by (rule bit_word_eqI) (auto simp: bit_simps dest: bit_imp_le_length)
  have "(crc_bit ^^ 8) ?high = drop_bit 8 ?high"
    by (rule crc_bits_low_zero) (auto simp: bit_simps)
  also have "drop_bit 8 ?high = drop_bit 8 crc"
    by (rule bit_word_eqI) (auto simp: bit_simps dest: bit_imp_le_length)
  finally have high: "(crc_bit ^^ 8) ?high = drop_bit 8 crc" .
  show ?thesis
    unfolding split crc_bits_xor high by (simp add: crc_update_def crc_table_def)
qed

lemma crc_update_inj: "crc_update c v = crc_update d v \<Longrightarrow> c = d"
  by (auto simp: crc_update_bits dest: crc_bits_inj)

lemma crc_run_inj: "foldl crc_update c vs = foldl crc_update d vs \<Longrightarrow> c = d"
  by (induction vs arbitrary: c d) (auto dest: crc_update_inj)

section \<open>Windows of up to four bytes\<close>

primrec le_word :: "bytes \<Rightarrow> u32" where
  "le_word [] = 0"
| "le_word (v # vs) = ucast v XOR push_bit 8 (le_word vs)"

lemma bit_le_word: "length vs \<le> 4 \<Longrightarrow> bit (le_word vs) n \<Longrightarrow> n < 8 * length vs"
proof (induction vs arbitrary: n)
  case (Cons v vs)
  have "bit (le_word vs) (n - 8) \<Longrightarrow> n - 8 < 8 * length vs"
    using Cons.IH [of "n - 8"] Cons.prems by simp
  with Cons.prems show ?case by (auto simp: bit_simps dest: bit_imp_le_length)
qed simp

lemma le_word_inj:
  "length vs = length ws \<Longrightarrow> length vs \<le> 4 \<Longrightarrow> le_word vs = le_word ws \<Longrightarrow> vs = ws"
proof (induction vs ws rule: list_induct2)
  case (Cons v vs w ws)
  have b: "bit (le_word (v # vs)) n \<longleftrightarrow> bit (le_word (w # ws)) n" for n
    using Cons.prems by simp
  have "bit v n \<longleftrightarrow> bit w n" if "n < 8" for n
    using b [of n] that by (simp add: bit_simps)
  then have "v = w" by (intro bit_word_eqI) simp
  have "bit (le_word vs) n \<longleftrightarrow> bit (le_word ws) n" for n
  proof (cases "n < 24")
    case True
    then show ?thesis using b [of "n + 8"] by (auto simp: bit_simps dest: bit_imp_le_length)
  next
    case False
    then show ?thesis
      using bit_le_word [of vs n] bit_le_word [of ws n] Cons by auto
  qed
  then have "le_word vs = le_word ws" by (intro bit_word_eqI) simp
  with Cons \<open>v = w\<close> show ?case by simp
qed simp

lemma crc_window:
  "length vs \<le> 4 \<Longrightarrow>
   foldl crc_update c vs = ((crc_bit ^^ 8) ^^ length vs) (c XOR le_word vs)"
proof (induction vs arbitrary: c)
  case (Cons v vs)
  have low: "drop_bit 8 (push_bit 8 (le_word vs)) = le_word vs"
  proof (rule bit_word_eqI)
    fix n
    have "bit (le_word vs) n \<Longrightarrow> n < 24" using bit_le_word [of vs n] Cons.prems by simp
    then show "bit (drop_bit 8 (push_bit 8 (le_word vs))) n \<longleftrightarrow> bit (le_word vs) n"
      by (auto simp: bit_simps)
  qed
  have "(crc_bit ^^ 8) (push_bit 8 (le_word vs)) = drop_bit 8 (push_bit 8 (le_word vs))"
    by (rule crc_bits_low_zero) (auto simp: bit_simps)
  then have "crc_update c v XOR le_word vs = (crc_bit ^^ 8) (c XOR le_word (v # vs))"
    using low by (simp add: crc_update_bits crc_bits_xor xor.assoc)
  with Cons show ?case by (simp add: funpow_swap1)
qed simp

lemma crc_windows_inj:
  assumes "length vs = length ws" and "length vs \<le> 4"
    and "foldl crc_update c vs = foldl crc_update c ws"
  shows "vs = ws"
proof -
  have "((crc_bit ^^ 8) ^^ length vs) (c XOR le_word vs) = ((crc_bit ^^ 8) ^^ length vs) (c XOR le_word ws)"
    using assms by (simp add: crc_window)
  then have "c XOR le_word vs = c XOR le_word ws"
    unfolding funpow_mult by (rule crc_bits_inj)
  then have "le_word vs = le_word ws" by simp
  with assms show ?thesis by (intro le_word_inj)
qed

theorem ChecksumIEEE_window:
  assumes "length vs = length ws" and "length vs \<le> 4"
    and "ChecksumIEEE (pre @ vs @ post) = ChecksumIEEE (pre @ ws @ post)"
  shows "vs = ws"
proof -
  have "foldl crc_update (foldl crc_update (NOT 0) pre) vs =
        foldl crc_update (foldl crc_update (NOT 0) pre) ws"
    using assms(3) by (auto simp: ChecksumIEEE_def intro: crc_run_inj)
  with assms(1,2) show ?thesis by (rule crc_windows_inj)
qed

section \<open>Evaluation\<close>

lemma crc_bit_odd: "crc_bit c = (if odd c then drop_bit 1 c XOR 0xEDB88320 else drop_bit 1 c)"
  by (simp add: crc_bit_def IEEE_poly_def bit_0)

lemma crc_byte_unrolled:
  "(crc_bit ^^ 8) x = crc_bit (crc_bit (crc_bit (crc_bit (crc_bit (crc_bit (crc_bit (crc_bit x)))))))"
  by (simp add: eval_nat_numeral)

lemmas crc_eval = ChecksumIEEE_def crc_update_bits crc_byte_unrolled crc_bit_odd

text \<open>The check value of the CRC-32 standard: the checksum of the digits 1 to 9.\<close>

lemma ChecksumIEEE_check: "ChecksumIEEE [49, 50, 51, 52, 53, 54, 55, 56, 57] = 0xCBF43926"
  by (simp add: crc_eval)

end
