(* ===== verification/Communication.thy ===== *)
theory Communication
  imports Crc32
begin

text \<open>
  \<^verbatim>\<open>communication/communication.go\<close>: the frame format, its encoder, and the reader with the
  standard library's \<open>bufio.Reader\<close> and \<open>io.ReadFull\<close> beneath it. A network stream delivers its
  bytes in the chunks the transport hands over; \<open>Read\<close> returns bytes of one chunk at a time.
\<close>

section \<open>Frames\<close>

type_synonym frame_kind = byte

definition FMessage :: frame_kind where "FMessage = 0"
definition FSignature :: frame_kind where "FSignature = 1"
definition FGetPeersReply :: frame_kind where "FGetPeersReply = 2"
definition FMessageConfirmRequest :: frame_kind where "FMessageConfirmRequest = 3"
definition FConfirmReply :: frame_kind where "FConfirmReply = 4"

lemmas frame_kind_defs =
  FMessage_def FSignature_def FGetPeersReply_def FMessageConfirmRequest_def FConfirmReply_def

record message_frame =
  frm_kind :: frame_kind
  frm_msgId :: u64
  frm_data :: bytes

definition NewFrameWithId :: "frame_kind \<Rightarrow> bytes \<Rightarrow> u64 \<Rightarrow> message_frame" where
  "NewFrameWithId kind data msgId = \<lparr>frm_kind = kind, frm_msgId = msgId, frm_data = data\<rparr>"

text \<open>\<open>NewFrame\<close> draws the identifier; \<open>rndId\<close> is what \<open>GetRandomUInt64\<close> returned.\<close>

definition NewFrame :: "frame_kind \<Rightarrow> bytes \<Rightarrow> u64 \<Rightarrow> message_frame" where
  "NewFrame kind data rndId = \<lparr>frm_kind = kind, frm_msgId = rndId, frm_data = data\<rparr>"

lemma frame_fields [simp]:
  "frm_kind (NewFrameWithId k d i) = k" "frm_msgId (NewFrameWithId k d i) = i"
  "frm_data (NewFrameWithId k d i) = d"
  "frm_kind (NewFrame k d i) = k" "frm_msgId (NewFrame k d i) = i" "frm_data (NewFrame k d i) = d"
  by (simp_all add: NewFrameWithId_def NewFrame_def)

text \<open>\<open>copy(buf[off:], bs)\<close> for a source that fits.\<close>

definition write_at :: "bytes \<Rightarrow> nat \<Rightarrow> bytes \<Rightarrow> bytes" where
  "write_at buf off bs = take off buf @ bs @ drop (off + length bs) buf"

definition Encode :: "message_frame \<Rightarrow> bytes" where
  "Encode frame =
     (let kindLen = 1; msgIdLen = 8; dataLen = length (frm_data frame);
          msgLength = kindLen + msgIdLen + dataLen + 4;
          buf = replicate (4 + msgLength) 0;
          offset = 0;
          buf = write_at buf offset (PutUint32 (of_nat msgLength));
          offset = offset + 4;
          buf = buf[offset := frm_kind frame];
          offset = offset + kindLen;
          buf = write_at buf offset (PutUint64 (frm_msgId frame));
          offset = offset + msgIdLen;
          buf = write_at buf offset (frm_data frame);
          offset = offset + dataLen;
          checksum = ChecksumIEEE (take (offset - (offset - dataLen - msgIdLen))
                                        (drop (offset - dataLen - msgIdLen) buf))
      in write_at buf offset (PutUint32 checksum))"

definition ExtractLength :: "bytes \<Rightarrow> u32 go" where
  "ExtractLength msg = and_then (go_slice msg 0 4) Uint32"

section \<open>Streams, \<open>bufio.Reader\<close>, \<open>io.ReadFull\<close>\<close>

text \<open>\<open>closing\<close> is the error \<open>Read\<close> returns once every chunk has been handed over.\<close>

record stream =
  chunks :: "bytes list"
  closing :: go_error

definition stream_read :: "nat \<Rightarrow> stream \<Rightarrow> bytes \<times> go_error option \<times> stream" where
  "stream_read n s =
     (case chunks s of
        [] \<Rightarrow> ([], Some (closing s), s)
      | c # cs \<Rightarrow>
          (take n c, None, s\<lparr>chunks := (if length c \<le> n then cs else drop n c # cs)\<rparr>))"

record reader =
  rbuf :: bytes
  rsrc :: stream

definition bufSize :: nat where
  "bufSize = 4096"

definition NewReader :: "stream \<Rightarrow> reader" where
  "NewReader s = \<lparr>rbuf = [], rsrc = s\<rparr>"

text \<open>
  \<open>Reader.Read\<close> into a slice of length \<open>n\<close>: buffered bytes first; with an empty buffer a large
  request reads the source directly, a small one fills the buffer with one read.
\<close>

definition bufio_Read :: "nat \<Rightarrow> reader \<Rightarrow> bytes \<times> go_error option \<times> reader" where
  "bufio_Read n r =
     (if n = 0 then ([], None, r)
      else if rbuf r \<noteq> [] then (take n (rbuf r), None, r\<lparr>rbuf := drop n (rbuf r)\<rparr>)
      else if bufSize \<le> n then
        (case stream_read n (rsrc r) of (bs, err, s) \<Rightarrow> (bs, err, r\<lparr>rsrc := s\<rparr>))
      else
        (case stream_read bufSize (rsrc r) of (bs, err, s) \<Rightarrow>
           if bs = [] then ([], err, r\<lparr>rsrc := s\<rparr>)
           else (take n bs, None, \<lparr>rbuf = drop n bs, rsrc = s\<rparr>)))"

text \<open>What is left to read, and a measure that every read without error decreases.\<close>

definition content :: "reader \<Rightarrow> bytes" where
  "content r = rbuf r @ concat (chunks (rsrc r))"

definition pending :: "reader \<Rightarrow> nat" where
  "pending r = length (content r) + length (chunks (rsrc r))"

lemma take_then_drop: "n < m \<Longrightarrow> take n xs @ drop n (take m xs) @ drop m xs = xs"
  by (metis append.assoc append_take_drop_id less_imp_le min.absorb1 take_take)

lemma bufio_Read_content:
  "bufio_Read n r = (bs, err, r') \<Longrightarrow> content r = bs @ content r' \<and> length bs \<le> n"
  by (auto simp: bufio_Read_def stream_read_def content_def take_then_drop not_le
           split: if_splits list.splits prod.splits)

lemma bufio_Read_err:
  "bufio_Read n r = (bs, Some e, r') \<Longrightarrow>
     bs = [] \<and> content r = [] \<and> e = closing (rsrc r) \<and> r' = r"
  by (auto simp: bufio_Read_def stream_read_def content_def split: if_splits list.splits prod.splits)

lemma bufio_Read_pending:
  "0 < n \<Longrightarrow> (bs, None, r') = bufio_Read n r \<Longrightarrow> pending r' < pending r"
  by (auto simp: bufio_Read_def stream_read_def content_def pending_def bufSize_def
           split: if_splits list.splits prod.splits)

text \<open>
  \<open>io.ReadFull\<close> with \<open>n\<close> bytes still wanted and \<open>acc\<close> already read. The end of the source after
  some bytes is \<open>UnexpectedEOF\<close>.
\<close>

function read_full :: "nat \<Rightarrow> bytes \<Rightarrow> reader \<Rightarrow> bytes \<times> go_error option \<times> reader" where
  "read_full n acc r =
     (if n = 0 then (acc, None, r)
      else
        (case bufio_Read n r of
           (bs, Some e, r') \<Rightarrow>
             (acc @ bs, Some (if e = EOF \<and> acc @ bs \<noteq> [] then UnexpectedEOF else e), r')
         | (bs, None, r') \<Rightarrow> read_full (n - length bs) (acc @ bs) r'))"
  by pat_completeness auto
termination
  by (relation "measure (\<lambda>(n, acc, r). pending r)") (auto intro: bufio_Read_pending)

declare read_full.simps [simp del]

lemma read_full_0 [simp]: "read_full 0 acc r = (acc, None, r)"
  by (simp add: read_full.simps)

section \<open>Reading one frame\<close>

definition parse_frame :: "bytes \<Rightarrow> message_frame go" where
  "parse_frame result =
     (let kindLen = 1; msgIdLen = 8; n = length result in
      and_then (go_slice result (n - 4) n) (\<lambda>tail.
      and_then (Uint32 tail) (\<lambda>checkSum.
      and_then (go_slice result kindLen (n - 4)) (\<lambda>body.
        if checkSum \<noteq> ChecksumIEEE body then fail MsgIntegrityError
        else
          and_then (go_slice result kindLen (kindLen + msgIdLen)) (\<lambda>idBytes.
          and_then (Uint64 idBytes) (\<lambda>msgId.
          and_then (go_slice result (kindLen + msgIdLen) (n - 4)) (\<lambda>data.
            ok \<lparr>frm_kind = result ! 0, frm_msgId = msgId, frm_data = data\<rparr>)))))))"

definition ReadFromReader :: "reader \<Rightarrow> message_frame go \<times> reader" where
  "ReadFromReader r =
     (case read_full 4 [] r of
        (_, Some e, r1) \<Rightarrow> (fail e, r1)
      | (msg, None, r1) \<Rightarrow>
          (case ExtractLength msg of
             Inl f \<Rightarrow> (Inl f, r1)
           | Inr len \<Rightarrow>
               let bytesLeft = unat len in
               if bytesLeft < 4 then (fail MsgIntegrityError, r1)
               else
                 (case read_full bytesLeft [] r1 of
                    (_, Some e, r2) \<Rightarrow> (fail e, r2)
                  | (result, None, r2) \<Rightarrow> (parse_frame result, r2))))"

text \<open>
  \<open>ReadOnce\<close> wraps the stream in a fresh buffered reader for every frame; what that reader has
  buffered beyond the frame is gone when it returns.
\<close>

definition ReadOnce :: "stream \<Rightarrow> message_frame go \<times> stream" where
  "ReadOnce s = (case ReadFromReader (NewReader s) of (res, r) \<Rightarrow> (res, rsrc r))"

text \<open>\<open>Write\<close> is one \<open>Write\<close> call of the stream: the frame arrives as one more chunk.\<close>

definition frame_chunk :: "message_frame \<Rightarrow> bytes" where
  "frame_chunk frame = Encode frame"

section \<open>Facts about \<open>ReadFull\<close>\<close>

lemma bufio_Read_closing: "bufio_Read n r = (bs, err, r') \<Longrightarrow> closing (rsrc r') = closing (rsrc r)"
  by (auto simp: bufio_Read_def stream_read_def split: if_splits list.splits prod.splits)

text \<open>Enough bytes: exactly the first \<open>n\<close> are returned, whatever the buffer and the chunks.\<close>

lemma read_full_ok:
  "n \<le> length (content r) \<Longrightarrow>
   \<exists>r'. read_full n acc r = (acc @ take n (content r), None, r') \<and>
        content r' = drop n (content r) \<and> closing (rsrc r') = closing (rsrc r)"
proof (induction n acc r rule: read_full.induct)
  case (1 n acc r)
  show ?case
  proof (cases "n = 0")
    case False
    obtain bs err r1 where rd: "bufio_Read n r = (bs, err, r1)" by (metis prod_cases3)
    show ?thesis
    proof (cases err)
      case None
      from rd have c: "content r = bs @ content r1" "length bs \<le> n"
        by (auto dest: bufio_Read_content)
      with "1.prems" have "n - length bs \<le> length (content r1)" by simp
      from "1.IH" [OF False rd [symmetric] refl None this]
      show ?thesis
        using False rd None c bufio_Read_closing [OF rd]
        by (auto simp: read_full.simps [of n acc r])
    next
      case (Some e)
      with rd have "content r = []" by (auto dest: bufio_Read_err)
      with "1.prems" False show ?thesis by simp
    qed
  qed simp
qed

text \<open>Too few bytes: the error of the stream, \<open>UnexpectedEOF\<close> for an end in the middle.\<close>

lemma read_full_short:
  "length (content r) < n \<Longrightarrow>
   \<exists>r'. read_full n acc r =
     (acc @ content r,
      Some (if closing (rsrc r) = EOF \<and> acc @ content r \<noteq> [] then UnexpectedEOF else closing (rsrc r)), r')"
proof (induction n acc r rule: read_full.induct)
  case (1 n acc r)
  then have n: "n \<noteq> 0" by simp
  obtain bs err r1 where rd: "bufio_Read n r = (bs, err, r1)" by (metis prod_cases3)
  show ?case
  proof (cases err)
    case None
    from rd have c: "content r = bs @ content r1" "length bs \<le> n"
      by (auto dest: bufio_Read_content)
    with "1.prems" have "length (content r1) < n - length bs" by simp
    from "1.IH" [OF n rd [symmetric] refl None this]
    show ?thesis
      using n rd None c bufio_Read_closing [OF rd] by (auto simp: read_full.simps [of n acc r])
  next
    case (Some e)
    with rd have "bs = [] \<and> content r = [] \<and> e = closing (rsrc r)" by (auto dest: bufio_Read_err)
    with n rd Some show ?thesis by (simp add: read_full.simps [of n acc r])
  qed
qed

text \<open>
  Where the chunks end matters to \<open>ReadOnce\<close>: as long as the wanted bytes lie in the buffer and
  in the chunks \<open>cs\<close>, no byte of the chunks \<open>ds\<close> after them is taken from the stream.
\<close>

definition holds :: "reader \<Rightarrow> bytes list \<Rightarrow> bytes \<Rightarrow> bool" where
  "holds r ds bs \<longleftrightarrow>
     (\<exists>cs. chunks (rsrc r) = cs @ ds \<and> rbuf r @ concat cs = bs \<and> [] \<notin> set cs)"

lemma bufio_Read_holds:
  assumes "holds r ds bs" and "bs \<noteq> []" and "0 < n"
  shows "\<exists>xs r' ys. bufio_Read n r = (xs, None, r') \<and> bs = xs @ ys \<and> holds r' ds ys"
proof -
  from assms(1) obtain cs where cs:
    "chunks (rsrc r) = cs @ ds" "rbuf r @ concat cs = bs" "[] \<notin> set cs"
    by (auto simp: holds_def)
  show ?thesis
  proof (cases "rbuf r")
    case (Cons b buf)
    with assms(3) cs show ?thesis
      by (auto simp: bufio_Read_def holds_def intro!: exI [of _ cs] exI [of _ "drop n (rbuf r) @ concat cs"])
  next
    case Nil
    with cs assms(2) obtain c cs' where c: "cs = c # cs'" by (cases cs) auto
    show ?thesis
    proof (cases "bufSize \<le> n")
      case True
      with Nil cs c assms(3) show ?thesis
        by (cases "length c \<le> n")
           (auto simp: bufio_Read_def stream_read_def holds_def
                 intro!: exI [of _ cs'] exI [of _ "drop n c # cs'"])
    next
      case False
      with Nil cs c assms(3) show ?thesis
        by (cases "length c \<le> bufSize")
           (auto simp: bufio_Read_def stream_read_def holds_def take_then_drop not_le
                 intro!: exI [of _ cs'] exI [of _ "drop bufSize c # cs'"])
    qed
  qed
qed

lemma read_full_holds:
  "holds r ds bs \<Longrightarrow> n \<le> length bs \<Longrightarrow>
   \<exists>r'. read_full n acc r = (acc @ take n bs, None, r') \<and> holds r' ds (drop n bs)"
proof (induction n acc r arbitrary: bs rule: read_full.induct)
  case (1 n acc r)
  show ?case
  proof (cases "n = 0")
    case False
    with "1.prems" have "bs \<noteq> []" by auto
    with "1.prems" False obtain xs r1 ys where rd:
      "bufio_Read n r = (xs, None, r1)" "bs = xs @ ys" "holds r1 ds ys"
      using bufio_Read_holds by blast
    then have len: "length xs \<le> n" by (auto dest: bufio_Read_content)
    with "1.prems" rd have "n - length xs \<le> length ys" by simp
    from "1.IH" [OF False rd(1) [symmetric] refl refl rd(3) this]
    show ?thesis using False rd len by (auto simp: read_full.simps [of n acc r])
  qed (use "1.prems" in simp)
qed

lemma holds_Nil: "holds r ds [] \<Longrightarrow> rbuf r = [] \<and> chunks (rsrc r) = ds"
  unfolding holds_def by (metis append_is_Nil_conv append_Nil concat_eq_Nil_conv list.set_intros(1) neq_Nil_conv)

section \<open>The frame on the wire\<close>

lemma write_at_append:
  "off = length xs \<Longrightarrow> length ys = length bs \<Longrightarrow> write_at (xs @ ys @ zs) off bs = xs @ bs @ zs"
  by (simp add: write_at_def)

text \<open>What the writes into the preallocated buffer amount to: length, kind, id, data, checksum.\<close>

definition frame_body :: "message_frame \<Rightarrow> bytes" where
  "frame_body f = PutUint64 (frm_msgId f) @ frm_data f"

definition frame_payload :: "message_frame \<Rightarrow> bytes" where
  "frame_payload f = frm_kind f # frame_body f @ PutUint32 (ChecksumIEEE (frame_body f))"

definition frame_length :: "message_frame \<Rightarrow> nat" where
  "frame_length f = length (frm_data f) + 13"

lemma length_frame_body: "length (frame_body f) = length (frm_data f) + 8"
  by (simp add: frame_body_def)

lemma length_frame_payload [simp]: "length (frame_payload f) = frame_length f"
  by (simp add: frame_payload_def frame_length_def length_frame_body)

lemma Encode_layout: "Encode f = PutUint32 (of_nat (frame_length f)) @ frame_payload f"
proof -
  let ?d = "frm_data f" and ?L = "PutUint32 (of_nat (frame_length f))"
  let ?z = "\<lambda>n. replicate n (0::byte)"
  have b0: "?z (frame_length f + 4) = ?z 4 @ 0 # ?z 8 @ ?z (length ?d) @ ?z 4"
    by (simp add: frame_length_def add.commute flip: replicate_add replicate_Suc)
  have w1: "write_at ([] @ ?z 4 @ 0 # ?z 8 @ ?z (length ?d) @ ?z 4) 0 ?L =
      ?L @ 0 # ?z 8 @ ?z (length ?d) @ ?z 4"
    by (subst write_at_append) simp_all
  have w2: "(?L @ 0 # ?z 8 @ ?z (length ?d) @ ?z 4)[4 := frm_kind f] =
      (?L @ [frm_kind f]) @ ?z 8 @ ?z (length ?d) @ ?z 4"
    by (simp add: list_update_append)
  have w3: "write_at ((?L @ [frm_kind f]) @ ?z 8 @ ?z (length ?d) @ ?z 4) 5 (PutUint64 (frm_msgId f)) =
      (?L @ [frm_kind f] @ PutUint64 (frm_msgId f)) @ ?z (length ?d) @ ?z 4"
    by (subst write_at_append) simp_all
  have w4: "write_at ((?L @ [frm_kind f] @ PutUint64 (frm_msgId f)) @ ?z (length ?d) @ ?z 4) 13 ?d =
      (?L @ [frm_kind f] @ frame_body f) @ ?z 4 @ []"
    by (subst write_at_append) (simp_all add: frame_body_def)
  have body: "take (8 + length ?d) (drop 5 ((?L @ [frm_kind f] @ frame_body f) @ ?z 4 @ [])) = frame_body f"
    by (simp add: length_frame_body)
  have w5: "write_at ((?L @ [frm_kind f] @ frame_body f) @ ?z 4 @ []) (13 + length ?d) bs =
      (?L @ [frm_kind f] @ frame_body f) @ bs @ []" if "length bs = 4" for bs
    by (rule write_at_append) (simp_all add: that length_frame_body)
  have len: "1 + 8 + length ?d + 4 = frame_length f" by (simp add: frame_length_def)
  show ?thesis
    unfolding Encode_def Let_def len
    using w1 w2 w3 w4 body w5 by (simp add: frame_payload_def add.commute b0)
qed

lemma length_Encode: "length (Encode f) = frame_length f + 4"
  by (simp add: Encode_layout)

lemma Encode_not_Nil [simp]: "Encode f \<noteq> []" "[] \<noteq> Encode f"
  by (simp_all add: Encode_layout PutUint32_def)

section \<open>Parsing\<close>

text \<open>
  The parser on a payload of at least four bytes, split by its length: what is checked, in the
  order of the code.
\<close>

lemma parse_frame_cases:
  assumes "4 \<le> length p"
  shows "parse_frame p =
    (if length p = 4 then panic SliceBounds
     else if Uint32 (drop (length p - 4) p) \<noteq> ok (ChecksumIEEE (take (length p - 5) (drop 1 p)))
     then fail MsgIntegrityError
     else if length p \<le> 12 then panic SliceBounds
     else and_then (Uint64 (take 8 (drop 1 p)))
            (\<lambda>i. ok \<lparr>frm_kind = p ! 0, frm_msgId = i, frm_data = take (length p - 13) (drop 9 p)\<rparr>))"
proof -
  let ?n = "length p"
  obtain w where w: "Uint32 (drop (?n - 4) p) = ok w"
    using Uint32_total [of "drop (?n - 4) p"] assms by auto
  have idok: "\<exists>i. Uint64 (take 8 (drop 1 p)) = ok i" if "9 \<le> ?n"
    using Uint64_total [of "take 8 (drop 1 p)"] that by auto
  note unfolded = parse_frame_def Let_def go_slice_def
  consider "?n = 4" | "?n \<noteq> 4" "?n \<le> 8" | "9 \<le> ?n" "?n \<le> 12" | "13 \<le> ?n" by linarith
  then show ?thesis
  proof cases
    case 1
    with w show ?thesis by (simp add: unfolded)
  next
    case 2
    with assms have "Suc 0 \<le> ?n - 4" by linarith
    with 2 w assms show ?thesis by (simp add: unfolded)
  next
    case 3
    with w idok show ?thesis by (auto simp: unfolded)
  next
    case 4
    with w show ?thesis by (simp add: unfolded)
  qed
qed

lemma parse_frame_payload [simp]: "parse_frame (frame_payload f) = ok f"
proof -
  let ?p = "frame_payload f"
  have n: "length ?p = length (frm_data f) + 13" by (simp add: frame_length_def)
  then have ge: "4 \<le> length ?p" by simp
  have tail: "drop (length ?p - 4) ?p = PutUint32 (ChecksumIEEE (frame_body f))"
    by (simp add: frame_payload_def length_frame_body drop_Cons')
  have body: "take (length ?p - 5) (drop 1 ?p) = frame_body f"
    by (simp add: frame_payload_def length_frame_body)
  have id: "take 8 (drop 1 ?p) = PutUint64 (frm_msgId f)"
    by (simp add: frame_payload_def frame_body_def)
  have data: "take (length ?p - 13) (drop 9 ?p) = frm_data f"
    by (simp add: frame_payload_def frame_body_def frame_length_def)
  show ?thesis
    unfolding parse_frame_cases [OF ge] tail body id data using n by (simp add: frame_payload_def)
qed

section \<open>Reading a length-prefixed payload\<close>

lemma ExtractLength_PutUint32 [simp]: "ExtractLength (PutUint32 L) = ok L"
  by (simp add: ExtractLength_def go_slice_def)

lemma ReadFromReader_content:
  assumes "content r = PutUint32 L @ p @ rest" and "length p = unat L"
  shows "\<exists>r'. ReadFromReader r = ((if unat L < 4 then fail MsgIntegrityError else parse_frame p), r') \<and>
    (4 \<le> unat L \<longrightarrow> content r' = rest) \<and> closing (rsrc r') = closing (rsrc r)"
proof -
  obtain r1 where r1: "read_full 4 [] r = (PutUint32 L, None, r1)" "content r1 = p @ rest"
    "closing (rsrc r1) = closing (rsrc r)"
    using read_full_ok [of 4 r "[]"] assms(1) by auto
  obtain r2 where r2: "read_full (unat L) [] r1 = (p, None, r2)" "content r2 = rest"
    "closing (rsrc r2) = closing (rsrc r1)"
    using read_full_ok [of "unat L" r1 "[]"] r1(2) assms(2) by auto
  from r1 r2 show ?thesis by (auto simp: ReadFromReader_def)
qed

lemma ReadFromReader_holds:
  assumes "holds r ds (PutUint32 L @ p)" and "length p = unat L" and "4 \<le> unat L"
  shows "\<exists>r'. ReadFromReader r = (parse_frame p, r') \<and> rbuf r' = [] \<and> chunks (rsrc r') = ds"
proof -
  obtain r1 where r1: "read_full 4 [] r = (PutUint32 L, None, r1)" "holds r1 ds p"
    using read_full_holds [OF assms(1), of 4 "[]"] by auto
  obtain r2 where r2: "read_full (unat L) [] r1 = (p, None, r2)" "holds r2 ds []"
    using read_full_holds [OF r1(2), of "unat L" "[]"] assms(2) by auto
  from r1 r2 holds_Nil [OF r2(2)] assms(3) show ?thesis by (auto simp: ReadFromReader_def)
qed

text \<open>The length field is 32 bits wide: a frame is representable below that bound.\<close>

definition valid_frame :: "message_frame \<Rightarrow> bool" where
  "valid_frame f \<longleftrightarrow> frame_length f < 2 ^ 32"

lemma unat_frame_length: "valid_frame f \<Longrightarrow> unat (of_nat (frame_length f) :: u32) = frame_length f"
  by (simp add: valid_frame_def unat_of_nat)

lemma frame_length_ge: "13 \<le> frame_length f"
  by (simp add: frame_length_def)

lemma ReadFromReader_Encode:
  assumes "valid_frame f" and "content r = Encode f @ rest"
  shows "\<exists>r'. ReadFromReader r = (ok f, r') \<and> content r' = rest \<and> closing (rsrc r') = closing (rsrc r)"
  using ReadFromReader_content [of r "of_nat (frame_length f)" "frame_payload f" rest] assms
    frame_length_ge [of f]
  by (auto simp: Encode_layout unat_frame_length)

text \<open>Reading frames off one buffered reader, or one by one with \<open>ReadOnce\<close>.\<close>

primrec read_frames :: "nat \<Rightarrow> reader \<Rightarrow> message_frame go list \<times> reader" where
  "read_frames 0 r = ([], r)"
| "read_frames (Suc n) r =
     (case ReadFromReader r of (x, r') \<Rightarrow> (case read_frames n r' of (xs, r'') \<Rightarrow> (x # xs, r'')))"

primrec read_once_n :: "nat \<Rightarrow> stream \<Rightarrow> message_frame go list \<times> stream" where
  "read_once_n 0 s = ([], s)"
| "read_once_n (Suc n) s =
     (case ReadOnce s of (x, s') \<Rightarrow> (case read_once_n n s' of (xs, s'') \<Rightarrow> (x # xs, s'')))"

text \<open>The frame format as a self-delimiting codec.\<close>

definition frame_dec :: "bytes \<Rightarrow> (message_frame \<times> bytes) option" where
  "frame_dec bs =
     (case ReadFromReader (NewReader \<lparr>chunks = [bs], closing = EOF\<rparr>) of
        (Inr f, r) \<Rightarrow> Some (f, content r)
      | _ \<Rightarrow> None)"

interpretation frame: prefix_codec valid_frame Encode frame_dec
proof
  fix f rest assume "valid_frame f"
  then obtain r' where "ReadFromReader (NewReader \<lparr>chunks = [Encode f @ rest], closing = EOF\<rparr>) = (ok f, r')"
    "content r' = rest"
    using ReadFromReader_Encode [of f "NewReader \<lparr>chunks = [Encode f @ rest], closing = EOF\<rparr>" rest]
    by (auto simp: content_def NewReader_def)
  then show "frame_dec (Encode f @ rest) = Some (f, rest)" by (simp add: frame_dec_def)
qed

section \<open>Properties of the frame format\<close>

text \<open>
  C10: on one buffered reader, reading is the inverse of encoding for every sequence of frames and every way
  the transport cuts the bytes into chunks: \<open>n\<close> reads return the \<open>n\<close> encoded frames in order and
  leave exactly the bytes after them.
\<close>
theorem read_frames_Encode:
  assumes "list_all valid_frame fs"
    and "content r = concat (map Encode fs) @ rest"
  shows "\<exists>r'. read_frames (length fs) r = (map ok fs, r') \<and> content r' = rest"
  using assms
proof (induction fs arbitrary: r)
  case (Cons f fs)
  obtain r1 where r1: "ReadFromReader r = (ok f, r1)" "content r1 = concat (map Encode fs) @ rest"
    using ReadFromReader_Encode [of f r "concat (map Encode fs) @ rest"] Cons.prems by auto
  from Cons.IH [OF _ r1(2)] Cons.prems(1) obtain r2 where
    "read_frames (length fs) r1 = (map ok fs, r2)" "content r2 = rest" by auto
  with r1 show ?case by simp
qed simp

text \<open>Sample frames for the witnesses.\<close>

definition sample_frame :: message_frame where
  "sample_frame = \<lparr>frm_kind = FMessage, frm_msgId = 7, frm_data = [1, 2]\<rparr>"

lemma valid_sample_frame [simp]: "valid_frame sample_frame"
  by (simp add: valid_frame_def frame_length_def sample_frame_def)

lemma read_frames_Encode_witness:
  "\<exists>r'. read_frames 2 (NewReader \<lparr>chunks = map (\<lambda>b. [b]) (Encode sample_frame @ Encode sample_frame),
       closing = EOF\<rparr>) = ([ok sample_frame, ok sample_frame], r') \<and> content r' = []"
  using read_frames_Encode [of "[sample_frame, sample_frame]"
      "NewReader \<lparr>chunks = map (\<lambda>b. [b]) (Encode sample_frame @ Encode sample_frame), closing = EOF\<rparr>" "[]"]
  by (simp add: content_def NewReader_def concat_map_singleton numeral_2_eq_2)

text \<open>
  \<open>ReadOnce\<close>, which builds a new buffered reader per frame, reads frame after frame when every frame's
  bytes end at a chunk boundary: then it returns all of them in order and leaves the stream with
  exactly the later chunks.
\<close>
theorem ReadOnce_aligned:
  assumes "list_all2 (\<lambda>f cs. valid_frame f \<and> concat cs = Encode f \<and> [] \<notin> set cs) fs css"
    and "chunks s = concat css @ ds"
  shows "\<exists>s'. read_once_n (length fs) s = (map ok fs, s') \<and> chunks s' = ds"
  using assms
proof (induction arbitrary: s rule: list_all2_induct)
  case (Cons f fs cs css)
  let ?L = "of_nat (frame_length f) :: u32"
  from Cons have f: "valid_frame f" by simp
  have "holds (NewReader s) (concat css @ ds) (PutUint32 ?L @ frame_payload f)"
    unfolding holds_def using Cons by (auto simp: NewReader_def Encode_layout intro!: exI [of _ cs])
  from ReadFromReader_holds [OF this] obtain r' where
    "ReadFromReader (NewReader s) = (ok f, r')" "chunks (rsrc r') = concat css @ ds"
    using frame_length_ge [of f] by (auto simp: unat_frame_length [OF f])
  then have "ReadOnce s = (ok f, rsrc r')" "chunks (rsrc r') = concat css @ ds"
    by (simp_all add: ReadOnce_def)
  with Cons.IH [of "rsrc r'"] show ?case by auto
qed simp

lemma ReadOnce_aligned_witness:
  "\<exists>s'. read_once_n 2 \<lparr>chunks = [Encode sample_frame, Encode sample_frame, [9]], closing = EOF\<rparr> =
     ([ok sample_frame, ok sample_frame], s') \<and> chunks s' = [[9]]"
  using ReadOnce_aligned [of "[sample_frame, sample_frame]" "[[Encode sample_frame], [Encode sample_frame]]"
      "\<lparr>chunks = [Encode sample_frame, Encode sample_frame, [9]], closing = EOF\<rparr>" "[[9]]"]
  by (simp add: numeral_2_eq_2)

text \<open>
  C35: when one chunk of at most 4096 bytes holds a frame and further bytes, \<open>ReadOnce\<close> returns the frame
  and loses every byte behind it: a second frame in that chunk is never seen, the next read
  starts at the chunk after it.
\<close>
theorem ReadOnce_loses_read_ahead:
  assumes "valid_frame f" and "chunks s = (Encode f @ behind) # ds"
    and "length (Encode f @ behind) \<le> 4096"
  shows "ReadOnce s = (ok f, s\<lparr>chunks := ds\<rparr>)"
proof -
  let ?L = "of_nat (frame_length f) :: u32"
  define r1 where "r1 = \<lparr>rbuf = frame_payload f @ behind, rsrc = s\<lparr>chunks := ds\<rparr>\<rparr>"
  have ne: "frame_payload f \<noteq> []" by (simp add: frame_payload_def)
  have "bufio_Read 4 (NewReader s) = (PutUint32 ?L, None, r1)"
    using assms(2,3)
    by (simp add: bufio_Read_def NewReader_def bufSize_def stream_read_def Encode_layout r1_def
                  PutUint32_def)
  then have first: "read_full 4 [] (NewReader s) = (PutUint32 ?L, None, r1)"
    by (simp add: read_full.simps [of 4])
  have pos: "frame_length f \<noteq> 0" using frame_length_ge [of f] by simp
  have "bufio_Read (frame_length f) r1 = (frame_payload f, None, r1\<lparr>rbuf := behind\<rparr>)"
    using ne pos by (simp add: bufio_Read_def r1_def)
  then have "read_full (frame_length f) [] r1 = (frame_payload f, None, r1\<lparr>rbuf := behind\<rparr>)"
    using pos by (simp add: read_full.simps [of "frame_length f"])
  with first show ?thesis
    using frame_length_ge [of f]
    by (simp add: ReadOnce_def ReadFromReader_def unat_frame_length [OF assms(1)] r1_def)
qed

lemma ReadOnce_loses_read_ahead_witness:
  "ReadOnce \<lparr>chunks = [Encode sample_frame @ Encode sample_frame], closing = EOF\<rparr> =
     (ok sample_frame, \<lparr>chunks = [], closing = EOF\<rparr>)"
  using ReadOnce_loses_read_ahead [of sample_frame
      "\<lparr>chunks = [Encode sample_frame @ Encode sample_frame], closing = EOF\<rparr>" "Encode sample_frame" "[]"]
  by (simp add: length_Encode frame_length_def sample_frame_def valid_frame_def)

text \<open>
  C28: which complete payloads crash the reader: a payload of a declared length of 4 always panics, one of 5
  to 12 bytes panics exactly when its checksum is right, and from 13 bytes on none does.
\<close>
theorem ReadFromReader_panics_iff:
  assumes "content r = PutUint32 L @ p @ rest" and "length p = unat L" and "4 \<le> unat L"
  shows "is_panic (fst (ReadFromReader r)) \<longleftrightarrow>
    unat L = 4 \<or>
    unat L \<le> 12 \<and> Uint32 (drop (unat L - 4) p) = ok (ChecksumIEEE (take (unat L - 5) (drop 1 p)))"
proof -
  have eq: "fst (ReadFromReader r) = parse_frame p"
    using ReadFromReader_content [OF assms(1,2)] assms(3) by auto
  have id: "\<exists>i. Uint64 (take 8 (drop 1 p)) = ok i" if "12 < unat L"
    using Uint64_total [of "take 8 (drop 1 p)"] that assms(2) by auto
  have len: "4 \<le> length p" using assms by simp
  show ?thesis
    unfolding eq parse_frame_cases [OF len] assms(2) using id assms(3) by auto
qed

lemma ReadFromReader_panics_iff_witness:
  "is_panic (fst (ReadFromReader (NewReader \<lparr>chunks = [[4, 0, 0, 0, 1, 2, 3, 4]], closing = EOF\<rparr>)))"
  using ReadFromReader_panics_iff [of "NewReader \<lparr>chunks = [[4, 0, 0, 0, 1, 2, 3, 4]], closing = EOF\<rparr>"
      4 "[1, 2, 3, 4]" "[]"]
  by (simp add: content_def NewReader_def PutUint32_def drop_bit_eq_div)

text \<open>
  C24: a corruption confined to at most four consecutive bytes of the message id and the data of a frame is
  always detected: the reader answers \<open>MsgIntegrityError\<close>, for every frame and every chunking.
\<close>
theorem corrupted_window_rejected:
  assumes "valid_frame f" and "frame_body f = pre @ vs @ post"
    and "length ws = length vs" and "length vs \<le> 4" and "ws \<noteq> vs"
    and "content r = PutUint32 (of_nat (frame_length f)) @
           (frm_kind f # (pre @ ws @ post) @ PutUint32 (ChecksumIEEE (frame_body f))) @ rest"
  shows "fst (ReadFromReader r) = fail MsgIntegrityError"
proof -
  let ?p = "frm_kind f # (pre @ ws @ post) @ PutUint32 (ChecksumIEEE (frame_body f))"
  have body: "length (pre @ ws @ post) = length (frm_data f) + 8"
    using length_frame_body [of f] assms(2,3) by simp
  then have len: "length ?p = frame_length f" by (simp add: frame_length_def)
  then have un: "length ?p = unat (of_nat (frame_length f) :: u32)"
    by (simp add: unat_frame_length [OF assms(1)])
  have "fst (ReadFromReader r) = parse_frame ?p"
    using ReadFromReader_content [OF assms(6) un] frame_length_ge [of f]
    by (auto simp: unat_frame_length [OF assms(1)])
  moreover have "parse_frame ?p = fail MsgIntegrityError"
  proof -
    have ge: "4 \<le> length ?p" and n: "length ?p \<noteq> 4" using len frame_length_ge [of f] by simp_all
    have "ChecksumIEEE (pre @ ws @ post) \<noteq> ChecksumIEEE (pre @ vs @ post)"
      using ChecksumIEEE_window [of ws vs pre post] assms by auto
    moreover have "take (length ?p - 5) (drop 1 ?p) = pre @ ws @ post" by simp
    moreover have "drop (length ?p - 4) ?p = PutUint32 (ChecksumIEEE (frame_body f))"
      by (simp add: drop_Cons')
    ultimately show ?thesis
      unfolding parse_frame_cases [OF ge] using n assms(2) by simp
  qed
  ultimately show ?thesis by simp
qed

lemma corrupted_window_rejected_witness:
  "fst (ReadFromReader (NewReader \<lparr>chunks = [PutUint32 15 @
     (FMessage # ([7, 0, 0, 0, 0, 0, 0, 0] @ [1, 3]) @
      PutUint32 (ChecksumIEEE [7, 0, 0, 0, 0, 0, 0, 0, 1, 2]))], closing = EOF\<rparr>)) = fail MsgIntegrityError"
  using corrupted_window_rejected [of sample_frame "[7, 0, 0, 0, 0, 0, 0, 0, 1]" "[2]" "[]" "[3]"
     "NewReader \<lparr>chunks = [PutUint32 15 @
       (FMessage # ([7, 0, 0, 0, 0, 0, 0, 0] @ [1, 3]) @
        PutUint32 (ChecksumIEEE [7, 0, 0, 0, 0, 0, 0, 0, 1, 2]))], closing = EOF\<rparr>" "[]"]
  by (simp add: content_def NewReader_def frame_body_def frame_length_def sample_frame_def
        PutUint64_def valid_frame_def drop_bit_eq_div)

text \<open>
  The kind byte is outside the checksum: replacing it in an encoded frame by any other value gives the
  encoding of the frame with that kind, which the reader accepts.
\<close>
theorem kind_byte_unprotected:
  assumes "valid_frame f" and "content r = (Encode f)[4 := k] @ rest"
  shows "fst (ReadFromReader r) = ok (f\<lparr>frm_kind := k\<rparr>)"
proof -
  have "(Encode f)[4 := k] = Encode (f\<lparr>frm_kind := k\<rparr>)"
    by (simp add: Encode_layout frame_payload_def frame_body_def frame_length_def list_update_append)
  moreover have "valid_frame (f\<lparr>frm_kind := k\<rparr>)"
    using assms(1) by (simp add: valid_frame_def frame_length_def)
  ultimately show ?thesis using ReadFromReader_Encode assms(2) by fastforce
qed

lemma kind_byte_unprotected_witness:
  "fst (ReadFromReader (NewReader \<lparr>chunks = [(Encode sample_frame)[4 := FSignature]], closing = EOF\<rparr>)) =
     ok (sample_frame\<lparr>frm_kind := FSignature\<rparr>)"
  by (rule kind_byte_unprotected [where rest = "[]"]) (simp_all add: content_def NewReader_def)

text \<open>
  A stream that ends inside a frame: \<open>UnexpectedEOF\<close> once a byte of the current field was read, \<open>EOF\<close>
  exactly between the length field and the payload or before the frame, and never a frame.
\<close>
theorem truncated_frame:
  assumes "valid_frame f" and "Encode f = content r @ missing" and "missing \<noteq> []"
    and "closing (rsrc r) = EOF"
  shows "fst (ReadFromReader r) =
    (if length (content r) = 0 \<or> length (content r) = 4 then fail EOF else fail UnexpectedEOF)"
proof (cases "length (content r) < 4")
  case True
  then show ?thesis
    using read_full_short [OF True, of "[]"] assms(4) by (auto simp: ReadFromReader_def)
next
  case False
  let ?L = "of_nat (frame_length f) :: u32"
  have enc: "content r @ missing = PutUint32 ?L @ frame_payload f"
    using assms(2) by (simp add: Encode_layout)
  have take4: "take 4 (content r) = PutUint32 ?L"
  proof -
    have "take 4 (content r @ missing) = take 4 (content r)" using False by simp
    then show ?thesis unfolding enc by simp
  qed
  obtain r1 where r1: "read_full 4 [] r = (PutUint32 ?L, None, r1)" "content r1 = drop 4 (content r)"
    "closing (rsrc r1) = EOF"
    using read_full_ok [of 4 r "[]"] False assms(4) by (auto simp: take4)
  have "length (content r @ missing) = 4 + frame_length f" unfolding enc by simp
  then have "length (content r1) < frame_length f"
    using assms(3) r1(2) False by (cases missing) auto
  from read_full_short [OF this, of "[]"] r1 False show ?thesis
    using frame_length_ge [of f] by (auto simp: ReadFromReader_def unat_frame_length [OF assms(1)])
qed

lemma truncated_frame_witness:
  "fst (ReadFromReader (NewReader \<lparr>chunks = [take 9 (Encode sample_frame)], closing = EOF\<rparr>)) =
     fail UnexpectedEOF"
  using truncated_frame [of sample_frame
      "NewReader \<lparr>chunks = [take 9 (Encode sample_frame)], closing = EOF\<rparr>" "drop 9 (Encode sample_frame)"]
  by (simp add: content_def NewReader_def length_Encode frame_length_def sample_frame_def valid_frame_def)

end
