(* ===== verification/Metadata.thy ===== *)
theory Metadata
  imports Net_Lib Utils_Crypto Communication
begin

text \<open>
  \<^verbatim>\<open>peer_service/connection/metadata.go\<close>: the peer records exchanged between hubs and their
  length-prefixed array format. \<open>DecodeArray\<close> receives a slice of a received frame, and Go lets a
  slice expression reach up to the capacity: the bytes behind the visible ones (the frame's
  checksum) are the argument \<open>spare\<close>.
\<close>

record metadata =
  md_PublicKey :: string
  md_Id :: peer_id
  md_LastSeen :: u32
  md_Addr :: "multiaddr option"

definition to_serializable :: "net_lib \<Rightarrow> metadata \<Rightarrow> metadata_ser" where
  "to_serializable L pc =
     \<lparr>ser_PublicKey = HexToBytes (md_PublicKey pc), ser_Id = Pretty L (md_Id pc),
      ser_LastSeen = md_LastSeen pc,
      ser_Addr = (case md_Addr pc of None \<Rightarrow> [] | Some a \<Rightarrow> AddrBytes L a)\<rparr>"

definition toBytes :: "net_lib \<Rightarrow> metadata \<Rightarrow> bytes go" where
  "toBytes L pc = or_panic (GobEncode L (to_serializable L pc))"

definition Encode_md :: "net_lib \<Rightarrow> metadata \<Rightarrow> bytes go" where
  "Encode_md L pc = and_then (toBytes L pc) (\<lambda>data. ok (PutUint32 (of_nat (length data)) @ data))"

definition PeerConnectionFromBytes :: "net_lib \<Rightarrow> bytes \<Rightarrow> metadata go" where
  "PeerConnectionFromBytes L raw =
     and_then (or_panic (GobDecode L raw)) (\<lambda>peerConn.
     and_then (or_panic (DecodeId L (ser_Id peerConn))) (\<lambda>pid.
     and_then (if length (ser_Addr peerConn) > 0
               then and_then (or_panic (NewMultiaddrBytes L (ser_Addr peerConn))) (\<lambda>a. ok (Some a))
               else ok None) (\<lambda>addr.
       ok \<lparr>md_PublicKey = BytesToHex (ser_PublicKey peerConn), md_Id = pid,
           md_LastSeen = ser_LastSeen peerConn, md_Addr = addr\<rparr>)))"

primrec EncodeArray :: "net_lib \<Rightarrow> metadata list \<Rightarrow> bytes go" where
  "EncodeArray L [] = ok []"
| "EncodeArray L (pc # pcs) =
     and_then (Encode_md L pc) (\<lambda>bs. and_then (EncodeArray L pcs) (\<lambda>rest. ok (bs @ rest)))"

text \<open>
  The loop of \<open>DecodeArray\<close>: \<open>backing\<close> is the visible data followed by the spare capacity, \<open>len\<close>
  the visible length, and \<open>cursor\<close> moves by at least the four bytes of a length field.
\<close>

function decode_from :: "net_lib \<Rightarrow> bytes \<Rightarrow> nat \<Rightarrow> nat \<Rightarrow> metadata list go" where
  "decode_from L backing len cursor =
     (if cursor < len then
        and_then (ExtractLength (drop cursor backing)) (\<lambda>l.
        and_then (go_slice backing (cursor + 4) (cursor + 4 + unat l)) (\<lambda>current.
        and_then (PeerConnectionFromBytes L current) (\<lambda>pc.
        and_then (decode_from L backing len (cursor + 4 + unat l)) (\<lambda>pcs.
          ok (pc # pcs)))))
      else ok [])"
  by pat_completeness auto
termination
  by (relation "measure (\<lambda>(L, backing, len, cursor). len - cursor)") auto

declare decode_from.simps [simp del]

definition DecodeArray :: "net_lib \<Rightarrow> bytes \<Rightarrow> bytes \<Rightarrow> metadata list go" where
  "DecodeArray L raw spare = decode_from L (raw @ spare) (length raw) 0"

section \<open>Round trip\<close>

text \<open>
  The record's values are in the range of the libraries: gob decodes what it encoded, the id and
  the address survive their text and binary forms, and the key is lower-case hexadecimal.
\<close>

definition md_valid :: "net_lib \<Rightarrow> metadata \<Rightarrow> bool" where
  "md_valid L pc \<longleftrightarrow>
     (\<exists>bs. GobEncode L (to_serializable L pc) = Inr bs \<and> length bs < 2 ^ 32 \<and>
           GobDecode L bs = Inr (to_serializable L pc)) \<and>
     DecodeId L (Pretty L (md_Id pc)) = Inr (md_Id pc) \<and>
     BytesToHex (HexToBytes (md_PublicKey pc)) = md_PublicKey pc \<and>
     (case md_Addr pc of None \<Rightarrow> True
      | Some a \<Rightarrow> AddrBytes L a \<noteq> [] \<and> NewMultiaddrBytes L (AddrBytes L a) = Inr a)"

lemma PeerConnectionFromBytes_toBytes:
  assumes "md_valid L pc"
  shows "\<exists>bs. toBytes L pc = ok bs \<and> length bs < 2 ^ 32 \<and> PeerConnectionFromBytes L bs = ok pc"
proof -
  from assms obtain bs where bs: "GobEncode L (to_serializable L pc) = Inr bs" "length bs < 2 ^ 32"
    "GobDecode L bs = Inr (to_serializable L pc)" by (auto simp: md_valid_def)
  then have "PeerConnectionFromBytes L bs = ok pc"
    using assms
    by (auto simp: PeerConnectionFromBytes_def md_valid_def to_serializable_def split: option.splits)
  with bs show ?thesis by (auto simp: toBytes_def)
qed

text \<open>One record as a self-delimiting block, the shape both directions of the array share.\<close>

definition md_enc :: "net_lib \<Rightarrow> metadata \<Rightarrow> bytes" where
  "md_enc L pc = (case Encode_md L pc of Inr bs \<Rightarrow> bs | Inl _ \<Rightarrow> [])"

definition md_dec :: "net_lib \<Rightarrow> bytes \<Rightarrow> (metadata \<times> bytes) option" where
  "md_dec L bs =
     (case ExtractLength bs of
        Inl _ \<Rightarrow> None
      | Inr l \<Rightarrow>
          (case PeerConnectionFromBytes L (take (unat l) (drop 4 bs)) of
             Inl _ \<Rightarrow> None
           | Inr pc \<Rightarrow> Some (pc, drop (4 + unat l) bs)))"

lemma md_enc_layout:
  assumes "md_valid L pc"
  shows "\<exists>bs. Encode_md L pc = ok (md_enc L pc) \<and> md_enc L pc = PutUint32 (of_nat (length bs)) @ bs \<and>
    unat (of_nat (length bs) :: u32) = length bs \<and> PeerConnectionFromBytes L bs = ok pc"
  using PeerConnectionFromBytes_toBytes [OF assms]
  by (auto simp: md_enc_def Encode_md_def unat_of_nat)

interpretation md: prefix_codec "md_valid L" "md_enc L" "md_dec L" for L
proof
  fix pc rest assume "md_valid L pc"
  from md_enc_layout [OF this] obtain bs where bs:
    "md_enc L pc = PutUint32 (of_nat (length bs)) @ bs" "unat (of_nat (length bs) :: u32) = length bs"
    "PeerConnectionFromBytes L bs = ok pc" by auto
  have "ExtractLength (md_enc L pc @ rest) = ok (of_nat (length bs))"
    by (simp add: ExtractLength_def go_slice_def bs(1))
  with bs show "md_dec L (md_enc L pc @ rest) = Some (pc, rest)" by (simp add: md_dec_def)
qed

lemma EncodeArray_concat:
  "list_all (md_valid L) pcs \<Longrightarrow> EncodeArray L pcs = ok (concat (map (md_enc L) pcs))"
  using md_enc_layout by (induction pcs) fastforce+

lemma decode_from_concat:
  assumes "list_all (md_valid L) pcs"
  shows "decode_from L (pre @ concat (map (md_enc L) pcs) @ spare)
           (length pre + length (concat (map (md_enc L) pcs))) (length pre) = ok pcs"
  using assms
proof (induction pcs arbitrary: pre)
  case Nil
  then show ?case by (simp add: decode_from.simps)
next
  case (Cons pc pcs)
  then obtain bs where bs: "md_enc L pc = PutUint32 (of_nat (length bs)) @ bs"
    "unat (of_nat (length bs) :: u32) = length bs" "PeerConnectionFromBytes L bs = ok pc"
    using md_enc_layout [of L pc] by auto
  let ?tail = "concat (map (md_enc L) pcs)"
  let ?all = "pre @ concat (map (md_enc L) (pc # pcs)) @ spare"
  let ?len = "length pre + length (concat (map (md_enc L) (pc # pcs)))"
  have "decode_from L ((pre @ md_enc L pc) @ ?tail @ spare)
      (length (pre @ md_enc L pc) + length ?tail) (length (pre @ md_enc L pc)) = ok pcs"
    by (rule Cons.IH) (use Cons.prems in simp)
  then have rest: "decode_from L ?all ?len (length pre + 4 + length bs) = ok pcs"
    by (simp add: bs(1) add.assoc)
  have "ExtractLength (drop (length pre) ?all) = ok (of_nat (length bs))"
    by (simp add: ExtractLength_def go_slice_def bs(1))
  moreover have "go_slice ?all (length pre + 4) (length pre + 4 + length bs) = ok bs"
    by (simp add: go_slice_def bs(1))
  ultimately show ?case
    using rest bs(2,3) by (subst decode_from.simps) (simp add: bs(1))
qed

section \<open>Properties\<close>

text \<open>
  C23: a peer list survives the wire: for records in the range of the libraries, \<open>EncodeArray\<close> succeeds and
  \<open>DecodeArray\<close> returns exactly the same records in the same order, whatever spare capacity lies
  behind the received slice.
\<close>
theorem DecodeArray_EncodeArray:
  assumes "list_all (md_valid L) pcs"
  shows "\<exists>raw. EncodeArray L pcs = ok raw \<and> DecodeArray L raw spare = ok pcs"
  using EncodeArray_concat [OF assms] decode_from_concat [OF assms, of "[]" spare]
  by (simp add: DecodeArray_def)

definition sample_md :: metadata where
  "sample_md = \<lparr>md_PublicKey = ''02ab'', md_Id = [1, 2], md_LastSeen = 0, md_Addr = Some ''/ip4/1''\<rparr>"

lemma md_valid_sample: "md_valid toy_net sample_md"
proof -
  have hex: "BytesToHex (HexToBytes ''02ab'') = ''02ab''" by code_simp
  have key: "length (HexToBytes ''02ab'') = 2" by code_simp
  have "length (ser_PublicKey (to_serializable toy_net sample_md)) < 256"
       "length (ser_Id (to_serializable toy_net sample_md)) < 256"
       "length (ser_Addr (to_serializable toy_net sample_md)) < 256"
    using key by (simp_all add: to_serializable_def sample_md_def toy_net_def text_bytes_def bytes_text_def)
  from toy_gob_round [OF this] have
    "\<exists>bs. toy_gob_enc (to_serializable toy_net sample_md) = Inr bs \<and> length bs < 2 ^ 32 \<and>
       toy_gob_dec bs = Inr (to_serializable toy_net sample_md)"
    using key
    by (simp add: toy_gob_enc_def sized_def to_serializable_def sample_md_def toy_net_def
        text_bytes_def bytes_text_def)
  then show ?thesis
    using hex by (auto simp: md_valid_def toy_net_def sample_md_def) (simp add: text_bytes_def)
qed

lemma DecodeArray_EncodeArray_witness:
  "\<exists>raw. EncodeArray toy_net [sample_md, sample_md] = ok raw \<and>
     DecodeArray toy_net raw [0, 0, 0, 0] = ok [sample_md, sample_md]"
  by (rule DecodeArray_EncodeArray) (simp add: md_valid_sample)

lemma no_error_ExtractLength [simp]: "no_error (ExtractLength bs)"
  by (simp add: ExtractLength_def no_error_and_then)

lemma no_error_PeerConnectionFromBytes [simp]: "no_error (PeerConnectionFromBytes L bs)"
  by (simp add: PeerConnectionFromBytes_def no_error_and_then)

lemma no_error_decode_from: "no_error (decode_from L backing len cursor)"
proof (induction L backing len cursor rule: decode_from.induct)
  case (1 L backing len cursor)
  then show ?case
    by (subst decode_from.simps) (auto intro!: no_error_and_then)
qed

text \<open>
  \<open>DecodeArray\<close> has no error result: whatever bytes a peer sends, it either returns records or panics.
\<close>
theorem DecodeArray_total_or_panic:
  "(\<exists>pcs. DecodeArray L raw spare = ok pcs) \<or> is_panic (DecodeArray L raw spare)"
  using no_error_decode_from [of L "raw @ spare" "length raw" 0]
  by (simp add: DecodeArray_def no_error_iff)

text \<open>
  A length field that points past the received bytes and their spare capacity makes \<open>DecodeArray\<close> panic,
  whatever the libraries do.
\<close>
theorem DecodeArray_overlong_panics:
  assumes "length bs + length spare < unat n"
  shows "DecodeArray L (PutUint32 n @ bs) spare = panic SliceBounds"
proof -
  have "ExtractLength ((PutUint32 n @ bs) @ spare) = ok n"
    by (simp add: ExtractLength_def go_slice_def)
  moreover have "go_slice ((PutUint32 n @ bs) @ spare) 4 (4 + unat n) = panic SliceBounds"
    by (rule go_slice_panic) (use assms in simp)
  ultimately show ?thesis
    by (simp add: DecodeArray_def decode_from.simps [of L _ _ 0])
qed

lemma DecodeArray_overlong_panics_witness:
  "DecodeArray toy_net (PutUint32 9 @ [1]) [0, 0, 0, 0] = panic SliceBounds"
  by (rule DecodeArray_overlong_panics) simp

end
