(* ===== verification/Utils_Queue.thy ===== *)
theory Utils_Queue
  imports Prelude
begin

text \<open>
  \<^verbatim>\<open>utils/message_queue.go\<close>, \<^verbatim>\<open>utils/spam_queue.go\<close> and \<^verbatim>\<open>utils/utilities.go\<close>: message
  envelopes, random identifiers, and the two mutex-protected queues over \<open>container/list\<close>.
  A queue operation holds the mutex from its first to its last statement, so it is one atomic
  function here; \<open>DequeueOrWait\<close> releases it only while it waits for an element.
\<close>

section \<open>Random identifiers\<close>

text \<open>
  \<open>GetRandomBytes\<close> reseeds the generator with the clock before it reads. The generator of
  \<open>math/rand\<close> is the parameter \<open>prng\<close>: the bytes it yields after a given seed.
\<close>

definition GetRandomBytes :: "(int \<Rightarrow> nat \<Rightarrow> byte) \<Rightarrow> int \<Rightarrow> nat \<Rightarrow> bytes" where
  "GetRandomBytes prng now len = map (prng now) [0..<len]"

definition GetRandomUInt64 :: "(int \<Rightarrow> nat \<Rightarrow> byte) \<Rightarrow> int \<Rightarrow> u64" where
  "GetRandomUInt64 prng now =
     (case Uint64 (GetRandomBytes prng now 8) of Inr v \<Rightarrow> v | Inl _ \<Rightarrow> 0)"

definition GetRandomUInt32 :: "(int \<Rightarrow> nat \<Rightarrow> byte) \<Rightarrow> int \<Rightarrow> u32" where
  "GetRandomUInt32 prng now =
     (case Uint32 (GetRandomBytes prng now 4) of Inr v \<Rightarrow> v | Inl _ \<Rightarrow> 0)"

lemma GetRandomUInt64_ok: "Uint64 (GetRandomBytes prng now 8) = ok (GetRandomUInt64 prng now)"
  by (simp add: GetRandomUInt64_def GetRandomBytes_def upt_conv_Cons)

lemma GetRandomUInt32_ok: "Uint32 (GetRandomBytes prng now 4) = ok (GetRandomUInt32 prng now)"
  by (simp add: GetRandomUInt32_def GetRandomBytes_def upt_conv_Cons)

section \<open>Envelopes\<close>

text \<open>
  \<open>MessageKind\<close> is a byte with three named values. \<open>env_data\<close> is \<open>None\<close> for a nil slice, which
  the send loop takes as the request to end.
\<close>

type_synonym message_kind = byte

definition KMessage :: message_kind where "KMessage = 0"
definition KConsensus :: message_kind where "KConsensus = 1"
definition KConfirmReply :: message_kind where "KConfirmReply = 2"

lemma kinds_distinct [simp]:
  "KMessage \<noteq> KConsensus" "KMessage \<noteq> KConfirmReply" "KConsensus \<noteq> KConfirmReply"
  "KConsensus \<noteq> KMessage" "KConfirmReply \<noteq> KMessage" "KConfirmReply \<noteq> KConsensus"
  by (simp_all add: KMessage_def KConsensus_def KConfirmReply_def)

record message_envelop =
  env_kind :: message_kind
  env_msgId :: u64
  env_data :: "bytes option"

definition NewEnvelopWithId :: "bytes option \<Rightarrow> message_kind \<Rightarrow> u64 \<Rightarrow> message_envelop" where
  "NewEnvelopWithId data kind msgId = \<lparr>env_kind = kind, env_msgId = msgId, env_data = data\<rparr>"

definition NewEnvelop ::
    "(int \<Rightarrow> nat \<Rightarrow> byte) \<Rightarrow> int \<Rightarrow> bytes option \<Rightarrow> message_kind \<Rightarrow> message_envelop" where
  "NewEnvelop prng now data kind =
     \<lparr>env_kind = kind, env_msgId = GetRandomUInt64 prng now, env_data = data\<rparr>"

lemma NewEnvelopWithId_fields [simp]:
  "env_kind (NewEnvelopWithId d k i) = k"
  "env_msgId (NewEnvelopWithId d k i) = i"
  "env_data (NewEnvelopWithId d k i) = d"
  by (simp_all add: NewEnvelopWithId_def)

lemma NewEnvelop_fields [simp]:
  "env_kind (NewEnvelop prng now d k) = k"
  "env_msgId (NewEnvelop prng now d k) = GetRandomUInt64 prng now"
  "env_data (NewEnvelop prng now d k) = d"
  by (simp_all add: NewEnvelop_def)

section \<open>The lists\<close>

text \<open>
  \<open>container/list\<close> holds values of type \<open>interface{}\<close>; a type assertion on one can fail. These
  are the two dynamic types the program stores.
\<close>

datatype list_value = VEnvelop message_envelop | VUint64 u64

record message_queue = mq_list :: "list_value list"
record spam_queue = sq_list :: "list_value list"

definition NewMessageQueue :: message_queue where
  "NewMessageQueue = \<lparr>mq_list = []\<rparr>"

definition NewSpamQueue :: spam_queue where
  "NewSpamQueue = \<lparr>sq_list = []\<rparr>"

subsection \<open>Message queue\<close>

definition MQ_Enqueue :: "message_envelop \<Rightarrow> message_queue \<Rightarrow> message_queue" where
  "MQ_Enqueue value c = c\<lparr>mq_list := mq_list c @ [VEnvelop value]\<rparr>"

text \<open>\<open>Dequeue\<close> removes the front but answers with the error whether or not there was one.\<close>

definition MQ_Dequeue :: "message_queue \<Rightarrow> message_queue \<times> go_error option" where
  "MQ_Dequeue c =
     ((if length (mq_list c) > 0 then c\<lparr>mq_list := tl (mq_list c)\<rparr> else c),
      Some (ErrText ''Pop Error: Queue is empty''))"

definition MQ_Front ::
    "(int \<Rightarrow> nat \<Rightarrow> byte) \<Rightarrow> int \<Rightarrow> message_queue \<Rightarrow> message_envelop \<times> go_error option" where
  "MQ_Front prng now c =
     (case mq_list c of
        VEnvelop v # _ \<Rightarrow> (v, None)
      | VUint64 _ # _ \<Rightarrow>
          (NewEnvelop prng now None KMessage, Some (ErrText ''Peek Error: Queue Datatype is incorrect''))
      | [] \<Rightarrow> (NewEnvelop prng now None KMessage, Some (ErrText ''Peek Error: Queue is empty'')))"

definition MQ_GetLen :: "message_queue \<Rightarrow> nat" where
  "MQ_GetLen c = length (mq_list c)"

definition MQ_Empty :: "message_queue \<Rightarrow> bool" where
  "MQ_Empty c \<longleftrightarrow> length (mq_list c) = 0"

definition MQ_Clear :: "message_queue \<Rightarrow> message_queue" where
  "MQ_Clear c = c\<lparr>mq_list := []\<rparr>"

text \<open>
  \<open>DequeueOrWait\<close>: \<open>None\<close> while the caller is blocked on the condition variable (the queue is
  empty), else what it returns. The unchecked type assertion panics on another dynamic type.
\<close>

definition MQ_DequeueOrWait ::
    "message_queue \<Rightarrow> (message_queue \<times> message_envelop \<times> go_error option) go option" where
  "MQ_DequeueOrWait c =
     (case mq_list c of
        [] \<Rightarrow> None
      | VUint64 _ # _ \<Rightarrow> Some (panic (PanicWith ''interface conversion''))
      | VEnvelop res # rest \<Rightarrow>
          Some (ok (c\<lparr>mq_list := rest\<rparr>, res,
            (if env_data res = None
             then Some (ErrText ''Peek Error: Queue Datatype is incorrect'') else None))))"

subsection \<open>Spam queue\<close>

definition SQ_Enqueue :: "u64 \<Rightarrow> spam_queue \<Rightarrow> spam_queue" where
  "SQ_Enqueue value c = c\<lparr>sq_list := sq_list c @ [VUint64 value]\<rparr>"

definition SQ_Dequeue :: "spam_queue \<Rightarrow> (spam_queue \<times> u64) go" where
  "SQ_Dequeue c =
     (case sq_list c of
        VUint64 v # rest \<Rightarrow> ok (c\<lparr>sq_list := rest\<rparr>, v)
      | VEnvelop _ # _ \<Rightarrow> panic (PanicWith ''interface conversion'')
      | [] \<Rightarrow> fail (ErrText ''Pop Error: Queue is empty''))"

definition SQ_Front :: "spam_queue \<Rightarrow> u64 go" where
  "SQ_Front c =
     (case sq_list c of
        VUint64 v # _ \<Rightarrow> ok v
      | VEnvelop _ # _ \<Rightarrow> fail (ErrText ''Peek Error: Queue Datatype is incorrect'')
      | [] \<Rightarrow> fail (ErrText ''Peek Error: Queue is empty''))"

definition SQ_GetLen :: "spam_queue \<Rightarrow> nat" where
  "SQ_GetLen c = length (sq_list c)"

definition SQ_Empty :: "spam_queue \<Rightarrow> bool" where
  "SQ_Empty c \<longleftrightarrow> length (sq_list c) = 0"

definition SQ_Clear :: "spam_queue \<Rightarrow> spam_queue" where
  "SQ_Clear c = c\<lparr>sq_list := []\<rparr>"

section \<open>Both queues are FIFO containers\<close>

text \<open>
  Only envelopes enter a message queue and only identifiers a spam queue: the invariant under
  which no type assertion fails.
\<close>

definition mq_typed :: "message_queue \<Rightarrow> bool" where
  "mq_typed c \<longleftrightarrow> (\<forall>v \<in> set (mq_list c). \<exists>e. v = VEnvelop e)"

definition mq_contents :: "message_queue \<Rightarrow> message_envelop list" where
  "mq_contents c = concat (map (\<lambda>v. case v of VEnvelop e \<Rightarrow> [e] | VUint64 _ \<Rightarrow> []) (mq_list c))"

definition mq_take :: "message_queue \<Rightarrow> (message_envelop \<times> message_queue) option" where
  "mq_take c = (case MQ_DequeueOrWait c of Some (Inr (c', e, _)) \<Rightarrow> Some (e, c') | _ \<Rightarrow> None)"

definition sq_typed :: "spam_queue \<Rightarrow> bool" where
  "sq_typed c \<longleftrightarrow> (\<forall>v \<in> set (sq_list c). \<exists>i. v = VUint64 i)"

definition sq_contents :: "spam_queue \<Rightarrow> u64 list" where
  "sq_contents c = concat (map (\<lambda>v. case v of VUint64 i \<Rightarrow> [i] | VEnvelop _ \<Rightarrow> []) (sq_list c))"

definition sq_take :: "spam_queue \<Rightarrow> (u64 \<times> spam_queue) option" where
  "sq_take c = (case SQ_Dequeue c of Inr (c', v) \<Rightarrow> Some (v, c') | _ \<Rightarrow> None)"

lemma length_mq_contents: "mq_typed c \<Longrightarrow> length (mq_contents c) = length (mq_list c)"
proof -
  have "\<forall>v \<in> set xs. \<exists>e. v = VEnvelop e \<Longrightarrow>
      length (concat (map (\<lambda>v. case v of VEnvelop e \<Rightarrow> [e] | VUint64 _ \<Rightarrow> []) xs)) = length xs" for xs
    by (induction xs) auto
  then show "mq_typed c \<Longrightarrow> ?thesis" by (simp add: mq_typed_def mq_contents_def)
qed

lemma length_sq_contents: "sq_typed c \<Longrightarrow> length (sq_contents c) = length (sq_list c)"
proof -
  have "\<forall>v \<in> set xs. \<exists>i. v = VUint64 i \<Longrightarrow>
      length (concat (map (\<lambda>v. case v of VUint64 i \<Rightarrow> [i] | VEnvelop _ \<Rightarrow> []) xs)) = length xs" for xs
    by (induction xs) auto
  then show "sq_typed c \<Longrightarrow> ?thesis" by (simp add: sq_typed_def sq_contents_def)
qed

interpretation mq: fifo_queue NewMessageQueue MQ_Enqueue mq_take MQ_Clear MQ_GetLen mq_contents mq_typed
proof (unfold_locales, goal_cases)
  case (2 q x) then show ?case by (auto simp: mq_typed_def MQ_Enqueue_def)
next
  case (3 q x q')
  then show ?case
    by (auto simp: mq_typed_def mq_take_def MQ_DequeueOrWait_def split: list.splits list_value.splits)
next
  case (7 q) then show ?case
    by (auto simp: mq_typed_def mq_take_def MQ_DequeueOrWait_def mq_contents_def
             split: list.splits list_value.splits)
next
  case (8 q x q') then show ?case
    by (auto simp: mq_take_def MQ_DequeueOrWait_def mq_contents_def split: list.splits list_value.splits)
next
  case (10 q) then show ?case by (simp add: MQ_GetLen_def length_mq_contents)
qed (simp_all add: mq_typed_def mq_contents_def NewMessageQueue_def MQ_Clear_def MQ_Enqueue_def)

interpretation sq: fifo_queue NewSpamQueue SQ_Enqueue sq_take SQ_Clear SQ_GetLen sq_contents sq_typed
proof (unfold_locales, goal_cases)
  case (2 q x) then show ?case by (auto simp: sq_typed_def SQ_Enqueue_def)
next
  case (3 q x q')
  then show ?case
    by (auto simp: sq_typed_def sq_take_def SQ_Dequeue_def split: list.splits list_value.splits)
next
  case (7 q) then show ?case
    by (auto simp: sq_typed_def sq_take_def SQ_Dequeue_def sq_contents_def
             split: list.splits list_value.splits)
next
  case (8 q x q') then show ?case
    by (auto simp: sq_take_def SQ_Dequeue_def sq_contents_def split: list.splits list_value.splits)
next
  case (10 q) then show ?case by (simp add: SQ_GetLen_def length_sq_contents)
qed (simp_all add: sq_typed_def sq_contents_def NewSpamQueue_def SQ_Clear_def SQ_Enqueue_def)

section \<open>What the queues promise\<close>

lemma DequeueOrWait_typed:
  assumes "mq_typed c"
  shows "MQ_DequeueOrWait c =
    (case mq_contents c of
       [] \<Rightarrow> None
     | e # es \<Rightarrow> Some (ok (\<lparr>mq_list = map VEnvelop es\<rparr>, e,
         (if env_data e = None then Some (ErrText ''Peek Error: Queue Datatype is incorrect'') else None))))"
proof -
  have rest: "xs = map VEnvelop (concat (map (\<lambda>v. case v of VEnvelop e \<Rightarrow> [e] | VUint64 _ \<Rightarrow> []) xs))"
    if "\<forall>v \<in> set xs. \<exists>e. v = VEnvelop e" for xs
    using that by (induction xs) auto
  show ?thesis
    using assms rest
    by (cases "mq_list c")
       (auto simp: MQ_DequeueOrWait_def mq_contents_def mq_typed_def intro!: message_queue.equality)
qed

text \<open>
  The message queue is first in, first out through \<open>DequeueOrWait\<close>: after \<open>es\<close> were enqueued into an empty queue,
  that many calls return exactly \<open>es\<close> and never block, the length counts what is inside, and
  \<open>Clear\<close> empties it; \<open>Dequeue\<close> removes the front as well but reports the error of an empty queue
  even then.
\<close>
theorem queue_is_fifo:
  "let q = fold MQ_Enqueue es NewMessageQueue in
    fst (drain mq_take (length es) q) = es \<and> MQ_GetLen q = length es \<and>
    mq_contents (MQ_Clear q) = [] \<and>
    (\<forall>e es'. es = e # es' \<longrightarrow> mq_list (fst (MQ_Dequeue q)) = map VEnvelop es' \<and>
       snd (MQ_Dequeue q) = Some (ErrText ''Pop Error: Queue is empty''))"
proof -
  let ?q = "fold MQ_Enqueue es NewMessageQueue"
  have inv: "mq_typed ?q" by (rule mq.invar_enq_all [OF mq.invar_empty])
  have con: "mq_contents ?q = es"
    by (simp add: mq.contents_enq_all [OF mq.invar_empty] mq.contents_empty)
  have lst: "mq_list (fold MQ_Enqueue xs c) = mq_list c @ map VEnvelop xs" for xs c
    by (induction xs arbitrary: c) (simp_all add: MQ_Enqueue_def)
  have "fst (drain mq_take (length es) ?q) = es"
    by (rule mq.fifo_order [OF mq.invar_empty mq.contents_empty])
  moreover have "mq_list (fst (MQ_Dequeue ?q)) = map VEnvelop es'" if "es = e # es'" for e es'
    using that lst [of es NewMessageQueue] by (simp add: MQ_Dequeue_def NewMessageQueue_def)
  ultimately show ?thesis
    using mq.size_contents [OF inv] mq.contents_clear [OF inv] con
    by (simp add: Let_def) (simp add: MQ_Dequeue_def)
qed

lemma queue_is_fifo_witness:
  "fst (drain mq_take 2 (fold MQ_Enqueue [NewEnvelopWithId (Some [1]) KMessage 1, NewEnvelopWithId None KMessage 2]
     NewMessageQueue)) = [NewEnvelopWithId (Some [1]) KMessage 1, NewEnvelopWithId None KMessage 2]"
  using queue_is_fifo [of "[NewEnvelopWithId (Some [1]) KMessage 1, NewEnvelopWithId None KMessage 2]"]
  by (simp add: numeral_2_eq_2 Let_def)

end
