(* ===== verification/Throughput.thy ===== *)
theory Throughput
  imports Prelude
begin

text \<open>
  \<^verbatim>\<open>throughput/calculator.go\<close>: measurements are summed until more than \<open>threshold\<close> has passed
  since the last reset, then reported. The sum's type is a parameter with an addition and a zero
  (the code's is \<open>float64\<close>), so nothing below assumes that the addition is associative.
\<close>

text \<open>A \<open>time.Time\<close> in nanoseconds; \<open>Sub\<close> saturates at the range of a 64-bit duration.\<close>

definition time_sub :: "int \<Rightarrow> int \<Rightarrow> int" where
  "time_sub t u = min (2 ^ 63 - 1) (max (- (2 ^ 63)) (t - u))"

record 'f calculator =
  lastReset :: int
  threshold :: int
  measurements :: "32 word"
  calc_sum :: 'f

type_synonym 'f report = "'f \<times> 32 word \<times> int"

definition Calculator_New :: "int \<Rightarrow> int \<Rightarrow> ('f::zero) calculator" where
  "Calculator_New now thr = \<lparr>lastReset = now, threshold = thr, measurements = 0, calc_sum = 0\<rparr>"

definition Calculator_reset :: "int \<Rightarrow> ('f::zero) calculator \<Rightarrow> 'f report \<times> 'f calculator" where
  "Calculator_reset now c =
     ((calc_sum c, measurements c, time_sub now (lastReset c)),
      c\<lparr>calc_sum := 0, measurements := 0, lastReset := now\<rparr>)"

text \<open>\<open>AddMeasurement\<close> at time \<open>t\<close>: the new calculator and what it reported, if anything.\<close>

definition AddMeasurement ::
    "('f::{zero,plus}) \<Rightarrow> int \<Rightarrow> 'f calculator \<Rightarrow> 'f calculator \<times> 'f report option" where
  "AddMeasurement m t c =
     (let c1 = c\<lparr>calc_sum := calc_sum c + m, measurements := measurements c + 1\<rparr> in
      if time_sub t (lastReset c1) > threshold c1
      then (case Calculator_reset t c1 of (out, c2) \<Rightarrow> (c2, Some out))
      else (c1, None))"

definition calc_step ::
    "('f::{zero,plus}) calculator \<Rightarrow> 'f \<times> int \<Rightarrow> 'f calculator \<times> 'f report option" where
  "calc_step c e = AddMeasurement (fst e) (snd e) c"

text \<open>What one interval of measurements adds up to, from the left, and how many there are.\<close>

definition interval_sum :: "('f::{zero,plus}) list \<Rightarrow> 'f" where
  "interval_sum ms = foldl (+) 0 ms"

definition reports_of :: "'f report option list \<Rightarrow> 'f report list" where
  "reports_of os = concat (map (\<lambda>x. case x of None \<Rightarrow> [] | Some r \<Rightarrow> [r]) os)"

lemma reports_of_simps [simp]:
  "reports_of [] = []"
  "reports_of (None # os) = reports_of os"
  "reports_of (Some r # os) = r # reports_of os"
  by (simp_all add: reports_of_def)

text \<open>The calculator holds exactly the measurements of the open interval.\<close>

definition open_interval :: "('f::{zero,plus}) calculator \<Rightarrow> 'f list \<Rightarrow> bool" where
  "open_interval c ms \<longleftrightarrow> calc_sum c = interval_sum ms \<and> measurements c = of_nat (length ms)"

lemma open_interval_step:
  assumes "open_interval c ms"
  shows "case calc_step c (m, t) of
      (c', None) \<Rightarrow> open_interval c' (ms @ [m]) \<and> lastReset c' = lastReset c
    | (c', Some (s, n, d)) \<Rightarrow> open_interval c' [] \<and> s = interval_sum (ms @ [m]) \<and>
        n = of_nat (Suc (length ms)) \<and> d = time_sub t (lastReset c) \<and> lastReset c' = t \<and> d > threshold c"
  using assms
  by (auto simp: calc_step_def AddMeasurement_def Calculator_reset_def open_interval_def interval_sum_def
                 Let_def add.commute)

lemma run_open_interval:
  assumes "open_interval c ms"
  shows "\<exists>segs rest. ms @ map fst es = concat segs @ rest \<and>
    list_all2 (\<lambda>r seg. fst r = interval_sum seg \<and> fst (snd r) = of_nat (length seg))
      (reports_of (snd (run calc_step c es))) segs \<and>
    open_interval (fst (run calc_step c es)) rest"
  using assms
proof (induction es arbitrary: c ms)
  case Nil
  then show ?case by (intro exI [of _ "[]"] exI [of _ ms]) simp
next
  case (Cons e es)
  obtain m t where e: "e = (m, t)" by (cases e)
  obtain c' out where st: "calc_step c e = (c', out)" by (cases "calc_step c e")
  note step = open_interval_step [OF Cons.prems, of m t, folded e, unfolded st]
  show ?case
  proof (cases out)
    case None
    with step have "open_interval c' (ms @ [m])" by simp
    from Cons.IH [OF this] show ?thesis using st None e by (simp add: run_Cons)
  next
    case (Some r)
    obtain s n d where r: "r = (s, n, d)" by (cases r)
    with step Some have o: "open_interval c' []" "s = interval_sum (ms @ [m])"
      "n = of_nat (Suc (length ms))" by simp_all
    from Cons.IH [OF o(1)] obtain segs rest where
      "map fst es = concat segs @ rest"
      "list_all2 (\<lambda>r seg. fst r = interval_sum seg \<and> fst (snd r) = of_nat (length seg))
        (reports_of (snd (run calc_step c' es))) segs"
      "open_interval (fst (run calc_step c' es)) rest" by auto
    then show ?thesis
      using o r st Some e
      by (intro exI [of _ "(ms @ [m]) # segs"] exI [of _ rest]) (simp add: run_Cons)
  qed
qed

text \<open>
  No measurement is lost or counted twice: the measurements fall into consecutive intervals, each report
  is the left-to-right sum and the 32-bit count of one interval in order, and the calculator
  holds the sum and count of the interval still open.
\<close>
theorem reports_partition_measurements:
  "\<exists>segs rest. map fst es = concat segs @ rest \<and>
    list_all2 (\<lambda>r seg. fst r = interval_sum seg \<and> fst (snd r) = of_nat (length seg))
      (reports_of (snd (run calc_step (Calculator_New now thr) es))) segs \<and>
    open_interval (fst (run calc_step (Calculator_New now thr) es)) rest"
  using run_open_interval [of "Calculator_New now thr" "[]" es]
  by (simp add: open_interval_def Calculator_New_def interval_sum_def)

end
