(* ===== verification/Connection_State.thy ===== *)
theory Connection_State
  imports Metadata Utils_Queue Throughput
begin

text \<open>
  The state of one \<open>Connection\<close> (\<^verbatim>\<open>peer_service/connection/connection.go\<close>), its constructors, its
  status and stream bookkeeping, and the confirmation and ban flags. Each method is one function
  from the state to the new state and the actions it performs on the outside, in order: callbacks
  of the peer service, resets and writes on streams, goroutines it starts.
\<close>

section \<open>Status\<close>

datatype status = NotConnected | JustConnected | HandshakeComplete | Terminated

text \<open>The \<open>iota\<close> constants, and the order they give.\<close>

primrec status_code :: "status \<Rightarrow> nat" where
  "status_code NotConnected = 0"
| "status_code JustConnected = 1"
| "status_code HandshakeComplete = 2"
| "status_code Terminated = 3"

instantiation status :: linorder
begin

definition less_eq_status :: "status \<Rightarrow> status \<Rightarrow> bool" where
  "less_eq_status a b \<longleftrightarrow> status_code a \<le> status_code b"

definition less_status :: "status \<Rightarrow> status \<Rightarrow> bool" where
  "less_status a b \<longleftrightarrow> status_code a < status_code b"

instance
proof
  fix x y z :: status
  show "x < y \<longleftrightarrow> x \<le> y \<and> \<not> y \<le> x" by (auto simp: less_eq_status_def less_status_def)
  show "x \<le> x" by (simp add: less_eq_status_def)
  show "x \<le> y \<Longrightarrow> y \<le> z \<Longrightarrow> x \<le> z" by (simp add: less_eq_status_def)
  show "x \<le> y \<Longrightarrow> y \<le> x \<Longrightarrow> x = y" by (cases x; cases y) (simp_all add: less_eq_status_def)
  show "x \<le> y \<or> y \<le> x" by (auto simp: less_eq_status_def)
qed

end

section \<open>The record\<close>

text \<open>A \<open>network.Stream\<close>: its identity and what \<open>Conn()\<close> says about the other end.\<close>

record net_stream =
  str_id :: nat
  str_peer :: peer_id
  str_addr :: "multiaddr option"

record connection =
  PeerId :: peer_id
  PeerAddress :: "multiaddr option"
  PeerPublicKey :: string
  PeerProtocol :: string
  myAddress :: "multiaddr option"
  signature :: "bytes option"
  signatureSent :: bool
  messageQueue :: message_queue
  receivedMsgId :: spam_queue
  msgSpamCount :: "u64 \<rightharpoonup> u32"
  confirmReceived :: "u64 \<rightharpoonup> bool"
  inboundStream :: "net_stream option"
  outboundStream :: "net_stream option"
  status :: status
  lifecycleFinished :: bool
  sendCycleFinished :: bool
  peerCycleFinished :: bool
  isBanned :: bool
  UniqId :: u32

text \<open>
  What a method does outside its own fields. \<open>InboundTPS n\<close> and \<open>OutboundTPS n\<close> are the calls
  \<open>AddMeasurement(n)\<close> of the two calculators (theory \<open>Throughput\<close>), whose reports are ignored.
\<close>

datatype action =
    OnMessage bytes
  | OnPeerListUpdate "metadata list"
  | OnPublicKeyRecovered string
  | ResetStream net_stream
  | WriteFrame net_stream message_frame
  | InboundTPS nat
  | OutboundTPS nat
  | StartReceiveCycle
  | StartSendCycle
  | StartPeersCycle
  | StartSendSignature

section \<open>Construction\<close>

definition conn_init ::
    "peer_id \<Rightarrow> string \<Rightarrow> multiaddr option \<Rightarrow> u32 \<Rightarrow> connection" where
  "conn_init pid protocol myAddr uniqId =
     \<lparr>PeerId = pid, PeerAddress = None, PeerPublicKey = [], PeerProtocol = protocol,
      myAddress = myAddr, signature = None, signatureSent = False,
      messageQueue = NewMessageQueue, receivedMsgId = NewSpamQueue,
      msgSpamCount = Map.empty, confirmReceived = Map.empty,
      inboundStream = None, outboundStream = None, status = NotConnected,
      lifecycleFinished = False, sendCycleFinished = False, peerCycleFinished = False,
      isBanned = False, UniqId = uniqId\<rparr>"

lemma conn_init_fields [simp]:
  "PeerId (conn_init pid protocol myAddr uniqId) = pid"
  "PeerPublicKey (conn_init pid protocol myAddr uniqId) = []"
  "isBanned (conn_init pid protocol myAddr uniqId) = False"
  "UniqId (conn_init pid protocol myAddr uniqId) = uniqId"
  "status (conn_init pid protocol myAddr uniqId) = NotConnected"
  "messageQueue (conn_init pid protocol myAddr uniqId) = NewMessageQueue"
  "receivedMsgId (conn_init pid protocol myAddr uniqId) = NewSpamQueue"
  "msgSpamCount (conn_init pid protocol myAddr uniqId) = Map.empty"
  by (simp_all add: conn_init_def)

definition SetSignature_conn :: "bytes option \<Rightarrow> connection \<Rightarrow> connection \<times> action list" where
  "SetSignature_conn sig c =
     (if signatureSent c then (c\<lparr>signature := sig\<rparr>, [])
      else (c\<lparr>signature := sig, signatureSent := True\<rparr>, [StartSendSignature]))"

text \<open>
  \<open>New\<close> formats \<open>peerAddress.String()\<close> for its log line before anything else: with a nil address
  that is a nil dereference.
\<close>

definition Connection_New ::
    "peer_id \<Rightarrow> string \<Rightarrow> multiaddr option \<Rightarrow> multiaddr option \<Rightarrow> bytes option \<Rightarrow> u32 \<Rightarrow>
     (connection \<times> action list) go" where
  "Connection_New pid protocol myAddr peerAddress sig uniqId =
     (case peerAddress of
        None \<Rightarrow> panic NilDeref
      | Some _ \<Rightarrow>
          let c = (conn_init pid protocol myAddr uniqId)\<lparr>PeerAddress := peerAddress\<rparr>;
              started = [StartReceiveCycle, StartSendCycle, StartPeersCycle]
          in if sig \<noteq> None
             then (case SetSignature_conn sig c of (c', acts) \<Rightarrow> ok (c', started @ acts))
             else ok (c, started))"

definition Connection_FromStream ::
    "net_stream \<Rightarrow> multiaddr option \<Rightarrow> bytes option \<Rightarrow> string \<Rightarrow> u32 \<Rightarrow> connection \<times> action list" where
  "Connection_FromStream stream myAddr sig protocol uniqId =
     (let c = (conn_init (str_peer stream) protocol myAddr uniqId)
                \<lparr>PeerAddress := str_addr stream, inboundStream := Some stream\<rparr>;
          started = [StartReceiveCycle, StartSendCycle, StartPeersCycle]
      in if sig \<noteq> None
         then (case SetSignature_conn sig c of (c', acts) \<Rightarrow> (c', acts @ started))
         else (c, started))"

section \<open>Small operations\<close>

definition SetPeerAddress :: "multiaddr option \<Rightarrow> connection \<Rightarrow> connection" where
  "SetPeerAddress address c = c\<lparr>PeerAddress := address\<rparr>"

definition IsActive :: "connection \<Rightarrow> bool" where
  "IsActive c \<longleftrightarrow> status c \<noteq> Terminated \<and> status c \<noteq> NotConnected \<and>
     (inboundStream c \<noteq> None \<or> outboundStream c \<noteq> None)"

definition BanPeer_conn :: "connection \<Rightarrow> connection" where
  "BanPeer_conn c = c\<lparr>isBanned := True\<rparr>"

definition RemoveFromBanList_conn :: "connection \<Rightarrow> connection" where
  "RemoveFromBanList_conn c = c\<lparr>isBanned := False\<rparr>"

definition addToQueue :: "message_envelop \<Rightarrow> connection \<Rightarrow> connection" where
  "addToQueue msg c = c\<lparr>messageQueue := MQ_Enqueue msg (messageQueue c)\<rparr>"

definition Send :: "message_envelop \<Rightarrow> connection \<Rightarrow> connection" where
  "Send msg c =
     (if env_data msg = None then c
      else if isBanned c then c
      else addToQueue msg c)"

text \<open>\<open>status.CAS(old, new)\<close>\<close>

definition cas_status :: "status \<Rightarrow> status \<Rightarrow> connection \<Rightarrow> connection" where
  "cas_status old new c = (if status c = old then c\<lparr>status := new\<rparr> else c)"

definition resetInboundStream :: "connection \<Rightarrow> connection \<times> action list" where
  "resetInboundStream c =
     (case inboundStream c of
        None \<Rightarrow> (c, [])
      | Some s \<Rightarrow> (c\<lparr>inboundStream := None\<rparr>, [ResetStream s]))"

definition resetOutboundStream :: "connection \<Rightarrow> connection \<times> action list" where
  "resetOutboundStream c =
     (case outboundStream c of
        None \<Rightarrow> (c, [])
      | Some s \<Rightarrow> (c\<lparr>outboundStream := None\<rparr>, [ResetStream s]))"

definition SetInboundStream :: "net_stream \<Rightarrow> connection \<Rightarrow> connection \<times> action list" where
  "SetInboundStream stream c =
     (if status c = Terminated then (c, [])
      else
        (cas_status HandshakeComplete JustConnected
           (cas_status NotConnected JustConnected
             (c\<lparr>inboundStream := Some stream, signatureSent := False\<rparr>)),
         (case inboundStream c of None \<Rightarrow> [] | Some s \<Rightarrow> [ResetStream s])))"

text \<open>
  \<open>Terminate\<close> up to the point where it waits for the cycles to end; closing \<open>peerCycleFinished\<close>
  after the two waits is \<open>Terminate_end\<close>.
\<close>

definition Terminate :: "u64 \<Rightarrow> connection \<Rightarrow> connection \<times> action list" where
  "Terminate rndId c =
     (let c1 = c\<lparr>status := Terminated\<rparr>;
          c2 = c1\<lparr>messageQueue := MQ_Enqueue \<lparr>env_kind = KMessage, env_msgId = rndId, env_data = None\<rparr>
                                   (messageQueue c1)\<rparr>
      in case resetInboundStream c2 of (c3, a1) \<Rightarrow>
         case resetOutboundStream c3 of (c4, a2) \<Rightarrow> (c4, a1 @ a2))"

definition Terminate_end :: "connection \<Rightarrow> connection option" where
  "Terminate_end c =
     (if lifecycleFinished c \<and> sendCycleFinished c then Some (c\<lparr>peerCycleFinished := True\<rparr>) else None)"

section \<open>Confirmations\<close>

definition confirmationReceived :: "u64 \<Rightarrow> connection \<Rightarrow> connection" where
  "confirmationReceived msgId c =
     (case confirmReceived c msgId of
        None \<Rightarrow> c
      | Some _ \<Rightarrow> c\<lparr>confirmReceived := (confirmReceived c)(msgId \<mapsto> True)\<rparr>)"

text \<open>The value with Go's zero default and whether the key is present.\<close>

definition checkConfirmation :: "u64 \<Rightarrow> connection \<Rightarrow> bool \<times> bool" where
  "checkConfirmation msgId c =
     (case confirmReceived c msgId of None \<Rightarrow> (False, False) | Some b \<Rightarrow> (b, True))"

definition addMsgIdToConfirm :: "u64 \<Rightarrow> connection \<Rightarrow> connection" where
  "addMsgIdToConfirm msgId c = c\<lparr>confirmReceived := (confirmReceived c)(msgId \<mapsto> False)\<rparr>"

definition removeMsgIdFromConfirm :: "u64 \<Rightarrow> connection \<Rightarrow> connection" where
  "removeMsgIdFromConfirm msgId c = c\<lparr>confirmReceived := (confirmReceived c)(msgId := None)\<rparr>"

lemmas conn_defs =
  SetPeerAddress_def IsActive_def BanPeer_conn_def RemoveFromBanList_conn_def addToQueue_def Send_def
  cas_status_def resetInboundStream_def resetOutboundStream_def SetInboundStream_def
  confirmationReceived_def addMsgIdToConfirm_def removeMsgIdFromConfirm_def SetSignature_conn_def

end
