(* ===== verification/Connection_Spam.thy ===== *)
theory Connection_Spam
  imports Connection_State
begin

text \<open>
  Duplicate suppression of the receive cycle: the counter map and the bounded queue of message
  ids, refined to a window of the most recently accepted ids. Only the receive cycle touches
  these two fields, so no other thread interferes.
\<close>

definition SpamStoreThreshold :: nat where
  "SpamStoreThreshold = 10000"

definition spamCount :: "u64 \<Rightarrow> connection \<Rightarrow> u32" where
  "spamCount msgId c = (case msgSpamCount c msgId of None \<Rightarrow> 0 | Some count \<Rightarrow> count)"

definition removeMsgSpamCount :: "u64 \<Rightarrow> connection \<Rightarrow> connection" where
  "removeMsgSpamCount msgId c = c\<lparr>msgSpamCount := (msgSpamCount c)(msgId := None)\<rparr>"

text \<open>The 32-bit counter wraps.\<close>

definition increamentMsgSpamCount :: "u64 \<Rightarrow> connection \<Rightarrow> connection \<times> u32" where
  "increamentMsgSpamCount msgId c =
     (let count = (case msgSpamCount c msgId of None \<Rightarrow> 0 | Some n \<Rightarrow> n)
      in (c\<lparr>msgSpamCount := (msgSpamCount c)(msgId \<mapsto> count + 1)\<rparr>, count + 1))"

definition checkSpamQueueCapacity :: "connection \<Rightarrow> connection go" where
  "checkSpamQueueCapacity c =
     (if SQ_GetLen (receivedMsgId c) \<ge> SpamStoreThreshold then
        (case SQ_Dequeue (receivedMsgId c) of
           Inr (q, msgId) \<Rightarrow> ok (c\<lparr>receivedMsgId := q, msgSpamCount := (msgSpamCount c)(msgId := None)\<rparr>)
         | Inl (GoError _) \<Rightarrow> ok c
         | Inl (GoPanic p) \<Rightarrow> panic p)
      else ok c)"

text \<open>
  The part of the receive cycle that decides whether a frame is handled: count it; on the first
  sight remember its id and trim the memory, otherwise ignore the frame.
\<close>

definition spam_filter :: "u64 \<Rightarrow> connection \<Rightarrow> (connection \<times> bool) go" where
  "spam_filter msgId c =
     (case increamentMsgSpamCount msgId c of
        (c1, count) \<Rightarrow>
          if count = 1 then
            and_then (checkSpamQueueCapacity (c1\<lparr>receivedMsgId := SQ_Enqueue msgId (receivedMsgId c1)\<rparr>))
              (\<lambda>c2. ok (c2, True))
          else ok (c1, False))"

definition spam_step :: "connection \<Rightarrow> u64 \<Rightarrow> connection \<times> bool go" where
  "spam_step c msgId =
     (case spam_filter msgId c of Inl f \<Rightarrow> (c, Inl f) | Inr (c', accepted) \<Rightarrow> (c', ok accepted))"

section \<open>The specification: a window of accepted ids\<close>

definition window_step :: "'a list \<Rightarrow> 'a \<Rightarrow> 'a list \<times> bool go" where
  "window_step w i =
     (if i \<in> set w then (w, ok False)
      else ((if length w + 1 \<ge> SpamStoreThreshold then tl (w @ [i]) else w @ [i]), ok True))"

text \<open>
  After \<open>k\<close> frames: queue and map agree, no id is stored twice, the queue is below the threshold
  and no counter exceeds \<open>k\<close> (so none has wrapped while \<open>k\<close> is below the range of 32 bits).
\<close>

definition spam_inv :: "nat \<Rightarrow> connection \<Rightarrow> bool" where
  "spam_inv k c \<longleftrightarrow>
     sq_typed (receivedMsgId c) \<and>
     distinct (sq_contents (receivedMsgId c)) \<and>
     dom (msgSpamCount c) = set (sq_contents (receivedMsgId c)) \<and>
     length (sq_contents (receivedMsgId c)) < SpamStoreThreshold \<and>
     (\<forall>i n. msgSpamCount c i = Some n \<longrightarrow> 1 \<le> unat n \<and> unat n \<le> k)"

definition window_of :: "connection \<Rightarrow> u64 list" where
  "window_of c = sq_contents (receivedMsgId c)"

lemma SQ_Dequeue_typed:
  "sq_typed q \<Longrightarrow> sq_contents q = i # is \<Longrightarrow>
   \<exists>q'. SQ_Dequeue q = ok (q', i) \<and> sq_typed q' \<and> sq_contents q' = is"
  using sq.deq_None [of q] sq.deq_Some [of q] sq.invar_deq [of q]
  by (cases "sq_list q") (auto simp: SQ_Dequeue_def sq_typed_def sq_contents_def)

lemma count_no_wrap:
  fixes n :: u32
  assumes "1 \<le> unat n" and "unat n \<le> k" and "k < 2 ^ 32 - 1"
  shows "n + 1 \<noteq> 1" and "unat (n + 1) = Suc (unat n)"
proof -
  have "unat n + 1 < 2 ^ 32" using assms by simp
  then show u: "unat (n + 1) = Suc (unat n)" by (simp add: unat_word_ariths)
  from u assms(1) show "n + 1 \<noteq> 1" by auto
qed

lemma spam_step_refines:
  assumes "k < 2 ^ 32 - 1" and "spam_inv k c"
  shows "spam_inv (Suc k) (fst (spam_step c i)) \<and>
    window_step (window_of c) i = (window_of (fst (spam_step c i)), snd (spam_step c i))"
proof (cases "msgSpamCount c i")
  case (Some n)
  with assms have n: "1 \<le> unat n" "unat n \<le> k" "i \<in> set (window_of c)"
    by (auto simp: spam_inv_def window_of_def)
  note nw = count_no_wrap [OF n(1,2) assms(1)]
  have "spam_step c i = (c\<lparr>msgSpamCount := (msgSpamCount c)(i \<mapsto> n + 1)\<rparr>, ok False)"
    using nw(1) Some by (simp add: spam_step_def spam_filter_def increamentMsgSpamCount_def)
  then show ?thesis
    using assms(2) n nw(2) by (auto simp: spam_inv_def window_step_def window_of_def intro: le_SucI)
next
  case None
  with assms have i: "i \<notin> set (window_of c)"
    by (auto simp: spam_inv_def window_of_def)
  let ?q = "SQ_Enqueue i (receivedMsgId c)"
  have q: "sq_typed ?q" "sq_contents ?q = window_of c @ [i]"
    using assms(2) by (simp_all add: spam_inv_def window_of_def sq.invar_enq sq.contents_enq)
  have len: "SQ_GetLen ?q = length (window_of c) + 1" using q sq.size_contents [OF q(1)] by simp
  let ?c1 = "c\<lparr>msgSpamCount := (msgSpamCount c)(i \<mapsto> 1), receivedMsgId := ?q\<rparr>"
  show ?thesis
  proof (cases "SpamStoreThreshold \<le> length (window_of c) + 1")
    case False
    then have "spam_step c i = (?c1, ok True)"
      using None len
      by (simp add: spam_step_def spam_filter_def increamentMsgSpamCount_def checkSpamQueueCapacity_def)
    then show ?thesis
      using False assms(2) i q by (auto simp: spam_inv_def window_step_def window_of_def intro: le_SucI)
  next
    case True
    obtain j js where js: "window_of c @ [i] = j # js" by (cases "window_of c") auto
    from SQ_Dequeue_typed [OF q(1)] q(2) js obtain q' where q':
      "SQ_Dequeue ?q = ok (q', j)" "sq_typed q'" "sq_contents q' = js" by auto
    let ?c2 = "?c1\<lparr>receivedMsgId := q', msgSpamCount := (msgSpamCount ?c1)(j := None)\<rparr>"
    have st: "spam_step c i = (?c2, ok True)"
      using None len True q'
      by (simp add: spam_step_def spam_filter_def increamentMsgSpamCount_def checkSpamQueueCapacity_def)
    have dist: "distinct (j # js)"
      unfolding js [symmetric] using assms(2) i by (simp add: spam_inv_def window_of_def)
    have dm: "dom (msgSpamCount ?c2) = set js"
    proof -
      have "dom ((msgSpamCount c)(i \<mapsto> 1)) = set (window_of c @ [i])"
        using assms(2) by (simp add: spam_inv_def window_of_def)
      then show ?thesis using dist unfolding js by auto
    qed
    have "length js < SpamStoreThreshold"
      using js assms(2) by (auto simp: spam_inv_def window_of_def dest: arg_cong [of _ _ length])
    then show ?thesis
      using st True assms(2) i q' dist dm js
      by (auto simp: spam_inv_def window_step_def window_of_def intro: le_SucI)
  qed
qed

interpretation spam: budget_simulation spam_step spam_inv "2 ^ 32 - 1" window_step window_of
  by unfold_locales (use spam_step_refines in blast)+

section \<open>The window\<close>

definition fresh_flags :: "'a list \<Rightarrow> 'a list \<Rightarrow> bool list" where
  "fresh_flags w is = map (\<lambda>n. is ! n \<notin> set w \<and> is ! n \<notin> set (take n is)) [0..<length is]"

lemma fresh_flags_Cons:
  "fresh_flags w (i # is) = (i \<notin> set w) # fresh_flags (if i \<in> set w then w else w @ [i]) is"
  by (auto simp: fresh_flags_def upt_conv_Cons map_Suc_upt [symmetric] simp del: upt_Suc)

text \<open>While the ids seen fit below the threshold nothing is forgotten.\<close>

lemma window_no_eviction:
  "card (set w \<union> set is) < SpamStoreThreshold \<Longrightarrow> distinct w \<Longrightarrow>
   snd (run window_step w is) = map ok (fresh_flags w is)"
proof (induction "is" arbitrary: w)
  case (Cons i "is")
  let ?w = "if i \<in> set w then w else w @ [i]"
  have sub: "set ?w \<union> set is \<subseteq> set w \<union> set (i # is)" by auto
  then have "card (set ?w \<union> set is) \<le> card (set w \<union> set (i # is))" by (rule card_mono [rotated]) simp
  moreover have "length ?w \<le> card (set w \<union> set (i # is))"
  proof -
    have "length ?w = card (set ?w)" using Cons.prems(2) by (simp add: distinct_card)
    also have "\<dots> \<le> card (set w \<union> set (i # is))" by (rule card_mono) auto
    finally show ?thesis .
  qed
  ultimately have len: "length ?w < SpamStoreThreshold" "card (set ?w \<union> set is) < SpamStoreThreshold"
    using Cons.prems(1) by simp_all
  have st: "window_step w i = (?w, ok (i \<notin> set w))"
    using len(1) by (auto simp: window_step_def)
  have "snd (run window_step ?w is) = map ok (fresh_flags ?w is)"
    by (rule Cons.IH [OF len(2)]) (use Cons.prems(2) in auto)
  then show ?case by (simp only: run_Cons st fst_conv snd_conv fresh_flags_Cons list.map)
qed (simp add: fresh_flags_def)

text \<open>New ids push the oldest ones out.\<close>

lemma window_eviction:
  "distinct (w @ js) \<Longrightarrow> length w < SpamStoreThreshold \<Longrightarrow>
   fst (run window_step w js) = drop (length w + length js - (SpamStoreThreshold - 1)) (w @ js)"
proof (induction js arbitrary: w)
  case (Cons j js)
  let ?T = "SpamStoreThreshold"
  show ?case
  proof (cases "?T \<le> length w + 1")
    case True
    then have st: "window_step w j = (tl (w @ [j]), ok True)"
      using Cons.prems(1) by (simp add: window_step_def)
    have lw: "length w = ?T - 1" using True Cons.prems(2) by simp
    have pos: "0 < ?T" by (simp add: SpamStoreThreshold_def)
    have wj: "w @ [j] = hd (w @ [j]) # tl (w @ [j])" by (simp add: hd_append tl_append split: list.splits)
    have eq: "w @ j # js = hd (w @ [j]) # (tl (w @ [j]) @ js)"
      using wj by (metis append_Cons append_assoc append_Nil)
    have len: "length (tl (w @ [j])) = ?T - 1" using lw by simp
    have "fst (run window_step (tl (w @ [j])) js) =
        drop (length (tl (w @ [j])) + length js - (?T - 1)) (tl (w @ [j]) @ js)"
      by (rule Cons.IH) (use Cons.prems(1) len pos in \<open>auto simp: eq simp del: tl_append2\<close>)
    then show ?thesis
      unfolding run_Cons st fst_conv eq len lw by (simp add: lw)
  next
    case False
    then have st: "window_step w j = (w @ [j], ok True)"
      using Cons.prems(1) by (simp add: window_step_def)
    have "fst (run window_step (w @ [j]) js) =
        drop (length (w @ [j]) + length js - (?T - 1)) ((w @ [j]) @ js)"
      by (rule Cons.IH) (use Cons.prems(1) False in auto)
    then show ?thesis by (simp add: run_Cons st)
  qed
qed simp

lemma spam_inv_init: "spam_inv 0 (conn_init pid protocol myAddr uniqId)"
  using sq.invar_empty sq.contents_empty
  by (simp add: spam_inv_def conn_init_def SpamStoreThreshold_def)

lemma window_of_init: "window_of (conn_init pid protocol myAddr uniqId) = []"
  using sq.contents_empty by (simp add: window_of_def conn_init_def)

section \<open>Properties\<close>

text \<open>
  C15: as long as a new connection has received at most 9999 distinct message ids (in fewer than
  \<open>2 ^ 32\<close> frames), a frame is handled exactly when its id occurs for the first time: every message
  gets through once and every repetition is ignored.
\<close>
theorem frames_handled_exactly_once:
  assumes "length ids < 2 ^ 32" and "card (set ids) < SpamStoreThreshold"
  shows "snd (run spam_step (conn_init pid protocol myAddr uniqId) ids) = map ok (fresh_flags [] ids)"
proof -
  let ?c = "conn_init pid protocol myAddr uniqId"
  have "run window_step (window_of ?c) ids =
      (window_of (fst (run spam_step ?c ids)), snd (run spam_step ?c ids))"
    by (rule spam.run_abs [OF spam_inv_init]) (use assms(1) in simp)
  with window_no_eviction [of "[]" ids] assms(2) show ?thesis by (simp add: window_of_init)
qed

lemma frames_handled_exactly_once_witness:
  "snd (run spam_step (conn_init [1] ''p'' None 0) [7, 8, 7, 9, 8]) =
     map ok [True, True, False, True, False]"
proof -
  have "card (set [7, 8, 7, 9, 8 :: u64]) \<le> length [7, 8, 7, 9, 8 :: u64]" by (rule card_length)
  then have "card (set [7, 8, 7, 9, 8 :: u64]) < SpamStoreThreshold"
    by (simp add: SpamStoreThreshold_def)
  from frames_handled_exactly_once [OF _ this, of "[1]" "''p''" None 0]
  show ?thesis by (simp add: fresh_flags_def upt_conv_Cons take_Cons')
qed

text \<open>
  The memory is bounded and that has a price: once 9999 other new ids have been received after it, the
  connection has forgotten an id, and a replay of that frame is handled again.
\<close>
theorem replay_after_eviction:
  assumes "spam_inv k c" and "k + length js < 2 ^ 32 - 1"
    and "distinct js" and "set js \<inter> set (window_of c) = {}" and "i \<notin> set js"
    and "length js = SpamStoreThreshold - 1"
  shows "snd (spam_step (fst (run spam_step c js)) i) = ok True"
proof -
  let ?c = "fst (run spam_step c js)"
  have inv: "spam_inv (k + length js) ?c"
    using spam.run_inv [OF assms(1)] assms(2) by simp
  have dw: "distinct (window_of c @ js)" "length (window_of c) < SpamStoreThreshold"
    using assms by (auto simp: spam_inv_def window_of_def)
  have "run window_step (window_of c) js = (window_of ?c, snd (run spam_step c js))"
    by (rule spam.run_abs [OF assms(1)]) (use assms(2) in simp)
  with window_eviction [OF dw] assms(6) have "window_of ?c = js" by simp
  with spam.step_abs [OF assms(2) inv, of i] assms(5) show ?thesis
    by (auto simp: window_step_def split: if_splits)
qed

lemma replay_after_eviction_witness:
  "snd (spam_step (fst (run spam_step (conn_init [1] ''p'' None 0) (map of_nat [1..<SpamStoreThreshold]))) 0)
     = ok True"
proof (rule replay_after_eviction [OF spam_inv_init])
  have inj: "inj_on (of_nat :: nat \<Rightarrow> u64) {1..<SpamStoreThreshold}"
    by (rule inj_on_subset [OF inj_on_word_of_nat]) (auto simp: SpamStoreThreshold_def)
  then show "distinct (map of_nat [1..<SpamStoreThreshold] :: u64 list)"
    by (simp add: distinct_map)
  show "(0 :: u64) \<notin> set (map of_nat [1..<SpamStoreThreshold])"
    by (auto simp: SpamStoreThreshold_def dest!: arg_cong [of _ _ unat] simp: unat_of_nat)
qed (simp_all add: window_of_init, simp add: SpamStoreThreshold_def)

text \<open>
  The 32-bit counter is the reason for the bound on the number of frames: after \<open>2 ^ 32 - 1\<close> sights of one
  id two more frames with it wrap the counter, and the second is handled although the id is known.
\<close>
theorem counter_wrap_readmits:
  assumes "msgSpamCount c i = Some (- 1)"
    and "length (sq_list (receivedMsgId c)) + 1 < SpamStoreThreshold"
  shows "snd (run spam_step c [i, i]) = [ok False, ok True]"
  using assms
  by (simp add: run_Cons spam_step_def spam_filter_def increamentMsgSpamCount_def
      checkSpamQueueCapacity_def SQ_Enqueue_def SQ_GetLen_def)

lemma counter_wrap_readmits_witness:
  "snd (run spam_step ((conn_init [1] ''p'' None 0)\<lparr>msgSpamCount := [5 \<mapsto> - 1]\<rparr>) [5, 5]) = [ok False, ok True]"
  by (rule counter_wrap_readmits) (simp_all add: conn_init_def NewSpamQueue_def SpamStoreThreshold_def)

end
