(* ===== verification/Connection_Recv.thy ===== *)
theory Connection_Recv
  imports Connection_Spam
begin

text \<open>
  The receive cycle of \<^verbatim>\<open>peer_service/connection/connection.go\<close>: one iteration reads a frame,
  filters repetitions and dispatches on its kind; the handlers for signatures and peer lists;
  and \<open>TrySetPeerPublicKey\<close>, the other writer of the peer's key. A result is the new state with
  the actions on the outside, or the panic that ends the process.
\<close>

type_synonym outcome = "(connection \<times> action list) go"

section \<open>Handlers\<close>

definition messageReceived :: "bytes \<Rightarrow> connection \<Rightarrow> action list" where
  "messageReceived data c = [OnMessage (PutUint32 (UniqId c) @ data)]"

definition validatePublicKey :: "crypto_lib \<Rightarrow> pubkey \<Rightarrow> connection \<Rightarrow> bool" where
  "validatePublicKey C publicKey c =
     (let pubKeyHex = PublicKeyToHexString C publicKey in
      if length (PeerPublicKey c) > 0 then pubKeyHex = PeerPublicKey c else True)"

definition sig_length :: "byte \<Rightarrow> nat" where
  "sig_length chainId = (if chainId \<ge> 110 then 66 else 65)"

text \<open>The two \<open>CAS\<close> calls after a key became known.\<close>

definition handshake_done :: "connection \<Rightarrow> connection" where
  "handshake_done c = cas_status JustConnected HandshakeComplete (cas_status NotConnected HandshakeComplete c)"

text \<open>
  \<open>handleSignature\<close>. The two slice expressions panic on data shorter than a signature: the first
  may still reach into the capacity behind the data, the second has the length as its upper bound.
\<close>

definition handleSignature :: "crypto_lib \<Rightarrow> net_lib \<Rightarrow> byte \<Rightarrow> bytes \<Rightarrow> connection \<Rightarrow> outcome" where
  "handleSignature C N chainId data c =
     (if status c = Terminated then ok (c, [])
      else
        (let sigLen = sig_length chainId in
         and_then (go_slice data 0 sigLen) (\<lambda>sig.
         and_then (go_slice data sigLen (length data)) (\<lambda>addressBytes.
           case MarshalId N (PeerId c) of
             Inl _ \<Rightarrow> ok (c, [])
           | Inr peerIdBytes \<Rightarrow>
               (case EcRecover C peerIdBytes sig chainId of
                  Inl (GoPanic p) \<Rightarrow> panic p
                | Inl (GoError _) \<Rightarrow> ok (resetInboundStream c)
                | Inr publicKey \<Rightarrow>
                    if \<not> validatePublicKey C publicKey c then ok (resetInboundStream c)
                    else
                      (case NewMultiaddrBytes N addressBytes of
                         Inl _ \<Rightarrow> ok (resetInboundStream c)
                       | Inr address \<Rightarrow>
                           let key = PublicKeyToHexString C publicKey
                           in ok (handshake_done (c\<lparr>PeerPublicKey := key, PeerAddress := Some address\<rparr>),
                                  [OnPublicKeyRecovered key])))))))"

definition TrySetPeerPublicKey ::
    "crypto_lib \<Rightarrow> string \<Rightarrow> connection \<Rightarrow> (connection \<times> action list \<times> bool) go" where
  "TrySetPeerPublicKey C publicKey c =
     (if status c = Terminated then ok (c, [], False)
      else
        (case HexToPublicKey C publicKey of
           Inl (GoPanic p) \<Rightarrow> panic p
         | Inl (GoError _) \<Rightarrow> (case resetInboundStream c of (c', acts) \<Rightarrow> ok (c', acts, False))
         | Inr ecdsaPubKey \<Rightarrow>
             if \<not> validatePublicKey C ecdsaPubKey c
             then (case resetInboundStream c of (c', acts) \<Rightarrow> ok (c', acts, False))
             else if length (PeerPublicKey c) > 0 then ok (c, [], True)
             else ok (handshake_done (c\<lparr>PeerPublicKey := publicKey\<rparr>),
                      [OnPublicKeyRecovered publicKey], True)))"

definition handlePeers :: "net_lib \<Rightarrow> bytes \<Rightarrow> bytes \<Rightarrow> connection \<Rightarrow> outcome" where
  "handlePeers N data spare c =
     and_then (DecodeArray N data spare) (\<lambda>peerConnections. ok (c, [OnPeerListUpdate peerConnections]))"

section \<open>One frame\<close>

text \<open>
  The switch on the frame's kind. What lies behind a frame's data in memory is its checksum.
\<close>

definition handle_frame ::
    "crypto_lib \<Rightarrow> net_lib \<Rightarrow> byte \<Rightarrow> message_frame \<Rightarrow> connection \<Rightarrow> outcome" where
  "handle_frame C N chainId frame c =
     (let kind = frm_kind frame; data = frm_data frame; msgId = frm_msgId frame in
      if kind = FConfirmReply then ok (confirmationReceived msgId c, [])
      else if kind = FMessageConfirmRequest then
        ok (addToQueue (NewEnvelopWithId (Some [0]) KConfirmReply msgId) c, [OnMessage data])
      else if kind = FMessage then
        ok (c, (if \<not> isBanned c then messageReceived data c else []))
      else if kind = FSignature then handleSignature C N chainId data c
      else if kind = FGetPeersReply then
        (if \<not> isBanned c
         then handlePeers N data (PutUint32 (ChecksumIEEE (frame_body frame))) c
         else ok (c, []))
      else ok (c, []))"

definition receive_frame ::
    "crypto_lib \<Rightarrow> net_lib \<Rightarrow> byte \<Rightarrow> message_frame \<Rightarrow> connection \<Rightarrow> outcome" where
  "receive_frame C N chainId frame c =
     and_then (spam_filter (frm_msgId frame) c) (\<lambda>(c1, accepted).
     and_then (if accepted then handle_frame C N chainId frame c1 else ok (c1, [])) (\<lambda>(c2, acts).
       ok (c2, InboundTPS (length (frm_data frame)) # acts)))"

text \<open>
  The loop with its program counter. While it is in \<open>RReading\<close> other goroutines may change the
  connection; the read's result is handled on the state they left.
\<close>

datatype recv_pc = RTop | RReading net_stream | RDone

definition recv_step ::
    "crypto_lib \<Rightarrow> net_lib \<Rightarrow> byte \<Rightarrow> message_frame go \<Rightarrow> recv_pc \<times> connection \<Rightarrow>
     (recv_pc \<times> connection \<times> action list) go" where
  "recv_step C N chainId res s =
     (case s of (pc, c) \<Rightarrow>
       (case pc of
          RTop \<Rightarrow>
            if status c = Terminated then ok (RDone, c\<lparr>lifecycleFinished := True\<rparr>, [])
            else (case inboundStream c of
                    Some st \<Rightarrow> ok (RReading st, c, [])
                  | None \<Rightarrow> ok (RTop, c, []))
        | RReading st \<Rightarrow>
            (case res of
               Inl (GoPanic p) \<Rightarrow> panic p
             | Inl (GoError _) \<Rightarrow> (case resetInboundStream c of (c', acts) \<Rightarrow> ok (RTop, c', acts))
             | Inr frame \<Rightarrow>
                 and_then (receive_frame C N chainId frame c) (\<lambda>(c', acts). ok (RTop, c', acts)))
        | RDone \<Rightarrow> ok (RDone, c, [])))"

text \<open>Many frames, each outcome recorded: a panic ends the process, here the state stays.\<close>

definition receive_machine ::
    "crypto_lib \<Rightarrow> net_lib \<Rightarrow> byte \<Rightarrow> connection \<Rightarrow> message_frame \<Rightarrow> connection \<times> action list go" where
  "receive_machine C N chainId c frame =
     (case receive_frame C N chainId frame c of
        Inl e \<Rightarrow> (c, Inl e)
      | Inr (c', acts) \<Rightarrow> (c', ok acts))"

section \<open>What the handlers can change\<close>

lemma resetInboundStream_fields [simp]:
  "PeerId (fst (resetInboundStream c)) = PeerId c"
  "PeerPublicKey (fst (resetInboundStream c)) = PeerPublicKey c"
  "status (fst (resetInboundStream c)) = status c"
  "isBanned (fst (resetInboundStream c)) = isBanned c"
  "UniqId (fst (resetInboundStream c)) = UniqId c"
  "receivedMsgId (fst (resetInboundStream c)) = receivedMsgId c"
  "msgSpamCount (fst (resetInboundStream c)) = msgSpamCount c"
  "inboundStream (fst (resetInboundStream c)) = None"
  by (simp_all add: resetInboundStream_def split: option.splits)

lemma handshake_done_fields [simp]:
  "PeerId (handshake_done c) = PeerId c"
  "PeerPublicKey (handshake_done c) = PeerPublicKey c"
  "PeerAddress (handshake_done c) = PeerAddress c"
  "isBanned (handshake_done c) = isBanned c"
  "UniqId (handshake_done c) = UniqId c"
  "receivedMsgId (handshake_done c) = receivedMsgId c"
  "msgSpamCount (handshake_done c) = msgSpamCount c"
  "inboundStream (handshake_done c) = inboundStream c"
  "outboundStream (handshake_done c) = outboundStream c"
  by (simp_all add: handshake_done_def cas_status_def)

lemma handshake_done_status [simp]:
  "status (handshake_done c) = (if status c = Terminated then Terminated else HandshakeComplete)"
  by (cases "status c") (simp_all add: handshake_done_def cas_status_def)

text \<open>The signature that a frame's data claims and the key it recovers to.\<close>

definition recovered_key ::
    "crypto_lib \<Rightarrow> net_lib \<Rightarrow> byte \<Rightarrow> peer_id \<Rightarrow> bytes \<Rightarrow> pubkey \<Rightarrow> bool" where
  "recovered_key C N chainId pid data pk \<longleftrightarrow>
     sig_length chainId \<le> length data \<and>
     (\<exists>idBytes. MarshalId N pid = Inr idBytes \<and>
        EcRecover C idBytes (take (sig_length chainId) data) chainId = ok pk)"

lemma handleSignature_short:
  "status c \<noteq> Terminated \<Longrightarrow> length data < sig_length chainId \<Longrightarrow>
   handleSignature C N chainId data c = panic SliceBounds"
  by (simp add: handleSignature_def go_slice_def)

text \<open>The three ways \<open>handleSignature\<close> can return.\<close>

lemma handleSignature_returns:
  assumes "handleSignature C N chainId data c = ok (c', acts)"
  shows "c' = c \<and> acts = [] \<or> (c', acts) = resetInboundStream c \<or>
    status c \<noteq> Terminated \<and>
    (\<exists>pk address. recovered_key C N chainId (PeerId c) data pk \<and> validatePublicKey C pk c \<and>
       c' = handshake_done (c\<lparr>PeerPublicKey := PublicKeyToHexString C pk, PeerAddress := Some address\<rparr>) \<and>
       acts = [OnPublicKeyRecovered (PublicKeyToHexString C pk)])"
  using assms
  by (auto simp: handleSignature_def go_slice_def recovered_key_def Let_def
           split: if_splits sum.splits fault.splits)

definition same_filter :: "connection \<Rightarrow> connection \<Rightarrow> bool" where
  "same_filter c d \<longleftrightarrow>
     receivedMsgId d = receivedMsgId c \<and> msgSpamCount d = msgSpamCount c \<and>
     PeerId d = PeerId c \<and> isBanned d = isBanned c \<and> UniqId d = UniqId c"

lemma same_filter_refl [simp]: "same_filter c c"
  by (simp add: same_filter_def)

lemma handleSignature_same_filter:
  "handleSignature C N chainId data c = ok (c', acts) \<Longrightarrow> same_filter c c'"
  by (drule handleSignature_returns) (auto simp: same_filter_def dest: arg_cong [of _ _ fst])

lemma handle_frame_same_filter:
  "handle_frame C N chainId f c = ok (c', acts) \<Longrightarrow> same_filter c c'"
  by (auto simp: handle_frame_def Let_def handlePeers_def confirmationReceived_def addToQueue_def
        same_filter_def [of c "c\<lparr>confirmReceived := z\<rparr>" for z]
        same_filter_def [of c "c\<lparr>messageQueue := z\<rparr>" for z] and_then_Inr_iff
      dest: handleSignature_same_filter split: if_splits option.splits)

lemma handle_frame_key:
  assumes "handle_frame C N chainId f c = ok (c', acts)"
  shows "PeerPublicKey c' = PeerPublicKey c \<or>
    frm_kind f = FSignature \<and>
    (\<exists>pk. recovered_key C N chainId (PeerId c) (frm_data f) pk \<and> validatePublicKey C pk c \<and>
       PeerPublicKey c' = PublicKeyToHexString C pk)"
proof (cases "frm_kind f = FSignature")
  case True
  with assms have "handleSignature C N chainId (frm_data f) c = ok (c', acts)"
    by (simp add: handle_frame_def frame_kind_defs)
  from handleSignature_returns [OF this] True show ?thesis
    by (auto dest: arg_cong [of _ _ fst])
next
  case False
  with assms show ?thesis
    by (auto simp: handle_frame_def Let_def handlePeers_def confirmationReceived_def addToQueue_def
          and_then_Inr_iff split: if_splits option.splits)
qed

text \<open>The filter touches nothing but its two fields.\<close>

lemma checkSpamQueueCapacity_effect:
  "checkSpamQueueCapacity c = ok c1 \<Longrightarrow>
   c1 = c\<lparr>receivedMsgId := receivedMsgId c1, msgSpamCount := msgSpamCount c1\<rparr>"
  by (auto simp: checkSpamQueueCapacity_def split: if_splits sum.splits fault.splits)

lemma spam_filter_effect:
  "spam_filter i c = ok (c1, b) \<Longrightarrow>
   c1 = c\<lparr>receivedMsgId := receivedMsgId c1, msgSpamCount := msgSpamCount c1\<rparr>"
  by (auto simp: spam_filter_def increamentMsgSpamCount_def Let_def and_then_Inr_iff
      dest!: checkSpamQueueCapacity_effect split: if_splits)

lemma spam_filter_fields:
  assumes "spam_filter i c = ok (c1, b)"
  shows "PeerId c1 = PeerId c" "PeerPublicKey c1 = PeerPublicKey c" "status c1 = status c"
    "isBanned c1 = isBanned c" "UniqId c1 = UniqId c" "messageQueue c1 = messageQueue c"
    "inboundStream c1 = inboundStream c" "outboundStream c1 = outboundStream c"
  by (subst spam_filter_effect [OF assms], simp)+

lemma spam_filter_known:
  assumes "spam_inv k c" and "k < 2 ^ 32 - 1"
  shows "\<exists>c1. spam_filter i c = ok (c1, i \<notin> set (window_of c)) \<and> spam_inv (Suc k) c1 \<and>
    window_of c1 = fst (window_step (window_of c) i)"
proof -
  from spam.step_inv [OF assms(2,1), of i] spam.step_abs [OF assms(2,1), of i]
  show ?thesis
    by (auto simp: spam_step_def window_step_def split: sum.splits if_splits)
qed

lemma window_step_mem: "i \<in> set (fst (window_step w i))"
  by (cases w) (auto simp: window_step_def SpamStoreThreshold_def)

lemma same_filter_inv:
  "same_filter c d \<Longrightarrow> spam_inv k d = spam_inv k c \<and> window_of d = window_of c"
  by (simp add: same_filter_def spam_inv_def window_of_def)

lemma receive_frame_ok:
  assumes "receive_frame C N chainId f c = ok (c', acts)"
  obtains c1 b acts' where "spam_filter (frm_msgId f) c = ok (c1, b)"
    and "acts = InboundTPS (length (frm_data f)) # acts'"
    and "(if b then handle_frame C N chainId f c1 else ok (c1, [])) = ok (c', acts')"
  using assms by (auto simp: receive_frame_def and_then_Inr_iff)

lemma receive_frame_key:
  assumes "receive_frame C N chainId f c = ok (c', acts)"
  shows "PeerId c' = PeerId c \<and>
    (PeerPublicKey c' = PeerPublicKey c \<or>
     frm_kind f = FSignature \<and>
     (\<exists>pk. recovered_key C N chainId (PeerId c) (frm_data f) pk \<and> validatePublicKey C pk c \<and>
        PeerPublicKey c' = PublicKeyToHexString C pk))"
proof -
  from assms obtain c1 b acts' where 1: "spam_filter (frm_msgId f) c = ok (c1, b)"
    and 2: "(if b then handle_frame C N chainId f c1 else ok (c1, [])) = ok (c', acts')"
    by (rule receive_frame_ok)
  note flds = spam_filter_fields [OF 1]
  show ?thesis
  proof (cases b)
    case True
    with 2 have "handle_frame C N chainId f c1 = ok (c', acts')" by simp
    from handle_frame_key [OF this] handle_frame_same_filter [OF this] show ?thesis
      by (auto simp: flds same_filter_def validatePublicKey_def)
  qed (use 2 flds in simp)
qed

text \<open>And a key only comes from a signature by the owner of that key over the peer's id.\<close>

definition key_evidence ::
    "crypto_lib \<Rightarrow> net_lib \<Rightarrow> byte \<Rightarrow> peer_id \<Rightarrow> string \<Rightarrow> message_frame \<Rightarrow> bool" where
  "key_evidence C N chainId pid key f \<longleftrightarrow> frm_kind f = FSignature \<and>
     (\<exists>pk. recovered_key C N chainId pid (frm_data f) pk \<and> key = PublicKeyToHexString C pk)"

lemma receive_machine_step:
  fixes c :: connection
  shows "PeerId (fst (receive_machine C N chainId c f)) = PeerId c"
    and "PeerPublicKey c \<noteq> [] \<Longrightarrow>
      PeerPublicKey (fst (receive_machine C N chainId c f)) = PeerPublicKey c"
    and "PeerPublicKey (fst (receive_machine C N chainId c f)) = PeerPublicKey c \<or>
      key_evidence C N chainId (PeerId c) (PeerPublicKey (fst (receive_machine C N chainId c f))) f"
proof -
  have "PeerId (fst (receive_machine C N chainId c f)) = PeerId c \<and>
    (PeerPublicKey c \<noteq> [] \<longrightarrow>
      PeerPublicKey (fst (receive_machine C N chainId c f)) = PeerPublicKey c) \<and>
    (PeerPublicKey (fst (receive_machine C N chainId c f)) = PeerPublicKey c \<or>
      key_evidence C N chainId (PeerId c) (PeerPublicKey (fst (receive_machine C N chainId c f))) f)"
  proof (cases "receive_frame C N chainId f c")
    case (Inr p)
    then obtain c' acts where "receive_frame C N chainId f c = ok (c', acts)" by (cases p) simp
    with receive_frame_key [OF this] show ?thesis
      by (cases "PeerPublicKey c = []")
         (auto simp: receive_machine_def key_evidence_def validatePublicKey_def)
  qed (simp add: receive_machine_def)
  then show "PeerId (fst (receive_machine C N chainId c f)) = PeerId c"
    and "PeerPublicKey c \<noteq> [] \<Longrightarrow>
      PeerPublicKey (fst (receive_machine C N chainId c f)) = PeerPublicKey c"
    and "PeerPublicKey (fst (receive_machine C N chainId c f)) = PeerPublicKey c \<or>
      key_evidence C N chainId (PeerId c) (PeerPublicKey (fst (receive_machine C N chainId c f))) f"
    by blast+
qed

text \<open>Once there is a key it stays: the invariant of the receive machine.\<close>

interpretation known_key: invariant_machine "receive_machine C N chainId"
    "\<lambda>c. key \<noteq> [] \<and> PeerPublicKey c = key" for C N chainId key
  by unfold_locales (auto simp: receive_machine_step(2))

interpretation same_peer: invariant_machine "receive_machine C N chainId" "\<lambda>c. PeerId c = pid"
    for C N chainId pid
  by unfold_locales (simp add: receive_machine_step(1))

lemma run_key_evidence:
  "PeerPublicKey c = [] \<Longrightarrow>
   PeerPublicKey (fst (run (receive_machine C N chainId) c fs)) = [] \<or>
   (\<exists>f \<in> set fs. key_evidence C N chainId (PeerId c)
      (PeerPublicKey (fst (run (receive_machine C N chainId) c fs))) f)"
proof (induction fs arbitrary: c)
  case (Cons f fs)
  let ?M = "receive_machine C N chainId"
  let ?c1 = "fst (?M c f)"
  show ?case
  proof (cases "PeerPublicKey ?c1 = []")
    case True
    from Cons.IH [OF this] receive_machine_step(1) [of C N chainId c f] show ?thesis
      by (auto simp: run_Cons)
  next
    case False
    then have "PeerPublicKey (fst (run ?M ?c1 fs)) = PeerPublicKey ?c1"
      using known_key.run_inv [of "PeerPublicKey ?c1" ?c1 C N chainId fs] by simp
    moreover have "key_evidence C N chainId (PeerId c) (PeerPublicKey ?c1) f"
      using False Cons.prems receive_machine_step(3) [of C N chainId c f] by simp
    ultimately show ?thesis by (simp add: run_Cons)
  qed
qed simp

text \<open>One frame whose id the window knows, and one whose id is new.\<close>

lemma receive_frame_known:
  assumes "spam_inv k c" and "k < 2 ^ 32 - 1" and "frm_msgId f \<in> set (window_of c)"
  shows "\<exists>c1. receive_frame C N chainId f c = ok (c1, [InboundTPS (length (frm_data f))]) \<and>
    spam_filter (frm_msgId f) c = ok (c1, False) \<and> spam_inv (Suc k) c1 \<and> window_of c1 = window_of c"
  using spam_filter_known [OF assms(1,2), of "frm_msgId f"] assms(3)
  by (auto simp: receive_frame_def window_step_def)

lemma receive_frame_new:
  assumes "spam_inv k c" and "k < 2 ^ 32 - 1" and "frm_msgId f \<notin> set (window_of c)"
  shows "\<exists>c1. spam_filter (frm_msgId f) c = ok (c1, True) \<and> spam_inv (Suc k) c1 \<and>
    window_of c1 = fst (window_step (window_of c) (frm_msgId f)) \<and>
    receive_frame C N chainId f c =
      and_then (handle_frame C N chainId f c1) (\<lambda>(c2, acts).
        ok (c2, InboundTPS (length (frm_data f)) # acts))"
  using spam_filter_known [OF assms(1,2), of "frm_msgId f"] assms(3)
  by (auto simp: receive_frame_def)

text \<open>What a run of plain messages does, frame by frame.\<close>

definition delivered :: "u32 \<Rightarrow> message_frame \<Rightarrow> bool \<Rightarrow> action list" where
  "delivered uid f new =
     InboundTPS (length (frm_data f)) # (if new then [OnMessage (PutUint32 uid @ frm_data f)] else [])"

lemma run_messages:
  assumes "spam_inv k c" and "k + length fs \<le> 2 ^ 32 - 1" and "\<forall>f \<in> set fs. frm_kind f = FMessage"
    and "\<not> isBanned c"
  shows "map Inr (map2 (delivered (UniqId c)) fs
      (map (\<lambda>r. r = ok True) (snd (run window_step (window_of c) (map frm_msgId fs))))) =
    snd (run (receive_machine C N chainId) c fs)"
  using assms
proof (induction fs arbitrary: k c)
  case (Cons f fs)
  let ?M = "receive_machine C N chainId"
  have k: "k < 2 ^ 32 - 1" using Cons.prems(2) by simp
  obtain c1 b where c1: "spam_filter (frm_msgId f) c = ok (c1, b)" "spam_inv (Suc k) c1"
    "window_of c1 = fst (window_step (window_of c) (frm_msgId f))"
    "snd (window_step (window_of c) (frm_msgId f)) = ok b" "b = (frm_msgId f \<notin> set (window_of c))"
    using spam_filter_known [OF Cons.prems(1) k, of "frm_msgId f"] by (auto simp: window_step_def)
  note flds = spam_filter_fields [OF c1(1)]
  have step: "?M c f = (c1, ok (delivered (UniqId c) f b))"
    using c1(1) Cons.prems(3,4) flds
    by (simp add: receive_machine_def receive_frame_def handle_frame_def messageReceived_def
        delivered_def frame_kind_defs)
  have "map Inr (map2 (delivered (UniqId c1)) fs
      (map (\<lambda>r. r = ok True) (snd (run window_step (window_of c1) (map frm_msgId fs))))) =
    snd (run ?M c1 fs)"
    by (rule Cons.IH [OF c1(2)]) (use Cons.prems flds in simp_all)
  then show ?case by (simp add: run_Cons step c1(3,4) flds)
qed simp

section \<open>Properties\<close>

text \<open>
  Frames alone give a connection only its peer's own key: after any sequence of frames, and nothing else, on a
  connection that had no key, either there is still none, or one of the frames carried a signature
  over this peer's id from which exactly that key was recovered.
\<close>
theorem key_needs_signature:
  assumes "PeerPublicKey c = []"
  shows "let c' = fst (run (receive_machine C N chainId) c frames) in
    PeerPublicKey c' = [] \<or> (\<exists>f \<in> set frames. key_evidence C N chainId (PeerId c) (PeerPublicKey c') f)"
  using run_key_evidence [OF assms] by (simp add: Let_def)

text \<open>A signature frame the toy libraries accept, and its effect on a new connection.\<close>

definition sample_signature_frame :: message_frame where
  "sample_signature_frame = NewFrameWithId FSignature (replicate 64 0 @ [1, 195, 9]) 5"

lemma sample_recovers: "EcRecover toy_crypto [1, 2] (replicate 64 0 @ [1, 195]) 200 = ok [7]"
  by code_simp

lemma sample_signature_accepted:
  "PeerPublicKey (fst (run (receive_machine toy_crypto toy_net 200) (conn_init [1, 2] ''p'' None 0)
     [sample_signature_frame])) = BytesToHex [2, 7]"
proof -
  have "go_slice (replicate 64 0 @ [1, 195, 9 :: byte]) 0 66 = ok (replicate 64 0 @ [1, 195])"
    and "go_slice (replicate 64 0 @ [1, 195, 9 :: byte]) 66 67 = ok [9]"
    by (simp_all add: go_slice_def)
  moreover have "PublicKeyToHexString toy_crypto [7] = BytesToHex [2, 7]"
    by (simp add: PublicKeyToHexString_def toy_crypto_def)
  moreover have "MarshalId toy_net [1, 2] = Inr [1, 2]" "NewMultiaddrBytes toy_net bs = Inr (bytes_text bs)" for bs
    by (simp_all add: toy_net_def)
  ultimately show ?thesis
    using sample_recovers
    by (simp add: run_Cons receive_machine_def receive_frame_def spam_filter_def
        increamentMsgSpamCount_def checkSpamQueueCapacity_def SQ_GetLen_def SQ_Enqueue_def NewSpamQueue_def
        SpamStoreThreshold_def handle_frame_def sample_signature_frame_def frame_kind_defs
        handleSignature_def sig_length_def validatePublicKey_def Let_def)
qed

lemma key_needs_signature_witness:
  "key_evidence toy_crypto toy_net 200 [1, 2] (BytesToHex [2, 7]) sample_signature_frame"
  using key_needs_signature [of "conn_init [1, 2] ''p'' None 0" toy_crypto toy_net 200 "[sample_signature_frame]"]
  by (simp add: sample_signature_accepted Let_def BytesToHex_def)

text \<open>
  C3: at-most-once delivery in order: on a new connection that receives only plain messages (with at most 9999
  distinct ids), the application gets, for each frame in turn, the payload behind the connection's
  four-byte number if the frame's id is new, and nothing if it is a repetition.
\<close>
theorem messages_delivered_once:
  assumes "\<forall>f \<in> set frames. frm_kind f = FMessage"
    and "length frames < 2 ^ 32" and "card (frm_msgId ` set frames) < SpamStoreThreshold"
  shows "snd (run (receive_machine C N chainId) (conn_init pid protocol myAddr uid) frames) =
    map ok (map2 (delivered uid) frames (fresh_flags [] (map frm_msgId frames)))"
proof -
  let ?c = "conn_init pid protocol myAddr uid"
  have c: "\<not> isBanned ?c" "UniqId ?c = uid" by (simp_all add: conn_init_def)
  have "snd (run window_step [] (map frm_msgId frames)) = map ok (fresh_flags [] (map frm_msgId frames))"
    by (rule window_no_eviction) (use assms(3) in simp_all)
  with run_messages [OF spam_inv_init _ assms(1) c(1), of C N chainId] assms(2)
  show ?thesis by (simp add: window_of_init c(2) comp_def)
qed

lemma messages_delivered_once_witness:
  "snd (run (receive_machine toy_crypto toy_net 42) (conn_init [1] ''p'' None 3)
      [NewFrameWithId FMessage [8] 5, NewFrameWithId FMessage [8] 5]) =
   [ok [InboundTPS 1, OnMessage [3, 0, 0, 0, 8]], ok [InboundTPS 1]]"
proof -
  let ?fs = "[NewFrameWithId FMessage [8] 5, NewFrameWithId FMessage [8] 5]"
  have "snd (run (receive_machine toy_crypto toy_net 42) (conn_init [1] ''p'' None 3) ?fs) =
      map ok (map2 (delivered 3) ?fs (fresh_flags [] (map frm_msgId ?fs)))"
    by (rule messages_delivered_once) (simp_all add: SpamStoreThreshold_def)
  also have "\<dots> = [ok [InboundTPS 1, OnMessage [3, 0, 0, 0, 8]], ok [InboundTPS 1]]"
    by (simp add: delivered_def fresh_flags_def upt_conv_Cons PutUint32_def)
  finally show ?thesis .
qed

text \<open>
  A request for confirmation is answered once: its first frame is passed to the application and puts exactly one
  reply with the same id behind everything queued for the peer, and the id is remembered.
\<close>
theorem confirm_request_answered:
  assumes "spam_inv k c" and "k < 2 ^ 32 - 1" and "frm_msgId f \<notin> set (window_of c)"
    and "frm_kind f = FMessageConfirmRequest"
  shows "\<exists>c'. receive_frame C N chainId f c =
      ok (c', [InboundTPS (length (frm_data f)), OnMessage (frm_data f)]) \<and>
    messageQueue c' =
      MQ_Enqueue (NewEnvelopWithId (Some [0]) KConfirmReply (frm_msgId f)) (messageQueue c) \<and>
    frm_msgId f \<in> set (window_of c')"
proof -
  from receive_frame_new [OF assms(1-3), of C N chainId] obtain c1 where
    c1: "spam_filter (frm_msgId f) c = ok (c1, True)"
      "window_of c1 = fst (window_step (window_of c) (frm_msgId f))"
      "receive_frame C N chainId f c =
        and_then (handle_frame C N chainId f c1) (\<lambda>(c2, acts).
          ok (c2, InboundTPS (length (frm_data f)) # acts))" by auto
  show ?thesis
    using c1(3) assms(4) window_step_mem [of "frm_msgId f" "window_of c"] spam_filter_fields [OF c1(1)] c1(2)
    by (auto simp: handle_frame_def frame_kind_defs addToQueue_def window_of_def)
qed

lemma confirm_request_answered_witness:
  "\<exists>c'. receive_frame toy_crypto toy_net 42 (NewFrameWithId FMessageConfirmRequest [8] 5)
      (conn_init [1] ''p'' None 0) = ok (c', [InboundTPS 1, OnMessage [8]]) \<and>
    messageQueue c' = MQ_Enqueue (NewEnvelopWithId (Some [0]) KConfirmReply 5) NewMessageQueue \<and>
    5 \<in> set (window_of c')"
  using confirm_request_answered [OF spam_inv_init, of "NewFrameWithId FMessageConfirmRequest [8] 5"
      "[1]" "''p''" None 0 toy_crypto toy_net 42]
  by (simp add: window_of_init)

text \<open>
  A repeated frame changes nothing but its counter, whatever its kind: no delivery, and in particular a
  resent request for confirmation is not confirmed again, so a lost reply is never replaced.
\<close>
theorem repeated_frame_ignored:
  assumes "spam_inv k c" and "k < 2 ^ 32 - 1" and "frm_msgId f \<in> set (window_of c)"
  shows "\<exists>m. receive_frame C N chainId f c =
    ok (c\<lparr>msgSpamCount := m\<rparr>, [InboundTPS (length (frm_data f))])"
proof -
  from receive_frame_known [OF assms, of C N chainId] obtain c1 where
    c1: "receive_frame C N chainId f c = ok (c1, [InboundTPS (length (frm_data f))])"
      "spam_filter (frm_msgId f) c = ok (c1, False)" by auto
  then have "c1 = c\<lparr>msgSpamCount := msgSpamCount c1\<rparr>"
    by (auto simp: spam_filter_def increamentMsgSpamCount_def Let_def and_then_Inr_iff split: if_splits)
  with c1(1) show ?thesis by metis
qed

definition sample_seen :: connection where
  "sample_seen =
     (conn_init [1] ''p'' None 0)\<lparr>msgSpamCount := [5 \<mapsto> 1], receivedMsgId := \<lparr>sq_list = [VUint64 5]\<rparr>\<rparr>"

lemma sample_seen_inv: "spam_inv 1 sample_seen \<and> window_of sample_seen = [5]"
  by (simp add: spam_inv_def window_of_def sq_typed_def sq_contents_def SpamStoreThreshold_def sample_seen_def)

lemma repeated_frame_ignored_witness:
  "\<exists>m. receive_frame toy_crypto toy_net 42 (NewFrameWithId FMessageConfirmRequest [8] 5) sample_seen =
     ok (sample_seen\<lparr>msgSpamCount := m\<rparr>, [InboundTPS (length [8 :: byte])])"
  using repeated_frame_ignored [OF conjunct1 [OF sample_seen_inv], of
      "NewFrameWithId FMessageConfirmRequest [8] 5" toy_crypto toy_net 42] sample_seen_inv
  by simp

text \<open>
  A ban stops plain messages and peer lists, whose frames then only count, but not confirm-requests: the
  same payload in a frame of that kind still reaches the application and is answered.
\<close>
theorem ban_does_not_stop_confirm_requests:
  assumes "isBanned c"
  shows "(frm_kind f = FMessage \<or> frm_kind f = FGetPeersReply \<longrightarrow>
      handle_frame C N chainId f c = ok (c, [])) \<and>
    (frm_kind f = FMessageConfirmRequest \<longrightarrow>
      handle_frame C N chainId f c =
        ok (addToQueue (NewEnvelopWithId (Some [0]) KConfirmReply (frm_msgId f)) c, [OnMessage (frm_data f)]))"
  using assms by (simp add: handle_frame_def frame_kind_defs)

lemma ban_does_not_stop_confirm_requests_witness:
  "snd (projr (handle_frame toy_crypto toy_net 42 (NewFrameWithId FMessageConfirmRequest [8] 5)
     (BanPeer_conn (conn_init [1] ''p'' None 0)))) = [OnMessage [8]]"
  using ban_does_not_stop_confirm_requests [of "BanPeer_conn (conn_init [1] ''p'' None 0)"
      "NewFrameWithId FMessageConfirmRequest [8] 5" toy_crypto toy_net 42]
  by (simp add: BanPeer_conn_def)

text \<open>
  A peer can crash the hub with one well-formed frame: a first signature frame whose data are shorter than a
  signature panics, whatever the libraries do.
\<close>
theorem short_signature_panics:
  assumes "spam_inv k c" and "k < 2 ^ 32 - 1" and "frm_msgId f \<notin> set (window_of c)"
    and "status c \<noteq> Terminated" and "frm_kind f = FSignature"
    and "length (frm_data f) < sig_length chainId"
  shows "receive_frame C N chainId f c = panic SliceBounds"
proof -
  from receive_frame_new [OF assms(1-3), of C N chainId] obtain c1 where
    c1: "spam_filter (frm_msgId f) c = ok (c1, True)"
      "receive_frame C N chainId f c =
        and_then (handle_frame C N chainId f c1) (\<lambda>(c2, acts).
          ok (c2, InboundTPS (length (frm_data f)) # acts))" by auto
  with assms(4-6) show ?thesis
    by (simp add: handle_frame_def frame_kind_defs handleSignature_short spam_filter_fields [OF c1(1)])
qed

lemma short_signature_panics_witness:
  "receive_frame toy_crypto toy_net 42 (NewFrameWithId FSignature [1, 2, 3] 5) (conn_init [1] ''p'' None 0) =
     panic SliceBounds"
  by (rule short_signature_panics [OF spam_inv_init]) (simp_all add: window_of_init sig_length_def)

text \<open>
  A read that fails costs exactly the inbound stream: nothing is delivered and nothing else of the
  connection changes.
\<close>
theorem read_error_resets_inbound:
  "recv_step C N chainId (fail e) (RReading st, c) =
     ok (RTop, c\<lparr>inboundStream := None\<rparr>,
         (case inboundStream c of None \<Rightarrow> [] | Some s \<Rightarrow> [ResetStream s]))"
  by (simp add: recv_step_def resetInboundStream_def split: option.splits)

text \<open>
  After \<open>Terminate\<close> the receive cycle ends: whatever point it is at, once its pending read has failed it
  closes \<open>lifecycleFinished\<close> within two iterations and performs no callback.
\<close>
theorem receive_cycle_ends:
  assumes "status c = Terminated" and "pc \<noteq> RDone"
  shows "\<exists>c' acts. and_then (recv_step C N chainId (fail e) (pc, c)) (\<lambda>(pc1, c1, acts1).
       and_then (recv_step C N chainId (fail e) (pc1, c1)) (\<lambda>(pc2, c2, acts2).
         ok (pc2, c2, acts1 @ acts2))) = ok (RDone, c', acts) \<and>
     lifecycleFinished c' \<and> (\<forall>a \<in> set acts. \<exists>s. a = ResetStream s)"
  using assms
  by (cases pc) (auto simp: recv_step_def resetInboundStream_def split: option.splits)

lemma receive_cycle_ends_witness:
  "\<exists>c' acts. and_then (recv_step toy_crypto toy_net 42 (fail StreamReset) (RReading \<lparr>str_id = 0, str_peer = [1], str_addr = None\<rparr>, fst (Terminate 9 (conn_init [1] ''p'' None 0))))
       (\<lambda>(pc1, c1, acts1).
       and_then (recv_step toy_crypto toy_net 42 (fail StreamReset) (pc1, c1)) (\<lambda>(pc2, c2, acts2).
         ok (pc2, c2, acts1 @ acts2))) = ok (RDone, c', acts) \<and>
     lifecycleFinished c' \<and> (\<forall>a \<in> set acts. \<exists>s. a = ResetStream s)"
  by (rule receive_cycle_ends)
     (simp_all add: Terminate_def Let_def resetInboundStream_def resetOutboundStream_def conn_init_def)

text \<open>
  A successful \<open>TrySetPeerPublicKey\<close> leaves the connection with a key that validates against the verified
  one: the key it had before (then nothing changes and nobody is told), or else the given text,
  announced once.
\<close>
theorem TrySetPeerPublicKey_success:
  assumes "TrySetPeerPublicKey C publicKey c = ok (c', acts, True)"
  shows "status c \<noteq> Terminated \<and>
    (\<exists>pk. HexToPublicKey C publicKey = ok pk \<and>
      (if PeerPublicKey c = [] then
         PeerPublicKey c' = publicKey \<and> status c' = HandshakeComplete \<and> acts = [OnPublicKeyRecovered publicKey]
       else PeerPublicKey c = PublicKeyToHexString C pk \<and> c' = c \<and> acts = []))"
  using assms
  by (auto simp: TrySetPeerPublicKey_def validatePublicKey_def Let_def
      split: if_splits sum.splits fault.splits prod.splits)

lemma TrySetPeerPublicKey_success_witness:
  "\<exists>c'. TrySetPeerPublicKey toy_crypto ''0207'' (conn_init [1] ''p'' None 0) =
      ok (c', [OnPublicKeyRecovered ''0207''], True) \<and> PeerPublicKey c' = ''0207''"
proof -
  have "HexToBytes ''0207'' = [2, 7]" by code_simp
  then have "HexToPublicKey toy_crypto ''0207'' = ok [7]" by (simp add: HexToPublicKey_def toy_crypto_def)
  then obtain c' where "TrySetPeerPublicKey toy_crypto ''0207'' (conn_init [1] ''p'' None 0) =
      ok (c', [OnPublicKeyRecovered ''0207''], True)"
    by (simp add: TrySetPeerPublicKey_def validatePublicKey_def)
  with TrySetPeerPublicKey_success [OF this] show ?thesis by auto
qed

end
