(* ===== verification/Connection_Send.thy ===== *)
theory Connection_Send
  imports Connection_State
begin

text \<open>
  The sending half of \<^verbatim>\<open>peer_service/connection/connection.go\<close>: opening the outbound stream (directly
  or through relays), the send cycle with its local variables and program counter, the signature
  goroutine and the peer-list cycle. What the network answers during one step is the record
  \<open>host_env\<close>; the frame handed to \<open>Write\<close> is an action whether or not the write succeeds.
\<close>

record host_env =
  he_connected :: bool
  he_dial :: "peer_id \<Rightarrow> multiaddr \<Rightarrow> go_error option"
  he_relays :: "peer_id list"
  he_newStream :: "go_error + net_stream"
  he_write :: "go_error option"
  he_now :: int

text \<open>Durations in nanoseconds.\<close>

definition Millisecond :: int where "Millisecond = 1000000"
definition Second :: int where "Second = 1000 * Millisecond"
definition Minute :: int where "Minute = 60 * Second"

lemmas durations = Millisecond_def Second_def Minute_def

section \<open>Connecting\<close>

definition MaxTryToConnect :: nat where
  "MaxTryToConnect = 3"

definition relayed_addr :: "net_lib \<Rightarrow> peer_id \<Rightarrow> peer_id \<Rightarrow> go_error + multiaddr" where
  "relayed_addr N relayId targetPeerId =
     NewMultiaddr N (''/p2p/'' @ Pretty N relayId @ ''/p2p-circuit/p2p/'' @ Pretty N targetPeerId)"

definition connectToPeerUsingRelay ::
    "net_lib \<Rightarrow> host_env \<Rightarrow> peer_id \<Rightarrow> peer_id \<Rightarrow> go_error option" where
  "connectToPeerUsingRelay N h relayId targetPeerId =
     (case relayed_addr N relayId targetPeerId of
        Inl e \<Rightarrow> Some e
      | Inr a \<Rightarrow> he_dial h targetPeerId a)"

text \<open>
  The loop over the shuffled relays: its error and the relays it has tried.
\<close>

fun try_relays :: "net_lib \<Rightarrow> host_env \<Rightarrow> peer_id \<Rightarrow> nat \<Rightarrow> peer_id list \<Rightarrow> go_error option \<times> peer_id list" where
  "try_relays N h target errCount [] = (Some (ErrText ''can't connect''), [])"
| "try_relays N h target errCount (r # rs) =
     (case connectToPeerUsingRelay N h r target of
        None \<Rightarrow> (None, [r])
      | Some _ \<Rightarrow>
          if errCount + 1 = MaxTryToConnect then (Some (ErrText ''cant_connect''), [r])
          else (case try_relays N h target (errCount + 1) rs of (e, tried) \<Rightarrow> (e, r # tried)))"

definition connect_conn :: "net_lib \<Rightarrow> host_env \<Rightarrow> peer_id \<Rightarrow> multiaddr option \<Rightarrow> go_error option" where
  "connect_conn N h peerId peerAddress =
     (case peerAddress of
        Some a \<Rightarrow> he_dial h peerId a
      | None \<Rightarrow> fst (try_relays N h peerId 0 (he_relays h)))"

text \<open>The second half of \<open>checkOutboundStream\<close>: a new stream where there is none.\<close>

definition open_stream :: "host_env \<Rightarrow> connection \<Rightarrow> connection \<times> go_error option" where
  "open_stream h c =
     (if outboundStream c = None then
        (case he_newStream h of
           Inl e \<Rightarrow> (c, Some e)
         | Inr s \<Rightarrow>
             (cas_status HandshakeComplete JustConnected
                (cas_status NotConnected JustConnected
                  (c\<lparr>outboundStream := Some s, signatureSent := False\<rparr>)), None))
      else (c, None))"

definition checkOutboundStream ::
    "net_lib \<Rightarrow> host_env \<Rightarrow> connection \<Rightarrow> connection \<times> action list \<times> go_error option" where
  "checkOutboundStream N h c =
     (if \<not> he_connected h then
        (case resetInboundStream c of (c1, a1) \<Rightarrow>
         case resetOutboundStream c1 of (c2, a2) \<Rightarrow>
         case connect_conn N h (PeerId c2) (PeerAddress c2) of
           Some e \<Rightarrow> (c2, a1 @ a2, Some e)
         | None \<Rightarrow> (case open_stream h (c2\<lparr>signatureSent := False\<rparr>) of (c3, err) \<Rightarrow> (c3, a1 @ a2, err)))
      else (case open_stream h c of (c1, err) \<Rightarrow> (c1, [], err)))"

section \<open>The send cycle\<close>

datatype send_pc = SStart | STop | SDequeue | SSend | SDone

record send_local =
  sl_pc :: send_pc
  lastSuccess :: int
  openStreamBackoff :: int
  sendBackoff :: int
  msgToSend :: "bytes option"
  msgKind :: message_kind
  msgId :: u64
  attempts :: nat

definition send_init :: "int \<Rightarrow> send_local" where
  "send_init now =
     \<lparr>sl_pc = SStart, lastSuccess = now, openStreamBackoff = Second, sendBackoff = Millisecond,
      msgToSend = None, msgKind = KMessage, msgId = 0, attempts = 0\<rparr>"

definition disconnectThreshold :: int where
  "disconnectThreshold = Minute * 2"

text \<open>The variables after a message is done with.\<close>

definition clear_message :: "send_local \<Rightarrow> send_local" where
  "clear_message l = l\<lparr>msgToSend := None, msgKind := KMessage, msgId := 0\<rparr>"

text \<open>From the top of the loop to the point where it waits for a message or has one.\<close>

definition send_top ::
    "net_lib \<Rightarrow> host_env \<Rightarrow> send_local \<Rightarrow> connection \<Rightarrow> send_local \<times> connection \<times> action list" where
  "send_top N h l c =
     (if status c = Terminated then (l\<lparr>sl_pc := SDone\<rparr>, c\<lparr>sendCycleFinished := True\<rparr>, [])
      else
        (case checkOutboundStream N h c of
           (c1, acts, Some _) \<Rightarrow>
             ((if openStreamBackoff l < Minute then l\<lparr>openStreamBackoff := openStreamBackoff l * 2\<rparr> else l),
              c1, acts)
         | (c1, acts, None) \<Rightarrow>
             let l1 = l\<lparr>openStreamBackoff := Second,
                        sl_pc := (if msgToSend l = None then SDequeue else SSend)\<rparr>
             in if signature c1 \<noteq> None \<and> length (the (signature c1)) > 0 \<and> \<not> signatureSent c1
                then (l1, c1\<lparr>signatureSent := True\<rparr>, acts @ [StartSendSignature])
                else (l1, c1, acts)))"

text \<open>Waiting for a message; a nil one is the request to end.\<close>

definition send_dequeue ::
    "host_env \<Rightarrow> send_local \<Rightarrow> connection \<Rightarrow> (send_local \<times> connection \<times> action list) go" where
  "send_dequeue h l c =
     (case MQ_DequeueOrWait (messageQueue c) of
        None \<Rightarrow> ok (l, c, [])
      | Some (Inl e) \<Rightarrow> Inl e
      | Some (Inr (q, value, _)) \<Rightarrow>
          (if env_data value = None
           then ok (l\<lparr>sl_pc := SDone\<rparr>, c\<lparr>messageQueue := q, sendCycleFinished := True\<rparr>, [])
           else ok (l\<lparr>sl_pc := SSend, msgToSend := env_data value, msgKind := env_kind value,
                      msgId := env_msgId value, lastSuccess := he_now h\<rparr>,
                    c\<lparr>messageQueue := q\<rparr>, [])))"

text \<open>
  The frame for the message in hand and the confirmation table after building it, or \<open>None\<close> for a
  confirmed consensus message. An unknown kind leaves the zero frame.
\<close>

definition build_frame :: "send_local \<Rightarrow> connection \<Rightarrow> (message_frame \<times> connection) option" where
  "build_frame l c =
     (let data = the (msgToSend l); kind = msgKind l; i = msgId l in
      if kind = KMessage then Some (NewFrameWithId FMessage data i, c)
      else if kind = KConfirmReply then Some (NewFrameWithId FConfirmReply data i, c)
      else if kind = KConsensus then
        (case checkConfirmation i c of (confirm, present) \<Rightarrow>
           if present \<and> confirm then None
           else Some (NewFrameWithId FMessageConfirmRequest data i,
                      (if \<not> present then addMsgIdToConfirm i c else c)))
      else Some (\<lparr>frm_kind = 0, frm_msgId = 0, frm_data = []\<rparr>, c))"

text \<open>After a send that did not succeed: wait and try again, or give up on everything queued.\<close>

definition send_failed :: "host_env \<Rightarrow> send_local \<Rightarrow> connection \<Rightarrow> send_local \<times> connection" where
  "send_failed h l c =
     (if time_sub (he_now h) (lastSuccess l) < disconnectThreshold
      then (l\<lparr>sl_pc := STop, sendBackoff := (if sendBackoff l < Second then sendBackoff l * 2 else sendBackoff l)\<rparr>, c)
      else (clear_message (l\<lparr>sl_pc := STop\<rparr>), c\<lparr>messageQueue := MQ_Clear (messageQueue c)\<rparr>))"

definition send_write ::
    "host_env \<Rightarrow> send_local \<Rightarrow> connection \<Rightarrow> send_local \<times> connection \<times> action list" where
  "send_write h l c =
     (let l1 = l\<lparr>attempts := attempts l + 1\<rparr> in
      case outboundStream c of
        None \<Rightarrow> (case send_failed h l1 c of (l2, c2) \<Rightarrow> (l2, c2, []))
      | Some s \<Rightarrow>
          (case build_frame l1 c of
             None \<Rightarrow>
               (clear_message (l1\<lparr>sl_pc := STop, attempts := 0, sendBackoff := Millisecond, lastSuccess := he_now h\<rparr>),
                removeMsgIdFromConfirm (msgId l1) c, [])
           | Some (frame, c1) \<Rightarrow>
               (case he_write h of
                  None \<Rightarrow>
                    (clear_message (l1\<lparr>sl_pc := STop, attempts := 0, sendBackoff := Millisecond, lastSuccess := he_now h\<rparr>),
                     (if msgKind l1 = KConsensus
                      then addToQueue (NewEnvelopWithId (msgToSend l1) (msgKind l1) (msgId l1)) c1 else c1),
                     [WriteFrame s frame, OutboundTPS (length (frm_data frame))])
                | Some _ \<Rightarrow>
                    (case resetOutboundStream c1 of (c2, acts) \<Rightarrow>
                     case send_failed h l1 c2 of (l3, c3) \<Rightarrow> (l3, c3, WriteFrame s frame # acts)))))"

definition send_step ::
    "net_lib \<Rightarrow> host_env \<Rightarrow> send_local \<times> connection \<Rightarrow> (send_local \<times> connection \<times> action list) go" where
  "send_step N h s =
     (case s of (l, c) \<Rightarrow>
       (case sl_pc l of
          SStart \<Rightarrow> ok (l\<lparr>sl_pc := STop\<rparr>, c\<lparr>signatureSent := False\<rparr>, [])
        | STop \<Rightarrow> ok (send_top N h l c)
        | SDequeue \<Rightarrow> send_dequeue h l c
        | SSend \<Rightarrow> ok (send_write h l c)
        | SDone \<Rightarrow> ok (l, c, [])))"

section \<open>Signature and peer list\<close>

text \<open>One iteration of \<open>sendSignature\<close>: its backoff (\<open>None\<close> when it has returned).\<close>

definition sig_step ::
    "net_lib \<Rightarrow> byte \<Rightarrow> host_env \<Rightarrow> u64 \<Rightarrow> int \<Rightarrow> connection \<Rightarrow> (int option \<times> action list) go" where
  "sig_step N chainId h rndId backoff c =
     (let again = (if backoff < Minute then backoff * 2 else backoff) in
      if status c = Terminated then ok (None, [])
      else
        (case outboundStream c of
           None \<Rightarrow> ok (Some again, [])
         | Some s \<Rightarrow>
             let sigLen = (if chainId \<ge> 110 then 66 else 65);
                 sig = (case signature c of None \<Rightarrow> [] | Some bs \<Rightarrow> bs) in
             if length sig \<noteq> sigLen then panic (PanicWith ''bad signature length!'')
             else
               (case myAddress c of
                  None \<Rightarrow> panic NilDeref
                | Some a \<Rightarrow>
                    let frame = NewFrame FSignature (sig @ AddrBytes N a) rndId in
                    (case he_write h of
                       None \<Rightarrow> ok (None, [WriteFrame s frame, OutboundTPS (length (frm_data frame))])
                     | Some _ \<Rightarrow> ok (Some again, [WriteFrame s frame])))))"

definition sendPeers ::
    "net_lib \<Rightarrow> host_env \<Rightarrow> u64 \<Rightarrow> metadata list \<Rightarrow> connection \<Rightarrow> action list go" where
  "sendPeers N h rndId peerConnections c =
     (if isBanned c then ok []
      else
        (case outboundStream c of
           None \<Rightarrow> ok []
         | Some s \<Rightarrow>
             if length peerConnections = 0 then ok []
             else
               and_then (EncodeArray N peerConnections) (\<lambda>msg.
                 let frame = NewFrame FGetPeersReply msg rndId in
                 ok (WriteFrame s frame #
                     (if he_write h = None then [OutboundTPS (length (frm_data frame))] else [])))))"

text \<open>
  \<open>sendPeersCycle\<close>: whether it goes on after one round; \<open>peerCycleFinished\<close> ends it during its wait.
\<close>

definition peers_step ::
    "net_lib \<Rightarrow> host_env \<Rightarrow> u64 \<Rightarrow> metadata list \<Rightarrow> connection \<Rightarrow> (bool \<times> action list) go" where
  "peers_step N h rndId peerConnections c =
     (if status c = Terminated then ok (False, [])
      else and_then (sendPeers N h rndId peerConnections c) (\<lambda>acts. ok (\<not> peerCycleFinished c, acts)))"

section \<open>The machine of the send cycle\<close>

definition send_machine ::
    "net_lib \<Rightarrow> send_local \<times> connection \<Rightarrow> host_env \<Rightarrow> (send_local \<times> connection) \<times> action list go" where
  "send_machine N s h =
     (case send_step N h s of Inl e \<Rightarrow> (s, Inl e) | Inr (l', c', acts) \<Rightarrow> ((l', c'), ok acts))"

text \<open>Both delays are a unit doubled a bounded number of times.\<close>

definition doubled :: "int \<Rightarrow> nat \<Rightarrow> int \<Rightarrow> bool" where
  "doubled u n b \<longleftrightarrow> (\<exists>k \<le> n. b = u * 2 ^ k)"

lemma doubled_unit [simp]: "doubled u n u"
  unfolding doubled_def by (rule exI [of _ 0]) simp

lemma doubled_step:
  assumes "doubled u n b" and "b < lim" and "0 < u" and "lim \<le> u * 2 ^ n"
  shows "doubled u n (b * 2)"
proof -
  from assms(1) obtain k where k: "b = u * 2 ^ k" "k \<le> n" by (auto simp: doubled_def)
  with assms(2,4) have "u * 2 ^ k < u * 2 ^ n" by linarith
  with assms(3) have "k < n" by simp
  with k have "b * 2 = u * 2 ^ Suc k \<and> Suc k \<le> n" by simp
  then show ?thesis unfolding doubled_def by blast
qed

lemma doubled_bounds:
  assumes "doubled u n b" and "0 < u"
  shows "u \<le> b" and "b \<le> u * 2 ^ n"
proof -
  from assms(1) obtain k where k: "b = u * 2 ^ k" "k \<le> n" by (auto simp: doubled_def)
  with assms(2) show "b \<le> u * 2 ^ n" by (simp add: power_increasing)
  from k(1) assms(2) show "u \<le> b" by simp
qed

lemma backoff_doubled [intro]:
  "doubled Second 6 b \<Longrightarrow> b < Minute \<Longrightarrow> doubled Second 6 (b * 2)"
  "doubled Millisecond 10 b \<Longrightarrow> b < Second \<Longrightarrow> doubled Millisecond 10 (b * 2)"
  by (erule doubled_step, assumption, simp_all add: durations)+

definition backoffs_ok :: "send_local \<Rightarrow> bool" where
  "backoffs_ok l \<longleftrightarrow> doubled Second 6 (openStreamBackoff l) \<and> doubled Millisecond 10 (sendBackoff l)"

text \<open>A message is in hand at the write, and none at the wait.\<close>

definition hand_ok :: "send_local \<Rightarrow> bool" where
  "hand_ok l \<longleftrightarrow>
     (sl_pc l = SDequeue \<longrightarrow> msgToSend l = None) \<and> (sl_pc l = SSend \<longrightarrow> msgToSend l \<noteq> None) \<and>
     (sl_pc l = SStart \<longrightarrow> msgToSend l = None)"

lemmas send_step_defs =
  send_step_def send_top_def send_dequeue_def send_write_def send_failed_def clear_message_def Let_def

lemma send_step_local:
  assumes "send_step N h (l, c) = ok (l', c', acts)" and "backoffs_ok l" and "hand_ok l"
  shows "backoffs_ok l' \<and> hand_ok l'"
  using assms
  by (auto simp: send_step_defs backoffs_ok_def hand_ok_def
      split: send_pc.splits if_splits option.splits prod.splits sum.splits)

interpretation send_inv: invariant_machine "send_machine N" "\<lambda>s. backoffs_ok (fst s) \<and> hand_ok (fst s)"
  for N
proof
  fix s :: "send_local \<times> connection" and h assume "backoffs_ok (fst s) \<and> hand_ok (fst s)"
  then show "backoffs_ok (fst (fst (send_machine N s h))) \<and> hand_ok (fst (fst (send_machine N s h)))"
    using send_step_local [of N h "fst s" "snd s"]
    by (auto simp: send_machine_def split: sum.splits)
qed

lemma send_init_ok: "backoffs_ok (send_init now) \<and> hand_ok (send_init now)"
  by (simp add: send_init_def backoffs_ok_def hand_ok_def)

section \<open>A healthy stream sends the queue in order\<close>

definition healthy :: "host_env \<Rightarrow> bool" where
  "healthy h \<longleftrightarrow> he_connected h \<and> he_write h = None"

definition frame_of :: "message_envelop \<Rightarrow> message_frame" where
  "frame_of e =
     NewFrameWithId (if env_kind e = KMessage then FMessage else FConfirmReply) (the (env_data e)) (env_msgId e)"

definition plain :: "message_envelop \<Rightarrow> bool" where
  "plain e \<longleftrightarrow> env_data e \<noteq> None \<and> (env_kind e = KMessage \<or> env_kind e = KConfirmReply)"

fun writes :: "action list go list \<Rightarrow> (net_stream \<times> message_frame) list" where
  "writes [] = []"
| "writes (Inl _ # outs) = writes outs"
| "writes (Inr acts # outs) =
     concat (map (\<lambda>a. case a of WriteFrame s f \<Rightarrow> [(s, f)] | _ \<Rightarrow> []) acts) @ writes outs"

text \<open>At the top of the loop with an open stream and nothing in hand.\<close>

definition idle :: "net_stream \<Rightarrow> message_envelop list \<Rightarrow> send_local \<times> connection \<Rightarrow> bool" where
  "idle s es st \<longleftrightarrow>
     sl_pc (fst st) = STop \<and> msgToSend (fst st) = None \<and> status (snd st) \<noteq> Terminated \<and>
     outboundStream (snd st) = Some s \<and> mq_list (messageQueue (snd st)) = map VEnvelop es"

lemma send_one:
  assumes "idle s (e # es) st" and "plain e" and "healthy h1" "healthy h2" "healthy h3"
  shows "idle s es (fst (run (send_machine N) st [h1, h2, h3])) \<and>
    writes (snd (run (send_machine N) st [h1, h2, h3])) = [(s, frame_of e)]"
  using assms
  by (cases st)
     (auto simp: run_Cons send_machine_def send_step_defs idle_def plain_def healthy_def frame_of_def
        checkOutboundStream_def open_stream_def MQ_DequeueOrWait_def build_frame_def)

lemma run_append:
  "fst (run step st (es @ fs)) = fst (run step (fst (run step st es)) fs)"
  "snd (run step st (es @ fs)) = snd (run step st es) @ snd (run step (fst (run step st es)) fs)"
  by (induction es arbitrary: st) (simp_all add: run_Cons)

lemma writes_append: "writes (xs @ ys) = writes xs @ writes ys"
  by (induction xs rule: writes.induct) simp_all

lemma send_all:
  "idle s es st \<Longrightarrow> list_all plain es \<Longrightarrow> list_all healthy hs \<Longrightarrow> length hs = 3 * length es \<Longrightarrow>
   idle s [] (fst (run (send_machine N) st hs)) \<and>
   writes (snd (run (send_machine N) st hs)) = map (\<lambda>e. (s, frame_of e)) es"
proof (induction es arbitrary: st hs)
  case (Cons e es)
  then obtain h1 h2 h3 hs' where hs: "hs = [h1, h2, h3] @ hs'"
    by (auto simp: length_Suc_conv numeral_3_eq_3)
  with Cons.prems have "healthy h1" "healthy h2" "healthy h3" "plain e" by simp_all
  from send_one [OF Cons.prems(1) this(4) this(1-3), of N] Cons.IH Cons.prems
  show ?case unfolding hs run_append writes_append by simp
qed simp

section \<open>Properties\<close>

text \<open>
  C20: a healthy outbound stream sends what is queued in order and once: with plain messages and confirmation replies
  \<open>es\<close> queued, three iterations per message write exactly their frames, with their ids and
  kinds, and leave the queue empty.
\<close>
theorem queue_sent_in_order:
  assumes "idle s es st" and "list_all plain es"
    and "list_all healthy hs" and "length hs = 3 * length es"
  shows "writes (snd (run (send_machine N) st hs)) = map (\<lambda>e. (s, frame_of e)) es \<and>
    mq_list (messageQueue (snd (fst (run (send_machine N) st hs)))) = []"
  using send_all [OF assms, of N] by (simp add: idle_def)

definition sample_stream :: net_stream where
  "sample_stream = \<lparr>str_id = 0, str_peer = [1], str_addr = None\<rparr>"

definition sample_host :: host_env where
  "sample_host = \<lparr>he_connected = True, he_dial = (\<lambda>p a. None), he_relays = [],
     he_newStream = Inr sample_stream, he_write = None, he_now = 0\<rparr>"

lemma queue_sent_in_order_witness:
  "writes (snd (run (send_machine toy_net)
     ((send_init 0)\<lparr>sl_pc := STop\<rparr>,
      (Send (NewEnvelopWithId (Some [7]) KMessage 5) (conn_init [1] ''p'' None 0))
        \<lparr>outboundStream := Some sample_stream\<rparr>)
     [sample_host, sample_host, sample_host])) = [(sample_stream, NewFrameWithId FMessage [7] 5)]"
  using queue_sent_in_order [of sample_stream "[NewEnvelopWithId (Some [7]) KMessage 5]"
      "((send_init 0)\<lparr>sl_pc := STop\<rparr>,
      (Send (NewEnvelopWithId (Some [7]) KMessage 5) (conn_init [1] ''p'' None 0))
        \<lparr>outboundStream := Some sample_stream\<rparr>)" "[sample_host, sample_host, sample_host]" toy_net]
  by (simp add: idle_def send_init_def Send_def addToQueue_def MQ_Enqueue_def NewMessageQueue_def plain_def
      healthy_def sample_host_def frame_of_def)

text \<open>
  Connecting through relays tries them in the given order, stops at the first success, and after three failures
  gives up: it succeeds exactly when one of the first three relays does, and never tries a fourth.
\<close>
theorem relays_at_most_three:
  "(fst (try_relays N h target 0 rs) = None \<longleftrightarrow>
      (\<exists>r \<in> set (take MaxTryToConnect rs). connectToPeerUsingRelay N h r target = None)) \<and>
   (\<exists>n \<le> MaxTryToConnect. snd (try_relays N h target 0 rs) = take n rs)"
proof -
  have gen: "(fst (try_relays N h target k rs) = None \<longleftrightarrow>
      (\<exists>r \<in> set (take (MaxTryToConnect - k) rs). connectToPeerUsingRelay N h r target = None)) \<and>
    (\<exists>n \<le> MaxTryToConnect - k. snd (try_relays N h target k rs) = take n rs)"
    if "k < MaxTryToConnect" for k
    using that
  proof (induction rs arbitrary: k)
    case (Cons r rs)
    then obtain m where m: "MaxTryToConnect - k = Suc m" by (metis Suc_diff_Suc)
    show ?case
    proof (cases "connectToPeerUsingRelay N h r target = None \<or> k + 1 = MaxTryToConnect")
      case True
      moreover have "k + 1 = MaxTryToConnect \<Longrightarrow> m = 0" using m by simp
      ultimately show ?thesis using m by (auto split: option.splits intro!: exI [of _ 1])
    next
      case False
      with Cons.prems have k: "Suc k < MaxTryToConnect" and d: "MaxTryToConnect - Suc k = m"
        using m by simp_all
      from Cons.IH [OF k] d obtain n where
        n: "n \<le> m" "snd (try_relays N h target (Suc k) rs) = take n rs" and
        iff: "fst (try_relays N h target (Suc k) rs) = None \<longleftrightarrow>
          (\<exists>r \<in> set (take m rs). connectToPeerUsingRelay N h r target = None)" by auto
      obtain e where "connectToPeerUsingRelay N h r target = Some e" using False by auto
      with False m n iff show ?thesis
        by (auto split: prod.splits intro!: exI [of _ "Suc n"])
    qed
  qed auto
  from gen [of 0] show ?thesis by (simp add: MaxTryToConnect_def)
qed

text \<open>
  C37: retry delays are bounded: in every state the send cycle reaches, the wait before reopening a stream lies
  between 1 and 64 seconds and the wait before resending between 1 and 1024 milliseconds.
\<close>
theorem backoff_bounds:
  "let l = fst (fst (run (send_machine N) (send_init now, c) hs)) in
   Second \<le> openStreamBackoff l \<and> openStreamBackoff l \<le> 64 * Second \<and>
   Millisecond \<le> sendBackoff l \<and> sendBackoff l \<le> 1024 * Millisecond"
proof -
  have "backoffs_ok (fst (fst (run (send_machine N) (send_init now, c) hs)))"
    using send_inv.run_inv [of "(send_init now, c)" N hs] send_init_ok by simp
  from doubled_bounds [OF conjunct1 [OF this [unfolded backoffs_ok_def]]]
       doubled_bounds [OF conjunct2 [OF this [unfolded backoffs_ok_def]]]
  show ?thesis by (simp add: Let_def durations)
qed

definition unreachable :: "host_env \<Rightarrow> bool" where
  "unreachable h \<longleftrightarrow> \<not> he_connected h \<and> (\<forall>p a. he_dial h p a \<noteq> None)"

lemma unreachable_connect: "unreachable h \<Longrightarrow> connect_conn N h p a \<noteq> None"
proof -
  assume h: "unreachable h"
  have "fst (try_relays N h p k rs) \<noteq> None" for k rs
    using h by (induction rs arbitrary: k)
      (auto simp: unreachable_def connectToPeerUsingRelay_def case_prod_unfold split: option.splits sum.splits)
  with h show "connect_conn N h p a \<noteq> None"
    by (simp add: connect_conn_def unreachable_def split: option.splits)
qed

lemma reset_streams_fields [simp]:
  "messageQueue (fst (resetInboundStream c)) = messageQueue c"
  "messageQueue (fst (resetOutboundStream c)) = messageQueue c"
  "status (fst (resetInboundStream c)) = status c"
  "status (fst (resetOutboundStream c)) = status c"
  by (simp_all add: resetInboundStream_def resetOutboundStream_def split: option.splits)

lemma unreachable_step:
  assumes "unreachable h" and "sl_pc l = STop" and "status c \<noteq> Terminated"
  shows "\<exists>b c' acts. send_machine N (l, c) h = ((l\<lparr>openStreamBackoff := b\<rparr>, c'), ok acts) \<and>
    messageQueue c' = messageQueue c \<and> status c' = status c"
proof -
  obtain c1 a1 where c1: "resetInboundStream c = (c1, a1)" by fastforce
  obtain c2 a2 where c2: "resetOutboundStream c1 = (c2, a2)" by fastforce
  obtain e where e: "connect_conn N h (PeerId c2) (PeerAddress c2) = Some e"
    using unreachable_connect [OF assms(1)] by fastforce
  have "messageQueue c2 = messageQueue c \<and> status c2 = status c"
    using reset_streams_fields [of c] reset_streams_fields [of c1] c1 c2 by simp
  then show ?thesis
    using assms c1 c2 e
    by (auto simp: send_machine_def send_step_def send_top_def checkOutboundStream_def unreachable_def
        intro: exI [of _ "openStreamBackoff l"])
qed

text \<open>
  The two-minute limit does not apply while the peer is unreachable: as long as no stream can be opened, the send
  cycle stays at the top of its loop and drops nothing, however much time passes, so the queue of
  an unreachable peer only grows.
\<close>
theorem unreachable_peer_drops_nothing:
  assumes "list_all unreachable hs" and "sl_pc l = STop" and "status c \<noteq> Terminated"
  shows "let (l', c') = fst (run (send_machine N) (l, c) hs) in
    messageQueue c' = messageQueue c \<and> msgToSend l' = msgToSend l \<and> sl_pc l' = STop"
  using assms
proof (induction hs arbitrary: l c)
  case (Cons h hs)
  then obtain b c' acts where st: "send_machine N (l, c) h = ((l\<lparr>openStreamBackoff := b\<rparr>, c'), ok acts)"
    "messageQueue c' = messageQueue c" "status c' = status c"
    using unreachable_step [of h l c N] by auto
  from Cons.IH [of "l\<lparr>openStreamBackoff := b\<rparr>" c'] Cons.prems st show ?case
    by (simp add: run_Cons)
qed simp

definition dead_host :: host_env where
  "dead_host = sample_host\<lparr>he_connected := False, he_dial := (\<lambda>p a. Some EOF), he_now := 10 * Minute\<rparr>"

lemma unreachable_peer_drops_nothing_witness:
  "let (l', c') = fst (run (send_machine toy_net) ((send_init 0)\<lparr>sl_pc := STop\<rparr>,
       Send (NewEnvelopWithId (Some [7]) KMessage 5) (conn_init [1] ''p'' None 0)) [dead_host, dead_host]) in
    messageQueue c' = \<lparr>mq_list = [VEnvelop (NewEnvelopWithId (Some [7]) KMessage 5)]\<rparr> \<and>
    msgToSend l' = None \<and> sl_pc l' = STop"
  using unreachable_peer_drops_nothing [of "[dead_host, dead_host]" "(send_init 0)\<lparr>sl_pc := STop\<rparr>"
      "Send (NewEnvelopWithId (Some [7]) KMessage 5) (conn_init [1] ''p'' None 0)" toy_net]
  by (simp add: dead_host_def unreachable_def Send_def addToQueue_def MQ_Enqueue_def NewMessageQueue_def send_init_def)

text \<open>
  C36: what a failed attempt to send leaves behind, exactly: without a stream or with a write error, and with less
  than two minutes since the last success, the cycle goes back to its top with the message in hand (its
  data, kind and id), only the attempt counted and the resend delay doubled below a second, and the queue
  is untouched. Past two minutes the message in hand is cleared and the queue is emptied. Either way
  the stream is gone, and of the confirmations only a first attempt's entry for a consensus message is new.
\<close>
theorem failed_send_effect:
  assumes "sl_pc l = SSend" and "outboundStream c = None \<or> build_frame l c \<noteq> None \<and> he_write h \<noteq> None"
  shows "\<exists>l' c' acts. send_step N h (l, c) = ok (l', c', acts) \<and> outboundStream c' = None \<and>
    confirmReceived c' =
      (if outboundStream c \<noteq> None \<and> msgKind l = KConsensus \<and> confirmReceived c (msgId l) = None
       then (confirmReceived c)(msgId l \<mapsto> False) else confirmReceived c) \<and>
    (if time_sub (he_now h) (lastSuccess l) < disconnectThreshold
     then l' = l\<lparr>sl_pc := STop, attempts := attempts l + 1,
                 sendBackoff := (if sendBackoff l < Second then sendBackoff l * 2 else sendBackoff l)\<rparr> \<and>
       messageQueue c' = messageQueue c
     else l' = l\<lparr>sl_pc := STop, attempts := attempts l + 1, msgToSend := None, msgKind := KMessage, msgId := 0\<rparr> \<and>
       mq_list (messageQueue c') = [])"
proof -
  have same: "build_frame (l\<lparr>attempts := attempts l + 1\<rparr>) c = build_frame l c" by (simp add: build_frame_def)
  show ?thesis
  proof (cases "outboundStream c")
    case None
    with assms(1) show ?thesis
      by (auto simp: send_step_def send_write_def send_failed_def clear_message_def Let_def MQ_Clear_def)
  next
    case (Some st)
    with assms(2) obtain frame c1 where f: "build_frame l c = Some (frame, c1)" by auto
    then have c1: "messageQueue c1 = messageQueue c" "outboundStream c1 = outboundStream c"
      "confirmReceived c1 = (if msgKind l = KConsensus \<and> confirmReceived c (msgId l) = None
         then (confirmReceived c)(msgId l \<mapsto> False) else confirmReceived c)"
      by (auto simp: build_frame_def Let_def addMsgIdToConfirm_def checkConfirmation_def
          split: if_splits prod.splits option.splits)
    obtain c2 a2 where c2: "resetOutboundStream c1 = (c2, a2)" by fastforce
    then have "messageQueue c2 = messageQueue c1" "outboundStream c2 = None" "confirmReceived c2 = confirmReceived c1"
      by (auto simp: resetOutboundStream_def split: option.splits)
    with assms Some f c1 c2 same show ?thesis
      by (cases "time_sub (he_now h) (lastSuccess l) < disconnectThreshold")
         (auto simp: send_step_def send_write_def send_failed_def clear_message_def Let_def MQ_Clear_def)
  qed
qed

lemma failed_send_effect_witness:
  "\<exists>l' c' acts. send_step toy_net dead_host
      ((send_init 0)\<lparr>sl_pc := SSend, msgToSend := Some [1], msgId := 4\<rparr>,
       Send (NewEnvelopWithId (Some [7]) KMessage 5) (conn_init [1] ''p'' None 0)) = ok (l', c', acts) \<and>
     mq_list (messageQueue c') = [] \<and> msgToSend l' = None \<and> msgId l' = 0"
proof -
  let ?l = "(send_init 0)\<lparr>sl_pc := SSend, msgToSend := Some [1], msgId := 4\<rparr>"
  let ?c = "Send (NewEnvelopWithId (Some [7]) KMessage 5) (conn_init [1] ''p'' None 0)"
  have 1: "sl_pc ?l = SSend"
    "outboundStream ?c = None \<or> build_frame ?l ?c \<noteq> None \<and> he_write dead_host \<noteq> None"
    by (simp_all add: send_init_def conn_init_def Send_def addToQueue_def)
  have 2: "\<not> time_sub (he_now dead_host) (lastSuccess ?l) < disconnectThreshold"
    by (simp add: dead_host_def sample_host_def send_init_def time_sub_def disconnectThreshold_def durations)
  from failed_send_effect [OF 1, of toy_net] 2 show ?thesis by auto
qed

text \<open>
  The signature goroutine ends the process exactly when, on a live connection with an open stream, the stored
  signature does not have the length of the chain's format or the hub's own address is nil.
\<close>
theorem sendSignature_panics_iff:
  "is_panic (sig_step N chainId h rndId backoff c) \<longleftrightarrow>
     status c \<noteq> Terminated \<and> outboundStream c \<noteq> None \<and>
     (length (case signature c of None \<Rightarrow> [] | Some bs \<Rightarrow> bs) \<noteq> (if chainId \<ge> 110 then 66 else 65) \<or>
      myAddress c = None)"
  by (auto simp: sig_step_def Let_def split: option.splits)

end
