(* ===== verification/Connection.thy ===== *)
theory Connection
  imports Connection_Recv Connection_Send
begin

text \<open>
  A whole \<open>Connection\<close>: the receive cycle and the send cycle with their program counters, and the
  methods other goroutines call, interleaved one step at a time in any order. A method's step is
  its body; where the code holds no lock, its single reads and writes of a flag or of a stream
  field are taken to be atomic.
\<close>

record conn_sys =
  cs_conn :: connection
  cs_recv :: recv_pc
  cs_send :: send_local

datatype conn_event =
    EvRecv "message_frame go"
  | EvSend host_env
  | EvSignature host_env u64 int
  | EvPeers host_env u64 "metadata list"
  | EvSetInbound net_stream
  | EvApiSend message_envelop
  | EvSetSignature "bytes option"
  | EvTrySetKey string
  | EvSetAddress "multiaddr option"
  | EvBan
  | EvUnban
  | EvTerminate u64
  | EvTerminateEnd

definition conn_start :: "int \<Rightarrow> connection \<Rightarrow> conn_sys" where
  "conn_start now c = \<lparr>cs_conn = c, cs_recv = RTop, cs_send = send_init now\<rparr>"

text \<open>A step that panics ends the process; the machine then reports it and keeps the state.\<close>

definition conn_step ::
    "crypto_lib \<Rightarrow> net_lib \<Rightarrow> byte \<Rightarrow> conn_sys \<Rightarrow> conn_event \<Rightarrow> conn_sys \<times> action list go" where
  "conn_step C N chainId s e =
     (let c = cs_conn s in
      case e of
        EvRecv res \<Rightarrow>
          (case recv_step C N chainId res (cs_recv s, c) of
             Inl x \<Rightarrow> (s, Inl x)
           | Inr (pc, c', acts) \<Rightarrow> (s\<lparr>cs_recv := pc, cs_conn := c'\<rparr>, ok acts))
      | EvSend h \<Rightarrow>
          (case send_step N h (cs_send s, c) of
             Inl x \<Rightarrow> (s, Inl x)
           | Inr (l, c', acts) \<Rightarrow> (s\<lparr>cs_send := l, cs_conn := c'\<rparr>, ok acts))
      | EvSignature h rndId backoff \<Rightarrow>
          (case sig_step N chainId h rndId backoff c of Inl x \<Rightarrow> (s, Inl x) | Inr (_, acts) \<Rightarrow> (s, ok acts))
      | EvPeers h rndId pcs \<Rightarrow>
          (case peers_step N h rndId pcs c of Inl x \<Rightarrow> (s, Inl x) | Inr (_, acts) \<Rightarrow> (s, ok acts))
      | EvSetInbound st \<Rightarrow> (case SetInboundStream st c of (c', acts) \<Rightarrow> (s\<lparr>cs_conn := c'\<rparr>, ok acts))
      | EvApiSend msg \<Rightarrow> (s\<lparr>cs_conn := Send msg c\<rparr>, ok [])
      | EvSetSignature sig \<Rightarrow> (case SetSignature_conn sig c of (c', acts) \<Rightarrow> (s\<lparr>cs_conn := c'\<rparr>, ok acts))
      | EvTrySetKey key \<Rightarrow>
          (case TrySetPeerPublicKey C key c of
             Inl x \<Rightarrow> (s, Inl x)
           | Inr (c', acts, _) \<Rightarrow> (s\<lparr>cs_conn := c'\<rparr>, ok acts))
      | EvSetAddress a \<Rightarrow> (s\<lparr>cs_conn := SetPeerAddress a c\<rparr>, ok [])
      | EvBan \<Rightarrow> (s\<lparr>cs_conn := BanPeer_conn c\<rparr>, ok [])
      | EvUnban \<Rightarrow> (s\<lparr>cs_conn := RemoveFromBanList_conn c\<rparr>, ok [])
      | EvTerminate rndId \<Rightarrow> (case Terminate rndId c of (c', acts) \<Rightarrow> (s\<lparr>cs_conn := c'\<rparr>, ok acts))
      | EvTerminateEnd \<Rightarrow>
          (case Terminate_end c of None \<Rightarrow> (s, ok []) | Some c' \<Rightarrow> (s\<lparr>cs_conn := c'\<rparr>, ok [])))"

section \<open>Status\<close>

text \<open>The transitions of the status variable.\<close>

inductive status_next :: "status \<Rightarrow> status \<Rightarrow> bool" where
  stream_opened: "status_next NotConnected JustConnected"
| stream_renewed: "status_next HandshakeComplete JustConnected"
| key_known: "s = NotConnected \<or> s = JustConnected \<Longrightarrow> status_next s HandshakeComplete"
| terminated: "status_next s Terminated"

inductive_simps status_next_iff: "status_next s t"

lemma handshake_done_next:
  "status (handshake_done c) = status c \<or> status_next (status c) (status (handshake_done c))"
  by (cases "status c") (simp_all add: status_next_iff)

lemma SetInboundStream_next:
  "status (fst (SetInboundStream st c)) = status c \<or> status_next (status c) (status (fst (SetInboundStream st c)))"
  by (cases "status c") (simp_all add: SetInboundStream_def cas_status_def status_next_iff)

lemma open_stream_next:
  "status (fst (open_stream h c)) = status c \<or>
   (status c \<noteq> Terminated \<and> status_next (status c) (status (fst (open_stream h c)))) \<or>
   (status c = Terminated \<and> status (fst (open_stream h c)) = Terminated)"
  by (cases "status c") (simp_all add: open_stream_def cas_status_def status_next_iff split: sum.splits)

lemma checkOutboundStream_next:
  "status (fst (checkOutboundStream N h c)) = status c \<or>
   status_next (status c) (status (fst (checkOutboundStream N h c)))"
proof (cases "he_connected h")
  case True
  then show ?thesis using open_stream_next [of h c]
    by (auto simp: checkOutboundStream_def case_prod_unfold)
next
  case False
  obtain c1 a1 where c1: "resetInboundStream c = (c1, a1)" by fastforce
  obtain c2 a2 where c2: "resetOutboundStream c1 = (c2, a2)" by fastforce
  have "status c2 = status c"
    using reset_streams_fields [of c] reset_streams_fields [of c1] c1 c2 by simp
  with False c1 c2 open_stream_next [of h "c2\<lparr>signatureSent := False\<rparr>"] show ?thesis
    by (auto simp: checkOutboundStream_def case_prod_unfold split: option.splits)
qed

lemma handle_frame_next:
  assumes "handle_frame C N chainId f c = ok (c', acts)"
  shows "status c' = status c \<or> status_next (status c) (status c')"
proof (cases "frm_kind f = FSignature")
  case True
  with assms have "handleSignature C N chainId (frm_data f) c = ok (c', acts)"
    by (simp add: handle_frame_def frame_kind_defs)
  from handleSignature_returns [OF this] show ?thesis
    by (cases "status c") (auto simp: status_next_iff dest: arg_cong [of _ _ fst])
next
  case False
  with assms have "status c' = status c"
    by (auto simp: handle_frame_def Let_def handlePeers_def confirmationReceived_def addToQueue_def
          and_then_Inr_iff split: if_splits option.splits)
  then show ?thesis by simp
qed

lemma receive_frame_next:
  assumes "receive_frame C N chainId f c = ok (c', acts)"
  shows "status c' = status c \<or> status_next (status c) (status c')"
proof -
  from assms obtain c1 b acts' where 1: "spam_filter (frm_msgId f) c = ok (c1, b)"
    and 2: "(if b then handle_frame C N chainId f c1 else ok (c1, [])) = ok (c', acts')"
    by (rule receive_frame_ok)
  from 2 handle_frame_next [of C N chainId f c1 c' acts'] spam_filter_fields(3) [OF 1] show ?thesis
    by (auto split: if_splits)
qed

lemma recv_step_next:
  assumes "recv_step C N chainId res (pc, c) = ok (pc', c', acts)"
  shows "status c' = status c \<or> status_next (status c) (status c')"
  using assms receive_frame_next [of C N chainId _ c]
  by (auto simp: recv_step_def resetInboundStream_def and_then_Inr_iff
      split: recv_pc.splits if_splits option.splits sum.splits fault.splits)

lemma send_write_status: "status (fst (snd (send_write h l c))) = status c"
  using reset_streams_fields(4)
  by (auto simp: send_write_def send_failed_def Let_def build_frame_def addMsgIdToConfirm_def
      removeMsgIdFromConfirm_def addToQueue_def resetOutboundStream_def split: option.splits prod.splits)

lemma send_step_next:
  assumes "send_step N h (l, c) = ok (l', c', acts)"
  shows "status c' = status c \<or> status_next (status c) (status c')"
proof (cases "sl_pc l")
  case STop
  with assms checkOutboundStream_next [of N h c] show ?thesis
    by (auto simp: send_step_def send_top_def Let_def split: if_splits prod.splits option.splits)
next
  case SSend
  with assms have "send_write h l c = (l', c', acts)" by (simp add: send_step_def)
  with send_write_status [of h l c] show ?thesis by simp
qed (use assms in \<open>auto simp: send_step_def send_dequeue_def split: option.splits sum.splits if_splits prod.splits\<close>)

lemma TrySetPeerPublicKey_next:
  assumes "TrySetPeerPublicKey C key c = ok (c', acts, b)"
  shows "status c' = status c \<or> status_next (status c) (status c')"
  using assms handshake_done_next [of "c\<lparr>PeerPublicKey := key\<rparr>"]
  by (auto simp: TrySetPeerPublicKey_def resetInboundStream_def
      split: if_splits sum.splits fault.splits option.splits)

lemma Terminate_status [simp]: "status (fst (Terminate r c)) = Terminated"
  by (simp add: Terminate_def Let_def resetInboundStream_def resetOutboundStream_def split: option.splits)

lemma conn_step_next:
  "status (cs_conn (fst (conn_step C N chainId s e))) = status (cs_conn s) \<or>
   status_next (status (cs_conn s)) (status (cs_conn (fst (conn_step C N chainId s e))))"
proof (cases e)
  case (EvRecv res)
  then show ?thesis using recv_step_next [of C N chainId res "cs_recv s" "cs_conn s"]
    by (auto simp: conn_step_def split: sum.splits)
next
  case (EvSend h)
  then show ?thesis using send_step_next [of N h "cs_send s" "cs_conn s"]
    by (auto simp: conn_step_def split: sum.splits)
next
  case (EvSetInbound st)
  then show ?thesis using SetInboundStream_next [of st "cs_conn s"]
    by (auto simp: conn_step_def split: prod.splits)
next
  case (EvTrySetKey k)
  then show ?thesis using TrySetPeerPublicKey_next [of C k "cs_conn s"]
    by (auto simp: conn_step_def split: sum.splits)
next
  case (EvTerminate r)
  then show ?thesis by (simp add: conn_step_def case_prod_unfold status_next_iff Let_def)
next
  case (EvTerminateEnd)
  then show ?thesis by (auto simp: conn_step_def Let_def Terminate_end_def split: option.splits if_splits)
qed (auto simp: conn_step_def Let_def Send_def addToQueue_def SetSignature_conn_def SetPeerAddress_def
      BanPeer_conn_def RemoveFromBanList_conn_def split: sum.splits)

interpretation terminated: invariant_machine "conn_step C N chainId" "\<lambda>s. status (cs_conn s) = Terminated"
  for C N chainId
proof
  fix s :: conn_sys and e assume "status (cs_conn s) = Terminated"
  with conn_step_next [of C N chainId s e]
  show "status (cs_conn (fst (conn_step C N chainId s e))) = Terminated"
    by (auto simp: status_next_iff)
qed

section \<open>The key\<close>

lemma send_step_key:
  assumes "send_step N h (l, c) = ok (l', c', acts)"
  shows "PeerPublicKey c' = PeerPublicKey c"
proof -
  have reset [simp]: "PeerPublicKey (fst (resetOutboundStream d)) = PeerPublicKey d" for d
    by (simp add: resetOutboundStream_def split: option.splits)
  have open_key [simp]: "PeerPublicKey (fst (open_stream h d)) = PeerPublicKey d" for d
    by (simp add: open_stream_def cas_status_def split: sum.splits)
  have chk: "PeerPublicKey (fst (checkOutboundStream N h c)) = PeerPublicKey c"
    by (simp add: checkOutboundStream_def case_prod_unfold split: option.splits)
  have wr: "PeerPublicKey (fst (snd (send_write h l c))) = PeerPublicKey c"
    by (auto simp: send_write_def send_failed_def Let_def build_frame_def addMsgIdToConfirm_def
        removeMsgIdFromConfirm_def addToQueue_def resetOutboundStream_def split: option.splits prod.splits)
  show ?thesis
    using assms chk wr
    by (cases "sl_pc l")
       (auto simp: send_step_def send_top_def send_dequeue_def Let_def
          split: if_splits prod.splits option.splits sum.splits)
qed

lemma recv_step_key:
  assumes "recv_step C N chainId res (pc, c) = ok (pc', c', acts)" and "PeerPublicKey c \<noteq> []"
  shows "PeerPublicKey c' = PeerPublicKey c"
  using assms
  by (cases pc; cases res)
     (auto simp: recv_step_def resetInboundStream_def and_then_Inr_iff validatePublicKey_def Let_def
        split: if_splits option.splits fault.splits dest!: receive_frame_key)

lemma conn_step_key:
  assumes "PeerPublicKey (cs_conn s) \<noteq> []"
  shows "PeerPublicKey (cs_conn (fst (conn_step C N chainId s e))) = PeerPublicKey (cs_conn s)"
proof (cases e)
  case (EvRecv res)
  then show ?thesis using assms recv_step_key [of C N chainId res "cs_recv s" "cs_conn s"]
    by (auto simp: conn_step_def split: sum.splits)
next
  case (EvSend h)
  then show ?thesis using send_step_key [of N h "cs_send s" "cs_conn s"]
    by (auto simp: conn_step_def split: sum.splits)
next
  case (EvSetInbound st)
  then show ?thesis by (simp add: conn_step_def SetInboundStream_def cas_status_def Let_def)
next
  case (EvTrySetKey k)
  then show ?thesis
    using assms
    by (auto simp: conn_step_def TrySetPeerPublicKey_def Let_def resetInboundStream_def
        split: sum.splits if_splits option.splits fault.splits)
next
  case (EvTerminate r)
  then show ?thesis
    by (simp add: conn_step_def Terminate_def resetInboundStream_def resetOutboundStream_def Let_def
        split: option.splits)
next
  case (EvTerminateEnd)
  then show ?thesis by (auto simp: conn_step_def Let_def Terminate_end_def split: option.splits if_splits)
qed (auto simp: conn_step_def Let_def Send_def addToQueue_def SetSignature_conn_def SetPeerAddress_def
      BanPeer_conn_def RemoveFromBanList_conn_def split: sum.splits)

interpretation final_key: invariant_machine "conn_step C N chainId"
    "\<lambda>s. key \<noteq> [] \<and> PeerPublicKey (cs_conn s) = key" for C N chainId key
  by unfold_locales (auto simp: conn_step_key)

section \<open>Custody of a consensus message\<close>

text \<open>A consensus message is queued or in the send cycle's hand.\<close>

definition queued :: "message_envelop \<Rightarrow> connection \<Rightarrow> bool" where
  "queued m c \<longleftrightarrow> VEnvelop m \<in> set (mq_list (messageQueue c))"

definition in_hand :: "message_envelop \<Rightarrow> send_local \<Rightarrow> bool" where
  "in_hand m l \<longleftrightarrow> msgToSend l = env_data m \<and> msgKind l = env_kind m \<and> msgId l = env_msgId m"

definition in_custody :: "message_envelop \<Rightarrow> conn_sys \<Rightarrow> bool" where
  "in_custody m s \<longleftrightarrow>
     env_kind m = KConsensus \<and> env_data m \<noteq> None \<and> (queued m (cs_conn s) \<or> in_hand m (cs_send s))"

text \<open>
  An attempt to send fails without a stream or with a write error; one that fails past the time limit
  gives up everything the connection holds.
\<close>

definition attempt_fails :: "host_env \<Rightarrow> send_local \<Rightarrow> connection \<Rightarrow> bool" where
  "attempt_fails h l c \<longleftrightarrow> outboundStream c = None \<or> build_frame l c \<noteq> None \<and> he_write h \<noteq> None"

definition gives_up_at :: "conn_sys \<Rightarrow> conn_event \<Rightarrow> bool" where
  "gives_up_at s e \<longleftrightarrow>
     (case e of
        EvSend h \<Rightarrow> sl_pc (cs_send s) = SSend \<and> attempt_fails h (cs_send s) (cs_conn s) \<and>
          disconnectThreshold \<le> time_sub (he_now h) (lastSuccess (cs_send s))
      | _ \<Rightarrow> False)"

text \<open>
  The two ways the message may leave: the send cycle has it in hand, with a stream, and finds its
  confirmation, or the cycle gives up.
\<close>

definition may_release :: "message_envelop \<Rightarrow> conn_sys \<Rightarrow> conn_event \<Rightarrow> bool" where
  "may_release m s e \<longleftrightarrow>
     (\<exists>h. e = EvSend h) \<and> sl_pc (cs_send s) = SSend \<and> in_hand m (cs_send s) \<and>
       outboundStream (cs_conn s) \<noteq> None \<and> confirmReceived (cs_conn s) (env_msgId m) = Some True \<or>
     gives_up_at s e"

lemma build_frame_custody:
  assumes "build_frame l c = Some (f, c1)"
  shows "messageQueue c1 = messageQueue c"
  using assms
  by (auto simp: build_frame_def Let_def addMsgIdToConfirm_def split: if_splits prod.splits)

lemma build_frame_confirmed:
  assumes "build_frame l c = None"
  shows "msgKind l = KConsensus \<and> confirmReceived c (msgId l) = Some True"
  using assms
  by (auto simp: build_frame_def Let_def checkConfirmation_def split: if_splits option.splits)

lemma build_frame_attempts [simp]: "build_frame (l\<lparr>attempts := n\<rparr>) c = build_frame l c"
  by (simp add: build_frame_def)

lemma send_failed_custody:
  assumes "time_sub (he_now h) (lastSuccess l) < disconnectThreshold"
    and "send_failed h l c = (l', c')"
  shows "c' = c \<and> in_hand m l' = in_hand m l"
  using assms by (auto simp: send_failed_def in_hand_def)

lemma send_write_custody:
  assumes "env_kind m = KConsensus" and "queued m c \<or> in_hand m l"
    and "send_write h l c = (l', c', acts)"
  shows "(queued m c' \<or> in_hand m l') \<or>
    in_hand m l \<and> outboundStream c \<noteq> None \<and> confirmReceived c (env_msgId m) = Some True \<or>
    attempt_fails h l c \<and> disconnectThreshold \<le> time_sub (he_now h) (lastSuccess l)"
proof -
  let ?l1 = "l\<lparr>attempts := attempts l + 1\<rparr>"
  have hand: "in_hand m ?l1 = in_hand m l" by (simp add: in_hand_def)
  have kept: "in_hand m l' = in_hand m l \<and> d' = d"
    if "send_failed h ?l1 d = (l', d')" "\<not> disconnectThreshold \<le> time_sub (he_now h) (lastSuccess l)" for d d' l'
    using send_failed_custody [OF _ that(1), of m] that(2) hand by simp
  consider (no_stream) "outboundStream c = None"
    | (confirmed) s where "outboundStream c = Some s" "build_frame l c = None"
    | (written) s f c1 where "outboundStream c = Some s" "build_frame l c = Some (f, c1)" "he_write h = None"
    | (failed) s f c1 e where "outboundStream c = Some s" "build_frame l c = Some (f, c1)" "he_write h = Some e"
    by (metis option.exhaust prod.exhaust)
  then show ?thesis
  proof cases
    case no_stream
    obtain l2 c2 where sf: "send_failed h ?l1 c = (l2, c2)" by fastforce
    with no_stream assms(3) have "l' = l2" "c' = c2" by (simp_all add: send_write_def Let_def)
    with kept [OF sf] assms(2) no_stream show ?thesis by (auto simp: attempt_fails_def)
  next
    case confirmed
    with assms(3) have "messageQueue c' = messageQueue c"
      by (auto simp: send_write_def Let_def removeMsgIdFromConfirm_def)
    with assms(2) build_frame_confirmed [OF confirmed(2)] confirmed(1) show ?thesis
      by (auto simp: queued_def in_hand_def)
  next
    case written
    with assms(3) have c': "c' = (if msgKind l = KConsensus
        then addToQueue (NewEnvelopWithId (msgToSend l) (msgKind l) (msgId l)) c1 else c1)"
      by (simp add: send_write_def Let_def split: if_splits)
    have "in_hand m l \<Longrightarrow> NewEnvelopWithId (msgToSend l) (msgKind l) (msgId l) = m"
      by (simp add: in_hand_def NewEnvelopWithId_def)
    with assms(1,2) c' build_frame_custody [OF written(2)] show ?thesis
      by (auto simp: queued_def addToQueue_def MQ_Enqueue_def in_hand_def)
  next
    case failed
    obtain c2 a2 where c2: "resetOutboundStream c1 = (c2, a2)" by fastforce
    obtain l3 c3 where sf: "send_failed h ?l1 c2 = (l3, c3)" by fastforce
    have "l' = l3" "c' = c3" using failed assms(3) c2 sf by (simp_all add: send_write_def Let_def)
    moreover have "messageQueue c2 = messageQueue c"
      using reset_streams_fields(2) [of c1] c2 build_frame_custody [OF failed(2)] by simp
    ultimately show ?thesis
      using kept [OF sf] assms(2) failed(2,3) by (auto simp: queued_def attempt_fails_def)
  qed
qed

lemma checkOutboundStream_queue:
  "messageQueue (fst (checkOutboundStream N h c)) = messageQueue c"
proof -
  have [simp]: "messageQueue (fst (open_stream h d)) = messageQueue d" for d
    by (simp add: open_stream_def cas_status_def split: sum.splits)
  show ?thesis by (simp add: checkOutboundStream_def case_prod_unfold split: option.splits)
qed

lemma send_step_custody:
  assumes "env_kind m = KConsensus" and "env_data m \<noteq> None" and "queued m c \<or> in_hand m l"
    and "hand_ok l" and "send_step N h (l, c) = ok (l', c', acts)"
  shows "(queued m c' \<or> in_hand m l') \<or>
    sl_pc l = SSend \<and>
      (in_hand m l \<and> outboundStream c \<noteq> None \<and> confirmReceived c (env_msgId m) = Some True \<or>
       attempt_fails h l c \<and> disconnectThreshold \<le> time_sub (he_now h) (lastSuccess l))"
proof (cases "sl_pc l")
  case STop
  obtain c1 a1 err where chk: "checkOutboundStream N h c = (c1, a1, err)" by (metis prod_cases3)
  with checkOutboundStream_queue [of N h c] have mq: "messageQueue c1 = messageQueue c" by simp
  have "send_top N h l c = (l', c', acts)" using STop assms(5) by (simp add: send_step_def)
  then have "msgToSend l' = msgToSend l \<and> msgKind l' = msgKind l \<and> msgId l' = msgId l \<and>
      messageQueue c' = messageQueue c"
    using chk mq by (cases err) (auto simp: send_top_def Let_def split: if_splits)
  then show ?thesis using assms(3) by (simp add: queued_def in_hand_def)
next
  case SDequeue
  with assms show ?thesis
    by (auto simp: send_step_def send_dequeue_def MQ_DequeueOrWait_def hand_ok_def queued_def in_hand_def
        split: list.splits list_value.splits if_splits)
next
  case SSend
  with assms send_write_custody [OF assms(1,3), of h l' c' acts] show ?thesis
    by (auto simp: send_step_def)
qed (use assms in \<open>auto simp: send_step_def queued_def in_hand_def\<close>)

lemma recv_step_queue:
  assumes "recv_step C N chainId res (pc, c) = ok (pc', c', acts)" and "queued m c"
  shows "queued m c'"
proof -
  have hs: "messageQueue d' = messageQueue d"
    if "handleSignature C N chainId data d = ok (d', a)" for data d d' a
    using handleSignature_returns [OF that]
    by (auto simp: handshake_done_def cas_status_def dest: arg_cong [of _ _ fst])
  have hf: "queued m d'" if "handle_frame C N chainId f d = ok (d', a)" "queued m d" for f d d' a
    using that hs
    by (auto simp: handle_frame_def Let_def handlePeers_def confirmationReceived_def addToQueue_def
        MQ_Enqueue_def queued_def and_then_Inr_iff split: if_splits option.splits)
  have rf: "queued m d'" if "receive_frame C N chainId f d = ok (d', a)" "queued m d" for f d d' a
  proof -
    from that(1) obtain c1 b acts' where 1: "spam_filter (frm_msgId f) d = ok (c1, b)"
      and 2: "(if b then handle_frame C N chainId f c1 else ok (c1, [])) = ok (d', acts')"
      by (rule receive_frame_ok)
    from spam_filter_fields(6) [OF 1] that(2) have "queued m c1" by (simp add: queued_def)
    with 2 hf [of f c1 d' acts'] show ?thesis by (auto split: if_splits)
  qed
  show ?thesis
    using assms rf
    by (cases pc; cases res)
       (auto simp: recv_step_def resetInboundStream_def queued_def and_then_Inr_iff
          split: if_splits option.splits fault.splits)
qed

lemma reset_queued [simp]:
  "queued m (fst (resetInboundStream c)) = queued m c"
  "queued m (fst (resetOutboundStream c)) = queued m c"
  by (simp_all add: queued_def)

lemma Terminate_queued: "queued m c \<Longrightarrow> queued m (fst (Terminate r c))"
  by (simp add: Terminate_def Let_def case_prod_unfold) (simp add: queued_def MQ_Enqueue_def)

lemma other_step_queue:
  assumes "queued m (cs_conn s)" and "\<forall>h. e \<noteq> EvSend h"
  shows "queued m (cs_conn (fst (conn_step C N chainId s e)))"
proof (cases e)
  case (EvRecv res)
  then show ?thesis using assms(1) recv_step_queue [of C N chainId res "cs_recv s" "cs_conn s"]
    by (auto simp: conn_step_def split: sum.splits)
next
  case (EvTrySetKey k)
  then show ?thesis using assms(1)
    by (auto simp: conn_step_def TrySetPeerPublicKey_def queued_def handshake_done_def cas_status_def
        resetInboundStream_def Let_def split: sum.splits if_splits option.splits fault.splits)
next
  case (EvTerminate r)
  then show ?thesis using assms(1) Terminate_queued [of m "cs_conn s" r]
    by (simp add: conn_step_def Let_def case_prod_unfold)
qed (use assms in \<open>auto simp: conn_step_def Let_def queued_def Send_def addToQueue_def MQ_Enqueue_def
      SetSignature_conn_def SetPeerAddress_def BanPeer_conn_def RemoveFromBanList_conn_def
      SetInboundStream_def cas_status_def Terminate_end_def split: sum.splits\<close>)

lemma other_step_send: "\<forall>h. e \<noteq> EvSend h \<Longrightarrow> cs_send (fst (conn_step C N chainId s e)) = cs_send s"
  by (cases e) (auto simp: conn_step_def Let_def Terminate_end_def split: sum.splits prod.splits)

interpretation custody: unless_machine "conn_step C N chainId" "\<lambda>s. backoffs_ok (cs_send s) \<and> hand_ok (cs_send s)"
    "in_custody m" "may_release m" for C N chainId m
proof
  fix s :: conn_sys and e assume inv: "backoffs_ok (cs_send s) \<and> hand_ok (cs_send s)"
  show "backoffs_ok (cs_send (fst (conn_step C N chainId s e))) \<and>
      hand_ok (cs_send (fst (conn_step C N chainId s e)))"
    using inv send_step_local [of N _ "cs_send s" "cs_conn s"] other_step_send [of e C N chainId s]
    by (cases e) (auto simp: conn_step_def Let_def split: sum.splits)
  assume keeps: "in_custody m s"
  show "in_custody m (fst (conn_step C N chainId s e)) \<or> may_release m s e"
  proof (cases "\<exists>h. e = EvSend h")
    case True
    then obtain h where e: "e = EvSend h" by blast
    show ?thesis
    proof (cases "send_step N h (cs_send s, cs_conn s)")
      case (Inr x)
      then obtain l' c' acts where st: "send_step N h (cs_send s, cs_conn s) = ok (l', c', acts)"
        by (cases x) auto
      with send_step_custody [OF _ _ _ _ st, of m] keeps inv e show ?thesis
        by (auto simp: conn_step_def in_custody_def may_release_def gives_up_at_def)
    qed (use keeps e in \<open>simp add: conn_step_def\<close>)
  next
    case False
    with keeps other_step_queue [of m s e C N chainId] other_step_send [of e C N chainId s] show ?thesis
      by (auto simp: in_custody_def)
  qed
qed

section \<open>Ending\<close>

text \<open>The steps of its own that each cycle of a terminated connection still has to take.\<close>

definition recv_left :: "recv_pc \<Rightarrow> nat" where
  "recv_left pc = (case pc of RReading _ \<Rightarrow> 2 | RTop \<Rightarrow> 1 | RDone \<Rightarrow> 0)"

definition send_left :: "send_pc \<Rightarrow> nat" where
  "send_left pc = (case pc of SDequeue \<Rightarrow> 3 | SStart \<Rightarrow> 2 | SSend \<Rightarrow> 2 | STop \<Rightarrow> 1 | SDone \<Rightarrow> 0)"

fun is_recv :: "conn_event \<Rightarrow> bool" where
  "is_recv (EvRecv res) = True"
| "is_recv e = False"

fun is_send :: "conn_event \<Rightarrow> bool" where
  "is_send (EvSend h) = True"
| "is_send e = False"

text \<open>A cycle that has ended has closed its channel; the queue holds envelopes.\<close>

definition channels_ok :: "conn_sys \<Rightarrow> bool" where
  "channels_ok s \<longleftrightarrow> mq_typed (messageQueue (cs_conn s)) \<and>
     (cs_recv s = RDone \<longrightarrow> lifecycleFinished (cs_conn s)) \<and>
     (sl_pc (cs_send s) = SDone \<longrightarrow> sendCycleFinished (cs_conn s))"

definition more_done :: "connection \<Rightarrow> connection \<Rightarrow> bool" where
  "more_done c c' \<longleftrightarrow> (mq_typed (messageQueue c) \<longrightarrow> mq_typed (messageQueue c')) \<and>
     (lifecycleFinished c \<longrightarrow> lifecycleFinished c') \<and> (sendCycleFinished c \<longrightarrow> sendCycleFinished c')"

lemma mq_typed_simps [simp]:
  "mq_typed (MQ_Enqueue e q) = mq_typed q" "mq_typed (MQ_Clear q)"
  by (auto simp: mq_typed_def MQ_Enqueue_def MQ_Clear_def)

lemma more_done_reset [simp]:
  "more_done c (fst (resetInboundStream d)) = more_done c d"
  "more_done c (fst (resetOutboundStream d)) = more_done c d"
  by (simp_all add: resetInboundStream_def resetOutboundStream_def more_done_def split: option.splits)

lemma more_done_trans: "more_done c d \<Longrightarrow> more_done d e \<Longrightarrow> more_done c e"
  by (auto simp: more_done_def)

lemma more_done_refl [simp]: "more_done c c"
  by (simp add: more_done_def)

lemma handle_frame_more_done: "handle_frame C N chainId f c = ok (c', acts) \<Longrightarrow> more_done c c'"
proof -
  assume a: "handle_frame C N chainId f c = ok (c', acts)"
  have "more_done c c'" if "handleSignature C N chainId data c = ok (c', acts)" for data
    using handleSignature_returns [OF that]
  proof (elim disjE)
    assume "(c', acts) = resetInboundStream c"
    then have "c' = fst (resetInboundStream c)" by (metis fst_conv)
    then show ?thesis by simp
  qed (auto simp: more_done_def handshake_done_def cas_status_def)
  with a show ?thesis
    by (auto simp: handle_frame_def Let_def handlePeers_def confirmationReceived_def addToQueue_def
        and_then_Inr_iff more_done_def split: if_splits option.splits)
qed

lemma receive_frame_more_done:
  assumes "receive_frame C N chainId f c = ok (c', acts)"
  shows "more_done c c'"
proof -
  from assms obtain c1 b acts' where 1: "spam_filter (frm_msgId f) c = ok (c1, b)"
    and 2: "(if b then handle_frame C N chainId f c1 else ok (c1, [])) = ok (c', acts')"
    by (rule receive_frame_ok)
  have "more_done c c1" by (subst spam_filter_effect [OF 1]) (simp add: more_done_def)
  with 2 show ?thesis by (auto split: if_splits dest: handle_frame_more_done intro: more_done_trans)
qed

lemma recv_step_more_done:
  assumes "recv_step C N chainId res (pc, c) = ok (pc', c', acts)"
  shows "more_done c c' \<and> (pc' = RDone \<longrightarrow> pc = RDone \<or> lifecycleFinished c') \<and>
    (status c = Terminated \<longrightarrow> recv_left pc' = recv_left pc - 1)"
proof (cases "\<exists>st f. pc = RReading st \<and> res = ok f")
  case True
  with assms receive_frame_more_done [of C N chainId _ c c'] show ?thesis
    by (auto simp: recv_step_def and_then_Inr_iff recv_left_def)
next
  case False
  with assms show ?thesis
    by (cases pc; cases res)
       (auto simp: recv_step_def recv_left_def more_done_def resetInboundStream_def
          split: if_splits option.splits fault.splits)
qed

lemma checkOutboundStream_more_done: "more_done c (fst (checkOutboundStream N h c))"
proof -
  have [simp]: "more_done c (fst (open_stream h d)) = more_done c d" for d
    by (simp add: open_stream_def cas_status_def more_done_def split: sum.splits)
  have [simp]: "more_done c (d\<lparr>signatureSent := b\<rparr>) = more_done c d" for d b by (simp add: more_done_def)
  show ?thesis by (auto simp: checkOutboundStream_def case_prod_unfold split: option.splits)
qed

lemma send_write_more_done:
  assumes "send_write h l c = (l', c', acts)"
  shows "more_done c c' \<and> sl_pc l' = STop"
proof -
  have bf: "more_done c c1" if "build_frame k c = Some (f, c1)" for k f c1
    using that by (auto simp: build_frame_def Let_def addMsgIdToConfirm_def more_done_def split: if_splits prod.splits)
  have sf: "sl_pc k' = STop \<and> more_done d d'" if "send_failed h k d = (k', d')" for k d k' d'
    using that by (auto simp: send_failed_def clear_message_def more_done_def split: if_splits)
  have reset: "more_done c d" if "resetOutboundStream c1 = (d, a)" "more_done c c1" for c1 d a
    using more_done_reset(2) [of c c1] that by simp
  show ?thesis
    using assms
    by (auto simp: send_write_def Let_def clear_message_def removeMsgIdFromConfirm_def addToQueue_def
        dest!: sf bf dest: reset split: option.splits prod.splits if_splits)
       (auto simp: more_done_def dest: reset intro: more_done_trans)
qed

text \<open>While the connection is terminated, what the send cycle waits for is in the queue.\<close>

definition waits_served :: "conn_sys \<Rightarrow> bool" where
  "waits_served s \<longleftrightarrow> status (cs_conn s) = Terminated \<and>
     (sl_pc (cs_send s) = SDequeue \<longrightarrow> mq_list (messageQueue (cs_conn s)) \<noteq> [])"

lemma send_step_more_done:
  assumes "send_step N h (l, c) = ok (l', c', acts)"
  shows "more_done c c' \<and> (sl_pc l' = SDone \<longrightarrow> sl_pc l = SDone \<or> sendCycleFinished c') \<and>
    (status c = Terminated \<and> (sl_pc l = SDequeue \<longrightarrow> mq_list (messageQueue c) \<noteq> []) \<longrightarrow>
       send_left (sl_pc l') \<le> send_left (sl_pc l) - 1 \<and> sl_pc l' \<noteq> SDequeue)"
proof (cases "sl_pc l")
  case STop
  with assms checkOutboundStream_more_done [of c N h] show ?thesis
    by (auto simp: send_step_def send_top_def Let_def more_done_def send_left_def
        split: if_splits prod.splits option.splits)
next
  case SDequeue
  with assms show ?thesis
    by (auto simp: send_step_def send_dequeue_def MQ_DequeueOrWait_def more_done_def mq_typed_def send_left_def
        split: list.splits list_value.splits if_splits)
next
  case SSend
  with assms send_write_more_done [of h l c l' c' acts] show ?thesis by (auto simp: send_step_def send_left_def)
qed (use assms in \<open>auto simp: send_step_def more_done_def send_left_def\<close>)

lemma conn_step_more_done:
  "more_done (cs_conn s) (cs_conn (fst (conn_step C N chainId s e)))"
proof (cases e)
  case (EvRecv res)
  then show ?thesis using recv_step_more_done [of C N chainId res "cs_recv s" "cs_conn s"]
    by (auto simp: conn_step_def split: sum.splits)
next
  case (EvSend h)
  then show ?thesis using send_step_more_done [of N h "cs_send s" "cs_conn s"]
    by (auto simp: conn_step_def split: sum.splits)
next
  case (EvTrySetKey k)
  have "more_done c (handshake_done (c\<lparr>PeerPublicKey := k\<rparr>))" for c
    by (simp add: more_done_def handshake_done_def cas_status_def)
  moreover have "more_done c c'" if "resetInboundStream c = (c', acts)" for c c' acts
    using more_done_reset(1) [of c c] that by simp
  ultimately show ?thesis using EvTrySetKey
    by (auto simp: conn_step_def TrySetPeerPublicKey_def Let_def split: sum.splits if_splits fault.splits prod.splits)
next
  case (EvTerminate r)
  then show ?thesis
    by (simp add: conn_step_def Terminate_def Let_def case_prod_unfold) (simp add: more_done_def)
qed (auto simp: conn_step_def Let_def Send_def addToQueue_def SetSignature_conn_def SetPeerAddress_def
      BanPeer_conn_def RemoveFromBanList_conn_def SetInboundStream_def cas_status_def Terminate_end_def
      more_done_def split: sum.splits)

lemma other_step_recv: "\<not> is_recv e \<Longrightarrow> cs_recv (fst (conn_step C N chainId s e)) = cs_recv s"
  by (cases e) (auto simp: conn_step_def Let_def Terminate_end_def split: sum.splits prod.splits)

lemma not_is_send: "\<not> is_send e \<Longrightarrow> \<forall>h. e \<noteq> EvSend h"
  by auto

lemma channels_ok_step: "channels_ok s \<Longrightarrow> channels_ok (fst (conn_step C N chainId s e))"
proof -
  assume ok: "channels_ok s"
  note more = conn_step_more_done [of s C N chainId e]
  have "cs_recv (fst (conn_step C N chainId s e)) = RDone \<longrightarrow>
      lifecycleFinished (cs_conn (fst (conn_step C N chainId s e)))"
  proof (cases "is_recv e")
    case True
    then obtain res where "e = EvRecv res" by (cases e) auto
    with ok more recv_step_more_done [of C N chainId res "cs_recv s" "cs_conn s"] show ?thesis
      by (auto simp: conn_step_def channels_ok_def more_done_def split: sum.splits)
  next
    case False
    with ok more show ?thesis by (auto simp: other_step_recv channels_ok_def more_done_def)
  qed
  moreover have "sl_pc (cs_send (fst (conn_step C N chainId s e))) = SDone \<longrightarrow>
      sendCycleFinished (cs_conn (fst (conn_step C N chainId s e)))"
  proof (cases "is_send e")
    case True
    then obtain h where "e = EvSend h" by (cases e) auto
    with ok more send_step_more_done [of N h "cs_send s" "cs_conn s"] show ?thesis
      by (auto simp: conn_step_def channels_ok_def more_done_def split: sum.splits)
  next
    case False
    with ok more other_step_send [OF not_is_send [OF False]] show ?thesis
      by (auto simp: channels_ok_def more_done_def)
  qed
  ultimately show ?thesis using ok more by (auto simp: channels_ok_def more_done_def)
qed

interpretation channels: invariant_machine "conn_step C N chainId" channels_ok for C N chainId
  by unfold_locales (rule channels_ok_step)

lemma waits_served_step:
  assumes "waits_served s" and "channels_ok s" and "conn_step C N chainId s e = (s', ok acts)"
  shows "waits_served s' \<and>
    recv_left (cs_recv s') \<le> recv_left (cs_recv s) - (if is_recv e then 1 else 0) \<and>
    send_left (sl_pc (cs_send s')) \<le> send_left (sl_pc (cs_send s)) - (if is_send e then 1 else 0)"
proof -
  have over: "status (cs_conn s') = Terminated"
    using terminated.step_inv [of s C N chainId e] assms(1,3) by (simp add: waits_served_def)
  have recv: "recv_left (cs_recv s') \<le> recv_left (cs_recv s) - (if is_recv e then 1 else 0)"
  proof (cases "is_recv e")
    case True
    then obtain res where "e = EvRecv res" by (cases e) auto
    with assms(1,3) recv_step_more_done [of C N chainId res "cs_recv s" "cs_conn s"] show ?thesis
      by (auto simp: conn_step_def waits_served_def split: sum.splits)
  qed (use other_step_recv [of e C N chainId s] assms(3) in simp)
  show ?thesis
  proof (cases "is_send e")
    case True
    then obtain h where "e = EvSend h" by (cases e) auto
    with assms(1,3) send_step_more_done [of N h "cs_send s" "cs_conn s"] over recv show ?thesis
      by (auto simp: conn_step_def waits_served_def split: sum.splits)
  next
    case False
    note other = not_is_send [OF False]
    have send: "cs_send s' = cs_send s" using other_step_send [OF other, of C N chainId s] assms(3) by simp
    have "mq_list (messageQueue (cs_conn s')) \<noteq> []" if ne: "mq_list (messageQueue (cs_conn s)) \<noteq> []"
    proof -
      from ne assms(2) obtain m where "queued m (cs_conn s)"
        by (cases "mq_list (messageQueue (cs_conn s))") (auto simp: channels_ok_def mq_typed_def queued_def)
      from other_step_queue [OF this other, of C N chainId] assms(3) show ?thesis by (auto simp: queued_def)
    qed
    with assms(1) over recv send False show ?thesis by (auto simp: waits_served_def)
  qed
qed

lemma ending_run:
  assumes "waits_served s" and "channels_ok s"
    and "\<forall>out \<in> set (snd (run (conn_step C N chainId) s es)). \<exists>acts. out = ok acts"
  shows "let t = fst (run (conn_step C N chainId) s es) in
    recv_left (cs_recv t) \<le> recv_left (cs_recv s) - length (filter is_recv es) \<and>
    send_left (sl_pc (cs_send t)) \<le> send_left (sl_pc (cs_send s)) - length (filter is_send es)"
  using assms
proof (induction es arbitrary: s)
  case (Cons e es)
  obtain s' out where st: "conn_step C N chainId s e = (s', out)" by fastforce
  with Cons.prems(3) obtain acts where out: "out = ok acts"
    and rest: "\<forall>out \<in> set (snd (run (conn_step C N chainId) s' es)). \<exists>acts. out = ok acts"
    by (auto simp: run_Cons)
  note step = waits_served_step [OF Cons.prems(1,2) st [unfolded out]]
  have "channels_ok s'" using channels_ok_step [OF Cons.prems(2), of C N chainId e] st by simp
  from Cons.IH [OF conjunct1 [OF step] this rest] step st show ?case
    by (auto simp: run_Cons Let_def)
qed (simp add: Let_def)

lemma left_bounds: "recv_left pc \<le> 2" "send_left spc \<le> 3" "recv_left pc = 0 \<longleftrightarrow> pc = RDone" "send_left spc = 0 \<longleftrightarrow> spc = SDone"
  by (simp_all add: recv_left_def send_left_def split: recv_pc.splits send_pc.splits)

section \<open>Properties\<close>

text \<open>
  The status follows its graph: any step of any goroutine leaves it alone or takes one transition of
  \<open>status_next\<close> (a stream opens or is renewed, a key becomes known, the connection is terminated).
\<close>
theorem status_moves_along_graph:
  "let t = status (cs_conn s); t' = status (cs_conn (fst (conn_step C N chainId s e))) in
   t' = t \<or> status_next t t'"
  using conn_step_next [of C N chainId s e] by (simp add: Let_def)

text \<open>
  Termination is final: after \<open>Terminate\<close> no interleaving of the goroutines brings the connection back.
\<close>
theorem terminated_is_final:
  assumes "status (cs_conn s) = Terminated"
  shows "status (cs_conn (fst (run (conn_step C N chainId) s es))) = Terminated \<and>
    \<not> IsActive (cs_conn (fst (run (conn_step C N chainId) s es)))"
  using terminated.run_inv [of s C N chainId es] assms by (simp add: IsActive_def)

lemma terminated_is_final_witness:
  "\<not> IsActive (cs_conn (fst (run (conn_step toy_crypto toy_net 200)
      (conn_start 0 (fst (Terminate 9 (conn_init [1] ''p'' None 0))))
      [EvSetInbound sample_stream, EvSend sample_host, EvSend sample_host])))"
  using terminated_is_final [of "conn_start 0 (fst (Terminate 9 (conn_init [1] ''p'' None 0)))"]
  by (simp add: conn_start_def)

text \<open>
  C17: the peer's key, once set by a signature or by \<open>TrySetPeerPublicKey\<close>, is never replaced, whatever the
  goroutines of the connection do and in whatever order.
\<close>
theorem key_is_final:
  assumes "PeerPublicKey (cs_conn s) \<noteq> []"
  shows "PeerPublicKey (cs_conn (fst (run (conn_step C N chainId) s es))) = PeerPublicKey (cs_conn s)"
  using final_key.run_inv [of "PeerPublicKey (cs_conn s)" s C N chainId es] assms by simp

lemma key_is_final_witness:
  "PeerPublicKey (cs_conn (fst (run (conn_step toy_crypto toy_net 200)
      (conn_start 0 ((conn_init [1, 2] ''p'' None 0)\<lparr>PeerPublicKey := ''03''\<rparr>))
      [EvTrySetKey ''0207'', EvRecv (ok sample_signature_frame), EvRecv (ok sample_signature_frame)]))) = ''03''"
  by (subst key_is_final) (simp_all add: conn_start_def)

text \<open>
  C7: a consensus message is not lost before it is confirmed: from a queue that holds it, in every interleaving of
  the goroutines it stays queued or in the send cycle's hand, unless at some step the send cycle had it
  in hand and found a confirmation recorded for its id, or an attempt to send failed (without a stream,
  or with a write error) past the two-minute limit. A successful write, however late, keeps it.
\<close>
theorem consensus_kept_until_confirmed:
  assumes "env_kind m = KConsensus" and "env_data m \<noteq> None" and "queued m c"
  shows "in_custody m (fst (run (conn_step C N chainId) (conn_start now c) es)) \<or>
    (\<exists>n < length es.
       may_release m (fst (run (conn_step C N chainId) (conn_start now c) (take n es))) (es ! n))"
  by (rule custody.run_unless) (use assms in \<open>simp_all add: conn_start_def in_custody_def send_init_ok\<close>)

definition sample_consensus :: message_envelop where
  "sample_consensus = NewEnvelopWithId (Some [7]) KConsensus 5"

lemma consensus_kept_until_confirmed_witness:
  "let es = replicate 9 (EvSend sample_host);
       start = conn_start 0 (Send sample_consensus (conn_init [1] ''p'' None 0)) in
   in_custody sample_consensus (fst (run (conn_step toy_crypto toy_net 200) start es)) \<or>
    (\<exists>n < length es.
       may_release sample_consensus (fst (run (conn_step toy_crypto toy_net 200) start (take n es))) (es ! n))"
  unfolding Let_def
  by (rule consensus_kept_until_confirmed)
     (simp_all add: sample_consensus_def Send_def addToQueue_def queued_def MQ_Enqueue_def NewMessageQueue_def)

text \<open>
  A confirmed consensus message is not sent again: when the confirmation is there, the next attempt writes
  nothing, forgets the id and leaves the queue as it is.
\<close>
theorem confirmed_message_not_resent:
  assumes "sl_pc l = SSend" and "msgKind l = KConsensus" and "outboundStream c = Some s"
    and "confirmReceived c (msgId l) = Some True"
  shows "\<exists>l' c'. send_step N h (l, c) = ok (l', c', []) \<and> sl_pc l' = STop \<and> msgToSend l' = None \<and>
    messageQueue c' = messageQueue c \<and> confirmReceived c' (msgId l) = None"
  using assms
  by (simp add: send_step_def send_write_def build_frame_def checkConfirmation_def clear_message_def
      removeMsgIdFromConfirm_def)

lemma confirmed_message_not_resent_witness:
  "\<exists>l' c'. send_step toy_net sample_host
      ((send_init 0)\<lparr>sl_pc := SSend, msgToSend := Some [7], msgKind := KConsensus, msgId := 5\<rparr>,
       (conn_init [1] ''p'' None 0)\<lparr>outboundStream := Some sample_stream, confirmReceived := [5 \<mapsto> True]\<rparr>) =
        ok (l', c', []) \<and> sl_pc l' = STop \<and> msgToSend l' = None \<and>
     messageQueue c' = NewMessageQueue \<and> confirmReceived c' 5 = None"
  using confirmed_message_not_resent
    [of "(send_init 0)\<lparr>sl_pc := SSend, msgToSend := Some [7], msgKind := KConsensus, msgId := 5\<rparr>"
      "(conn_init [1] ''p'' None 0)\<lparr>outboundStream := Some sample_stream, confirmReceived := [5 \<mapsto> True]\<rparr>"
      sample_stream toy_net sample_host]
  by (simp add: conn_init_def)

text \<open>
  C19: once \<open>Terminate\<close> has marked a connection that started with envelopes in its queue, as a new one does,
  from whatever state its goroutines have reached, each of
  its two cycles ends after at most two, respectively three, further steps of its own, whatever its
  reads, writes and dials answer and however any other steps are interleaved; then both channels
  \<open>Terminate\<close> waits for are closed and it closes the third. A step is assumed to return: a read on a
  reset stream does, a callback that needs the service's mutex may not, which is the subject of the
  theory \<open>Locks\<close>. A step that panics ends the process instead.
\<close>
theorem cycles_end_after_Terminate:
  assumes "mq_typed (messageQueue c)"
    and "s = fst (run (conn_step C N chainId) (conn_start now c) before)"
    and "run (conn_step C N chainId) (fst (conn_step C N chainId s (EvTerminate r))) after = (t, outs)"
    and "\<forall>out \<in> set outs. \<exists>acts. out = ok acts"
    and "2 \<le> length (filter is_recv after)" and "3 \<le> length (filter is_send after)"
  shows "lifecycleFinished (cs_conn t) \<and> sendCycleFinished (cs_conn t) \<and>
    peerCycleFinished (cs_conn (fst (conn_step C N chainId t EvTerminateEnd)))"
proof -
  let ?s1 = "fst (conn_step C N chainId s (EvTerminate r))"
  have "channels_ok (conn_start now c)" using assms(1) by (simp add: channels_ok_def conn_start_def send_init_def)
  then have "channels_ok s" unfolding assms(2) by (rule channels.run_inv)
  then have ok1: "channels_ok ?s1" by (rule channels_ok_step)
  have "waits_served ?s1"
    by (simp add: waits_served_def conn_step_def case_prod_unfold Let_def)
       (simp add: Terminate_def Let_def case_prod_unfold MQ_Enqueue_def)
  from ending_run [OF this ok1, of C N chainId after] assms(3-6)
    left_bounds(1) [of "cs_recv ?s1"] left_bounds(2) [of "sl_pc (cs_send ?s1)"]
  have "recv_left (cs_recv t) = 0" "send_left (sl_pc (cs_send t)) = 0" by (auto simp: Let_def)
  moreover have "channels_ok t" using channels.run_inv [OF ok1, of C N chainId after] assms(3) by simp
  ultimately show ?thesis
    by (auto simp: left_bounds channels_ok_def conn_step_def Terminate_end_def)
qed

lemma cycles_end_after_Terminate_witness:
  "let after = [EvRecv (fail StreamReset), EvSend dead_host, EvBan, EvSend dead_host, EvRecv (fail StreamReset),
         EvSetInbound sample_stream, EvSend dead_host];
       t = fst (run (conn_step toy_crypto toy_net 200)
         (fst (conn_step toy_crypto toy_net 200 (conn_start 0 (conn_init [1] ''p'' None 0)) (EvTerminate 9))) after) in
   lifecycleFinished (cs_conn t) \<and> sendCycleFinished (cs_conn t)"
proof -
  let ?c = "conn_init [1] ''p'' None 0"
  let ?after = "[EvRecv (fail StreamReset), EvSend dead_host, EvBan, EvSend dead_host, EvRecv (fail StreamReset),
         EvSetInbound sample_stream, EvSend dead_host]"
  let ?s1 = "fst (conn_step toy_crypto toy_net 200 (conn_start 0 ?c) (EvTerminate 9))"
  obtain t outs where run: "run (conn_step toy_crypto toy_net 200) ?s1 ?after = (t, outs)" by fastforce
  have typed: "mq_typed (messageQueue ?c)" by (simp add: mq_typed_def NewMessageQueue_def)
  have oks: "list_all (\<lambda>out. case out of Inl _ \<Rightarrow> False | Inr _ \<Rightarrow> True)
      (snd (run (conn_step toy_crypto toy_net 200) ?s1 ?after))"
    by code_simp
  have "\<exists>acts. out = ok acts" if "out \<in> set outs" for out
    using oks that unfolding run by (cases out) (auto simp: list_all_iff)
  then have "\<forall>out \<in> set outs. \<exists>acts. out = ok acts" by blast
  from cycles_end_after_Terminate [OF typed _ run this, of 0 "[]"] have
    "lifecycleFinished (cs_conn t) \<and> sendCycleFinished (cs_conn t)" by simp
  then show ?thesis by (simp only: Let_def run fst_conv)
qed

end
