(* ===== verification/Config.thy ===== *)
theory Config
  imports Net_Lib Utils_Crypto
begin

text \<open>
  \<^verbatim>\<open>config/config.go\<close> and the parts of \<^verbatim>\<open>host/builder.go\<close> that compute: the bootstrap list and its
  parser, the lookups over it, and the private-key file. The package variables are one state
  record, each function that takes the lock is one step on it.
\<close>

section \<open>Package state\<close>

record config_state =
  RelayAddrs :: "string list"
  RelayIds :: "string list"
  ipLookup :: bool
  ChainId :: byte

definition initial_config :: config_state where
  "initial_config = \<lparr>RelayAddrs = [], RelayIds = [], ipLookup = True, ChainId = 0\<rparr>"

text \<open>\<open>strings.Split\<close> with a one-character separator.\<close>

fun split_on :: "char \<Rightarrow> string \<Rightarrow> string list" where
  "split_on c [] = [[]]"
| "split_on c (x # xs) =
     (if x = c then [] # split_on c xs
      else (case split_on c xs of [] \<Rightarrow> [[x]] | y # ys \<Rightarrow> (x # y) # ys))"

text \<open>
  The loop over the addresses. An entry that does not parse panics, and the entries before it
  stay appended.
\<close>

fun add_addresses :: "string list \<Rightarrow> config_state \<Rightarrow> config_state \<times> unit go" where
  "add_addresses [] cfg = (cfg, ok ())"
| "add_addresses (address # rest) cfg =
     (let parts = split_on CHR ''@'' address in
      if length parts \<noteq> 2 then (cfg, panic (PanicWith (''cannot parse address: '' @ address)))
      else
        let ipParts = split_on CHR '':'' (parts ! 1) in
        if length ipParts \<noteq> 2 then (cfg, panic (PanicWith (''cannot parse address: '' @ address)))
        else
          add_addresses rest
            (cfg\<lparr>RelayAddrs := RelayAddrs cfg @ [''/ip4/'' @ ipParts ! 0 @ ''/tcp/'' @ ipParts ! 1],
                 RelayIds := RelayIds cfg @ [parts ! 0]\<rparr>))"

definition SetBootstrapAddress :: "string \<Rightarrow> config_state \<Rightarrow> config_state \<times> unit go" where
  "SetBootstrapAddress addressesString cfg =
     (if length addressesString = 0 then (cfg, ok ())
      else add_addresses (split_on CHR '','' addressesString) cfg)"

primrec all_or_panic :: "('a \<Rightarrow> go_error + 'b) \<Rightarrow> 'a list \<Rightarrow> 'b list go" where
  "all_or_panic f [] = ok []"
| "all_or_panic f (x # xs) =
     and_then (or_panic (f x)) (\<lambda>y. and_then (all_or_panic f xs) (\<lambda>ys. ok (y # ys)))"

definition GetBootstrapMultiaddrs :: "net_lib \<Rightarrow> config_state \<Rightarrow> multiaddr list go" where
  "GetBootstrapMultiaddrs L cfg = all_or_panic (NewMultiaddr L) (RelayAddrs cfg)"

definition GetBootstrapIDs :: "net_lib \<Rightarrow> config_state \<Rightarrow> peer_id list go" where
  "GetBootstrapIDs L cfg = all_or_panic (DecodeId L) (RelayIds cfg)"

text \<open>The loop of \<open>GetBootstrapIDAddresses\<close> from index \<open>i\<close>; \<open>RelayAddrs[i]\<close> may be out of range.\<close>

fun id_addresses :: "net_lib \<Rightarrow> peer_id \<Rightarrow> string list \<Rightarrow> nat \<Rightarrow> string list \<Rightarrow> multiaddr list go" where
  "id_addresses L peerID addrs i [] = ok []"
| "id_addresses L peerID addrs i (relayId # rest) =
     and_then (or_panic (DecodeId L relayId)) (\<lambda>pid.
     and_then
       (if pid = peerID then
          and_then (if i < length addrs then ok (addrs ! i) else panic IndexRange) (\<lambda>a.
          and_then (or_panic (NewMultiaddr L a)) (\<lambda>m. ok [m]))
        else ok []) (\<lambda>here.
     and_then (id_addresses L peerID addrs (Suc i) rest) (\<lambda>later. ok (here @ later))))"

definition GetBootstrapIDAddresses :: "net_lib \<Rightarrow> config_state \<Rightarrow> peer_id \<Rightarrow> multiaddr list go" where
  "GetBootstrapIDAddresses L cfg peerID = id_addresses L peerID (RelayAddrs cfg) 0 (RelayIds cfg)"

definition DisableIpLookup :: "config_state \<Rightarrow> config_state" where
  "DisableIpLookup cfg = cfg\<lparr>ipLookup := False\<rparr>"

text \<open>The external address service's answer is the argument \<open>lookup\<close>; its error panics.\<close>

definition IPLookup :: "go_error + string \<Rightarrow> string go" where
  "IPLookup lookup = or_panic lookup"

definition GetP2PExternalIP :: "config_state \<Rightarrow> go_error + string \<Rightarrow> string go" where
  "GetP2PExternalIP cfg lookup = (if \<not> ipLookup cfg then ok [] else IPLookup lookup)"

section \<open>Host builder\<close>

text \<open>
  \<open>BuildNamedHost\<close> listens on the last bootstrap address of its own id, or on the library's
  default (\<open>None\<close>) when it is no bootstrap node.
\<close>

definition listen_address :: "net_lib \<Rightarrow> config_state \<Rightarrow> peer_id \<Rightarrow> multiaddr option go" where
  "listen_address L cfg myId =
     and_then (GetBootstrapIDAddresses L cfg myId) (\<lambda>addrs.
       ok (foldl (\<lambda>_ addr. Some addr) None addrs))"

text \<open>
  What the file system refuses during one call of \<open>GetPrivateKeyForHost\<close>: an error of \<open>os.Stat\<close> other
  than that the file does not exist, and errors of \<open>os.Create\<close>, of \<open>WriteString\<close> (with the number of
  bytes that reached the file), of \<open>os.Open\<close> and of \<open>Read\<close>. The results of \<open>Sync\<close> and \<open>Close\<close> are not
  looked at.
\<close>

record file_faults =
  ff_Stat :: "go_error option"
  ff_Create :: "go_error option"
  ff_WriteString :: "(nat \<times> go_error) option"
  ff_Open :: "go_error option"
  ff_Read :: "go_error option"

definition no_faults :: file_faults where
  "no_faults = \<lparr>ff_Stat = None, ff_Create = None, ff_WriteString = None, ff_Open = None, ff_Read = None\<rparr>"

text \<open>
  \<open>GetPrivateKeyForHost\<close> over files that map paths to contents: a missing file is created with the
  hexadecimal form of a new key (\<open>fresh\<close>, the key pair generator's answer), any other is opened, read
  into a buffer of 250 bytes and decoded. Every error panics. A failed write leaves what was written.
\<close>

definition read_250 :: "string \<Rightarrow> string" where
  "read_250 content = take 250 content @ replicate (250 - length content) (CHR 0x00)"

definition create_key_file ::
    "(bytes \<Rightarrow> go_error + bytes) \<Rightarrow> go_error + bytes \<Rightarrow> file_faults \<Rightarrow> string \<Rightarrow> (string \<rightharpoonup> string) \<Rightarrow>
     (string \<rightharpoonup> string) \<times> bytes go" where
  "create_key_file marshal fresh io prvPath fs =
     (case and_then (or_panic fresh) (\<lambda>prv. and_then (or_panic (marshal prv)) (\<lambda>bs. ok (prv, bs))) of
        Inl f \<Rightarrow> (fs, Inl f)
      | Inr (prv, prvBytes) \<Rightarrow>
          let prvHex = EncodeToString prvBytes in
          (case ff_Create io of
             Some e \<Rightarrow> (fs, panic (PanicErr e))
           | None \<Rightarrow>
               (case ff_WriteString io of
                  Some (n, e) \<Rightarrow> (fs(prvPath \<mapsto> take n prvHex), panic (PanicErr e))
                | None \<Rightarrow> (fs(prvPath \<mapsto> prvHex), ok prv))))"

definition load_key_file ::
    "(bytes \<Rightarrow> go_error + bytes) \<Rightarrow> file_faults \<Rightarrow> string \<Rightarrow> (string \<rightharpoonup> string) \<Rightarrow> bytes go" where
  "load_key_file unmarshal io prvPath fs =
     (case (ff_Open io, fs prvPath) of
        (Some e, _) \<Rightarrow> panic (PanicErr e)
      | (None, None) \<Rightarrow> panic (PanicErr (ErrText ''no such file or directory''))
      | (None, Some content) \<Rightarrow>
          (case ff_Read io of
             Some e \<Rightarrow> panic (PanicErr e)
           | None \<Rightarrow>
               if content = [] then panic (PanicErr EOF)
               else (case DecodeString (read_250 content) of
                       (_, Some e) \<Rightarrow> panic (PanicErr e)
                     | (prvBytes, None) \<Rightarrow> or_panic (unmarshal prvBytes))))"

definition GetPrivateKeyForHost ::
    "(bytes \<Rightarrow> go_error + bytes) \<Rightarrow> (bytes \<Rightarrow> go_error + bytes) \<Rightarrow> go_error + bytes \<Rightarrow> file_faults \<Rightarrow>
     string \<Rightarrow> string \<Rightarrow> (string \<rightharpoonup> string) \<Rightarrow> (string \<rightharpoonup> string) \<times> bytes go" where
  "GetPrivateKeyForHost marshal unmarshal fresh io prvPathPrefix postfix fs =
     (let prvPath = prvPathPrefix @ postfix @ ''.txt'' in
      if ff_Stat io = None \<and> fs prvPath = None
      then create_key_file marshal fresh io prvPath fs
      else (fs, load_key_file unmarshal io prvPath fs))"

lemmas key_file_defs = GetPrivateKeyForHost_def create_key_file_def load_key_file_def Let_def

section \<open>The two lists stay aligned\<close>

definition aligned :: "config_state \<Rightarrow> bool" where
  "aligned cfg \<longleftrightarrow> length (RelayAddrs cfg) = length (RelayIds cfg)"

lemma aligned_add_addresses [inv_intros]: "aligned cfg \<Longrightarrow> aligned (fst (add_addresses as cfg))"
  by (induction as cfg rule: add_addresses.induct) (auto simp: aligned_def Let_def)

interpretation config: invariant_machine "\<lambda>cfg s. SetBootstrapAddress s cfg" aligned
  by unfold_locales (simp add: SetBootstrapAddress_def aligned_add_addresses)

lemma all_or_panic_length: "all_or_panic f xs = ok ys \<Longrightarrow> length ys = length xs"
  by (induction xs arbitrary: ys) (auto simp: and_then_Inr_iff)

lemma all_or_panic_panic: "all_or_panic f xs = panic p \<Longrightarrow> \<exists>e. p = PanicErr e"
  by (induction xs) (auto simp: and_then_def or_panic_def split: sum.splits)

lemma id_addresses_index:
  "i + length ids \<le> length addrs \<Longrightarrow> id_addresses L pid addrs i ids = panic p \<Longrightarrow> \<exists>e. p = PanicErr e"
proof (induction ids arbitrary: i)
  case (Cons r rest)
  from Cons.prems(1) have "Suc i + length rest \<le> length addrs" "i < length addrs" by simp_all
  with Cons.IH [of "Suc i"] Cons.prems(2) show ?case
    by (auto simp: and_then_def or_panic_def split: sum.splits if_splits)
qed simp

text \<open>
  C33: whatever bootstrap strings were set, malformed ones that panicked half-way included, the address and
  id lists have equal length: the indexed accesses in \<open>GetBootstrapIDAddresses\<close> and in the
  constructor of the peer service are in range, so the only panics left are those of the library
  parsers.
\<close>
theorem bootstrap_lists_aligned:
  fixes cmds :: "string list"
  defines "cfg \<equiv> fst (run (\<lambda>cfg s. SetBootstrapAddress s cfg) initial_config cmds)"
  shows "length (RelayAddrs cfg) = length (RelayIds cfg) \<and>
    (\<forall>L pid. GetBootstrapIDAddresses L cfg pid \<noteq> panic IndexRange) \<and>
    (\<forall>L addrs ids. GetBootstrapMultiaddrs L cfg = ok addrs \<longrightarrow> GetBootstrapIDs L cfg = ok ids \<longrightarrow>
       length addrs = length ids)"
proof -
  have "aligned initial_config" by (simp add: aligned_def initial_config_def)
  then have "aligned cfg" unfolding cfg_def by (rule config.run_inv)
  then have len: "length (RelayAddrs cfg) = length (RelayIds cfg)" by (simp add: aligned_def)
  then have "GetBootstrapIDAddresses L cfg pid \<noteq> panic IndexRange" for L pid
    using id_addresses_index [of 0 "RelayIds cfg" "RelayAddrs cfg" L pid IndexRange]
    by (auto simp: GetBootstrapIDAddresses_def)
  moreover have "length addrs = length ids"
    if "GetBootstrapMultiaddrs L cfg = ok addrs" "GetBootstrapIDs L cfg = ok ids" for L addrs ids
    using that len all_or_panic_length
    unfolding GetBootstrapMultiaddrs_def GetBootstrapIDs_def by metis
  ultimately show ?thesis using len by blast
qed

lemma bootstrap_lists_aligned_witness:
  "length (RelayAddrs (fst (run (\<lambda>cfg s. SetBootstrapAddress s cfg) initial_config [''a@b:c,d'', ''e@f:g'']))) =
   length (RelayIds (fst (run (\<lambda>cfg s. SetBootstrapAddress s cfg) initial_config [''a@b:c,d'', ''e@f:g''])))"
  using bootstrap_lists_aligned [of "[''a@b:c,d'', ''e@f:g'']"] by simp

section \<open>Parsing the bootstrap string\<close>

lemma split_on_none: "c \<notin> set xs \<Longrightarrow> split_on c xs = [xs]"
  by (induction xs) auto

lemma split_on_append: "c \<notin> set xs \<Longrightarrow> split_on c (xs @ c # ys) = xs # split_on c ys"
  by (induction xs) auto

type_synonym entry = "string \<times> string \<times> string"

definition clean :: "string \<Rightarrow> bool" where
  "clean s \<longleftrightarrow> CHR '','' \<notin> set s \<and> CHR ''@'' \<notin> set s \<and> CHR '':'' \<notin> set s"

definition entry_text :: "entry \<Rightarrow> string" where
  "entry_text e = (case e of (pid, ip, port) \<Rightarrow> pid @ ''@'' @ ip @ '':'' @ port)"

fun join_entries :: "entry list \<Rightarrow> string" where
  "join_entries [] = []"
| "join_entries [e] = entry_text e"
| "join_entries (e # es) = entry_text e @ '','' @ join_entries es"

definition entry_addr :: "entry \<Rightarrow> string" where
  "entry_addr e = (case e of (pid, ip, port) \<Rightarrow> ''/ip4/'' @ ip @ ''/tcp/'' @ port)"

definition entry_clean :: "entry \<Rightarrow> bool" where
  "entry_clean e \<longleftrightarrow> (case e of (pid, ip, port) \<Rightarrow> clean pid \<and> clean ip \<and> clean port)"

lemma split_join: "es \<noteq> [] \<Longrightarrow> list_all entry_clean es \<Longrightarrow>
    split_on CHR '','' (join_entries es) = map entry_text es"
proof (induction es rule: join_entries.induct)
  case (2 e)
  then show ?case by (cases e) (simp add: entry_clean_def entry_text_def clean_def split_on_none)
next
  case (3 e e' es)
  then have "CHR '','' \<notin> set (entry_text e)"
    by (cases e) (simp add: entry_clean_def entry_text_def clean_def)
  with 3 show ?case by (simp add: split_on_append)
qed simp

lemma add_addresses_entries:
  "list_all entry_clean es \<Longrightarrow>
   add_addresses (map entry_text es) cfg =
     (cfg\<lparr>RelayAddrs := RelayAddrs cfg @ map entry_addr es, RelayIds := RelayIds cfg @ map fst es\<rparr>, ok ())"
proof (induction es arbitrary: cfg)
  case (Cons e es)
  obtain pid ip port where e: "e = (pid, ip, port)" by (cases e)
  with Cons.prems have c: "clean pid" "clean ip" "clean port" by (simp_all add: entry_clean_def)
  have "split_on CHR ''@'' (entry_text e) = [pid, ip @ '':'' @ port]"
    using c split_on_append [of "CHR ''@''" pid] split_on_none [of "CHR ''@''" "ip @ '':'' @ port"]
    by (simp add: e entry_text_def clean_def)
  moreover have "split_on CHR '':'' (ip @ '':'' @ port) = [ip, port]"
    using c split_on_append [of "CHR '':''" ip port] split_on_none [of "CHR '':''" port]
    by (simp add: clean_def)
  ultimately show ?case
    using Cons by (simp add: e entry_addr_def Let_def)
qed simp

text \<open>
  A well-formed bootstrap string, a comma-separated list of \<open>id@ip:port\<close>, is parsed completely: the
  multiaddress texts and the ids are appended in order and no panic occurs.
\<close>
theorem SetBootstrapAddress_entries:
  assumes "es \<noteq> []" and "list_all entry_clean es"
  shows "SetBootstrapAddress (join_entries es) cfg =
    (cfg\<lparr>RelayAddrs := RelayAddrs cfg @ map entry_addr es, RelayIds := RelayIds cfg @ map fst es\<rparr>, ok ())"
proof -
  have "join_entries es \<noteq> []"
    using assms(1) by (cases es rule: join_entries.cases) (auto simp: entry_text_def split: prod.splits)
  then show ?thesis
    using split_join [OF assms] add_addresses_entries [OF assms(2)] by (simp add: SetBootstrapAddress_def)
qed

lemma SetBootstrapAddress_entries_witness:
  "RelayAddrs (fst (SetBootstrapAddress (join_entries [(''Qa'', ''1.2.3.4'', ''7070''), (''Qb'', ''h'', ''1'')])
     initial_config)) = [''/ip4/1.2.3.4/tcp/7070'', ''/ip4/h/tcp/1'']"
  by (subst SetBootstrapAddress_entries)
     (simp_all add: entry_clean_def clean_def entry_addr_def initial_config_def)

section \<open>The private-key file\<close>

lemma DecodeString_bad: "c \<in> set cs \<Longrightarrow> fromHexChar c = None \<Longrightarrow> snd (DecodeString cs) \<noteq> None"
  by (induction cs rule: DecodeString.induct) (auto split: option.splits prod.splits)

text \<open>
  A file with fewer than the 250 digits of a key never loads: it is filled up with zero bytes, which
  are no digits.
\<close>

lemma short_file_panics:
  assumes "fs prvPath = Some content" and "length content < 250"
  shows "\<exists>p. load_key_file unmarshal io prvPath fs = panic p"
proof -
  have "CHR 0x00 \<in> set (read_250 content)" using assms(2) by (simp add: read_250_def)
  moreover have "fromHexChar (CHR 0x00) = None" by (simp add: fromHexChar_def)
  ultimately have "snd (DecodeString (read_250 content)) \<noteq> None" by (rule DecodeString_bad)
  with assms(1) show ?thesis by (auto simp: load_key_file_def split: option.splits prod.splits)
qed

text \<open>
  A write of the key file that fails before its last digit panics and leaves a file that is never
  repaired: every later call panics too, whatever the file system and the key generator do.
\<close>
theorem torn_key_file:
  fixes unmarshal :: "bytes \<Rightarrow> go_error + bytes"
  assumes "fs (pre @ postfix @ ''.txt'') = None" and "marshal prv = Inr bs" and "length bs = 125"
    and "ff_Stat io = None" "ff_Create io = None" "ff_WriteString io = Some (n, e)" and "n < 250"
  defines "fs' \<equiv> fst (GetPrivateKeyForHost marshal unmarshal (Inr prv) io pre postfix fs)"
  shows "snd (GetPrivateKeyForHost marshal unmarshal (Inr prv) io pre postfix fs) = panic (PanicErr e) \<and>
    (\<exists>p. GetPrivateKeyForHost marshal unmarshal fresh io' pre postfix fs' = (fs', panic p))"
proof -
  have stored: "fs' (pre @ postfix @ ''.txt'') = Some (take n (EncodeToString bs))"
    using assms by (simp add: key_file_defs)
  then have "\<exists>p. load_key_file unmarshal io' (pre @ postfix @ ''.txt'') fs' = panic p"
    by (rule short_file_panics) (use assms(7) in simp)
  with stored have "\<exists>p. GetPrivateKeyForHost marshal unmarshal fresh io' pre postfix fs' = (fs', panic p)"
    by (simp add: GetPrivateKeyForHost_def)
  moreover have "snd (GetPrivateKeyForHost marshal unmarshal (Inr prv) io pre postfix fs) = panic (PanicErr e)"
    using assms(1-6) by (simp add: key_file_defs)
  ultimately show ?thesis by simp
qed

lemma torn_key_file_witness:
  "\<exists>p. snd (GetPrivateKeyForHost (\<lambda>k. Inr k) (\<lambda>b. Inr b) (Inl EOF) no_faults ''./prv_'' ''h1''
     (fst (GetPrivateKeyForHost (\<lambda>k. Inr k) (\<lambda>b. Inr b) (Inr (replicate 125 7))
       (no_faults\<lparr>ff_WriteString := Some (249, EOF)\<rparr>) ''./prv_'' ''h1'' Map.empty))) = panic p"
  using torn_key_file [of Map.empty "''./prv_''" "''h1''" "\<lambda>k. Inr k" "replicate 125 7"
      "replicate 125 7" "no_faults\<lparr>ff_WriteString := Some (249, EOF)\<rparr>" 249 EOF "\<lambda>b. Inr b" "Inl EOF" no_faults]
  by (auto simp: no_faults_def)

text \<open>
  The key file is only reloadable for one key size: after a first call has created the file, a second
  call returns the same key when its serialisation has 125 bytes, panics on every shorter one,
  and for a longer one unmarshals only the first 125 bytes.
\<close>
theorem private_key_reload:
  assumes "fs (pre @ postfix @ ''.txt'') = None" and "marshal prv = Inr bs" and "unmarshal bs = Inr prv"
    and "bs \<noteq> []"
  defines "fs' \<equiv> fst (GetPrivateKeyForHost marshal unmarshal (Inr prv) no_faults pre postfix fs)"
  shows "snd (GetPrivateKeyForHost marshal unmarshal (Inr prv) no_faults pre postfix fs) = ok prv \<and>
    snd (GetPrivateKeyForHost marshal unmarshal fresh no_faults pre postfix fs') =
      (if length bs = 125 then ok prv
       else if length bs < 125 then panic (PanicErr (ErrText ''invalid byte''))
       else or_panic (unmarshal (take 125 bs)))"
proof (rule conjI)
  show "snd (GetPrivateKeyForHost marshal unmarshal (Inr prv) no_faults pre postfix fs) = ok prv"
    using assms by (simp add: key_file_defs no_faults_def)
  have stored: "fs' (pre @ postfix @ ''.txt'') = Some (EncodeToString bs)"
    using assms by (simp add: key_file_defs no_faults_def)
  have ne: "EncodeToString bs \<noteq> []" using assms(4) by (cases bs) simp_all
  have padded: "read_250 (EncodeToString bs) =
      EncodeToString (take 125 bs) @ replicate (250 - 2 * length bs) (CHR 0x00)"
  proof (cases "length bs \<le> 125")
    case False
    have "EncodeToString bs = EncodeToString (take 125 bs) @ EncodeToString (drop 125 bs)"
      by (simp flip: EncodeToString_append)
    with False show ?thesis by (simp add: read_250_def)
  qed (simp add: read_250_def)
  have short: "DecodeString (replicate (250 - 2 * length bs) (CHR 0x00)) = ([], Some (ErrText ''invalid byte''))"
    if "length bs < 125"
  proof -
    have "250 - 2 * length bs = Suc (Suc (248 - 2 * length bs))" using that by linarith
    then show ?thesis by (simp add: fromHexChar_def)
  qed
  show "snd (GetPrivateKeyForHost marshal unmarshal fresh no_faults pre postfix fs') =
      (if length bs = 125 then ok prv
       else if length bs < 125 then panic (PanicErr (ErrText ''invalid byte''))
       else or_panic (unmarshal (take 125 bs)))"
    using stored ne assms(3) short
    by (auto simp: key_file_defs no_faults_def padded DecodeString_append)
qed

lemma private_key_reload_witness:
  "snd (GetPrivateKeyForHost (\<lambda>k. Inr k) (\<lambda>b. Inr b) (Inl EOF) no_faults ''./prv_'' ''h1''
     (fst (GetPrivateKeyForHost (\<lambda>k. Inr k) (\<lambda>b. Inr b) (Inr (replicate 125 7)) no_faults ''./prv_'' ''h1'' Map.empty))) =
     ok (replicate 125 7)"
  using private_key_reload [of Map.empty "''./prv_''" "''h1''" "\<lambda>k. Inr k" "replicate 125 7"
      "replicate 125 7" "\<lambda>b. Inr b" "Inl EOF"] by simp

end
