(* ===== verification/Protocol_Match.thy ===== *)
theory Protocol_Match
  imports Prelude
begin

text \<open>
  The protocol string of \<^verbatim>\<open>peer_service/peer_service.go\<close>: \<open>fmt.Sprintf\<close> and \<open>fmt.Sscanf\<close> for the
  format \<open>%s %d\<close>, and the matcher that decides which inbound streams are accepted. Text is a
  sequence of bytes; the white space beyond ASCII that \<open>fmt\<close> knows is treated as ordinary text.
\<close>

section \<open>\<open>Sprintf\<close>\<close>

definition digit_char :: "nat \<Rightarrow> char" where
  "digit_char d = char_of (48 + d)"

fun show_nat :: "nat \<Rightarrow> string" where
  "show_nat n = (if n < 10 then [digit_char n] else show_nat (n div 10) @ [digit_char (n mod 10)])"

declare show_nat.simps [simp del]

definition show_int :: "int \<Rightarrow> string" where
  "show_int i = (if i < 0 then ''-'' @ show_nat (nat (- i)) else show_nat (nat i))"

text \<open>\<open>fmt.Sprintf(protocolFormat, networkName, version)\<close>\<close>

definition protocol_string :: "string \<Rightarrow> int \<Rightarrow> string" where
  "protocol_string network version = network @ '' '' @ show_int version"

section \<open>\<open>Sscanf\<close>\<close>

definition newline :: char where
  "newline = CHR 0x0A"

definition is_space :: "char \<Rightarrow> bool" where
  "is_space c \<longleftrightarrow> c \<in> {CHR '' '', CHR 0x09, newline, CHR 0x0B, CHR 0x0C, CHR 0x0D}"

definition is_digit :: "char \<Rightarrow> bool" where
  "is_digit c \<longleftrightarrow> 48 \<le> (of_char c :: nat) \<and> (of_char c :: nat) \<le> 57"

definition digit_val :: "char \<Rightarrow> nat" where
  "digit_val c = of_char c - 48"

text \<open>\<open>SkipSpace\<close> before a verb; a newline is an error.\<close>

fun skip_space :: "string \<Rightarrow> string option" where
  "skip_space [] = Some []"
| "skip_space (c # cs) =
     (if c = newline then None else if is_space c then skip_space cs else Some (c # cs))"

text \<open>A space in the format: at least one space of the input, unless it has ended.\<close>

definition match_space :: "string \<Rightarrow> string option" where
  "match_space s =
     (case s of
        [] \<Rightarrow> Some []
      | c # _ \<Rightarrow>
          if \<not> is_space c \<or> c = newline then None
          else Some (dropWhile (\<lambda>c. is_space c \<and> c \<noteq> newline) s))"

text \<open>The verb \<open>%s\<close>: the text up to the next space, which must not be empty.\<close>

definition scan_word :: "string \<Rightarrow> (string \<times> string) option" where
  "scan_word s =
     (case skip_space s of
        None \<Rightarrow> None
      | Some [] \<Rightarrow> None
      | Some t \<Rightarrow> Some (takeWhile (\<lambda>c. \<not> is_space c) t, dropWhile (\<lambda>c. \<not> is_space c) t))"

text \<open>The verb \<open>%d\<close> into an \<open>int32\<close>: an optional sign and digits, in the range of the type.\<close>

definition digits_val :: "string \<Rightarrow> int" where
  "digits_val ds = foldl (\<lambda>n c. n * 10 + int (digit_val c)) 0 ds"

definition scan_digits :: "string \<Rightarrow> (int \<times> string) option" where
  "scan_digits s =
     (let ds = takeWhile is_digit s in if ds = [] then None else Some (digits_val ds, dropWhile is_digit s))"

definition scan_int32 :: "string \<Rightarrow> (int \<times> string) option" where
  "scan_int32 s =
     (case skip_space s of
        None \<Rightarrow> None
      | Some [] \<Rightarrow> None
      | Some (c # cs) \<Rightarrow>
          (case (if c = CHR ''-'' then map_option (\<lambda>(n, r). (- n, r)) (scan_digits cs)
                 else if c = CHR ''+'' then scan_digits cs
                 else scan_digits (c # cs)) of
             None \<Rightarrow> None
           | Some (n, r) \<Rightarrow> if - (2 ^ 31) \<le> n \<and> n < 2 ^ 31 then Some (n, r) else None))"

text \<open>\<open>fmt.Sscanf(protocol, protocolFormat, &network, &version)\<close>; input left over is no error.\<close>

definition scan_protocol :: "string \<Rightarrow> (string \<times> int) option" where
  "scan_protocol s =
     (case scan_word s of
        None \<Rightarrow> None
      | Some (network, r1) \<Rightarrow>
          (case match_space r1 of
             None \<Rightarrow> None
           | Some r2 \<Rightarrow> (case scan_int32 r2 of None \<Rightarrow> None | Some (version, _) \<Rightarrow> Some (network, version))))"

definition network_matches :: "string \<Rightarrow> int \<Rightarrow> string \<Rightarrow> bool" where
  "network_matches networkName minPeerVersion protocol =
     (case scan_protocol protocol of
        None \<Rightarrow> False
      | Some (network, version) \<Rightarrow> network = networkName \<and> \<not> version < minPeerVersion)"

section \<open>Decimal round trip\<close>

lemma digit_char_props:
  assumes "d < 10"
  shows "is_digit (digit_char d)" and "digit_val (digit_char d) = d" and "\<not> is_space (digit_char d)"
    and "digit_char d \<noteq> CHR ''-''" and "digit_char d \<noteq> CHR ''+''" and "digit_char d \<noteq> newline"
proof -
  have o: "(of_char (digit_char d) :: nat) = 48 + d" using assms by (simp add: digit_char_def)
  then show "is_digit (digit_char d)" "digit_val (digit_char d) = d"
    using assms by (simp_all add: is_digit_def digit_val_def)
  have ne: "digit_char d \<noteq> c" if "(of_char c :: nat) < 48" for c
    using o that by auto
  have "(of_char (CHR '' '') :: nat) < 48 \<and> (of_char (CHR 0x09) :: nat) < 48 \<and> (of_char (CHR 0x0A) :: nat) < 48 \<and>
    (of_char (CHR 0x0B) :: nat) < 48 \<and> (of_char (CHR 0x0C) :: nat) < 48 \<and> (of_char (CHR 0x0D) :: nat) < 48 \<and>
    (of_char (CHR ''-'') :: nat) < 48 \<and> (of_char (CHR ''+'') :: nat) < 48"
    by simp
  with ne show "\<not> is_space (digit_char d)" "digit_char d \<noteq> CHR ''-''" "digit_char d \<noteq> CHR ''+''"
    "digit_char d \<noteq> newline"
    by (auto simp: is_space_def newline_def)
qed

lemma digits_val_snoc: "digits_val (ds @ [c]) = digits_val ds * 10 + int (digit_val c)"
  by (simp add: digits_val_def)

lemma show_nat_digits: "list_all is_digit (show_nat n) \<and> show_nat n \<noteq> [] \<and> digits_val (show_nat n) = int n"
proof (induction n rule: less_induct)
  case (less n)
  show ?case
  proof (cases "n < 10")
    case True
    then show ?thesis using digit_char_props [OF True]
      by (simp add: show_nat.simps [of n] digits_val_def)
  next
    case False
    then have "n div 10 < n" by simp
    moreover have "int (n div 10) * 10 + int (n mod 10) = int n"
      by (metis div_mult_mod_eq of_nat_add of_nat_mult of_nat_numeral)
    ultimately show ?thesis
      using less.IH [of "n div 10"] False digit_char_props [of "n mod 10"]
      by (simp add: show_nat.simps [of n] digits_val_snoc)
  qed
qed

lemma show_nat_hd: "\<exists>d ds. show_nat n = digit_char d # ds \<and> d < 10"
proof (induction n rule: less_induct)
  case (less n)
  show ?case
  proof (cases "n < 10")
    case False
    then have "n div 10 < n" by simp
    from less.IH [OF this] False show ?thesis by (auto simp: show_nat.simps [of n])
  qed (auto simp: show_nat.simps [of n])
qed

text \<open>The text behind the number starts with no digit.\<close>

definition ends_number :: "string \<Rightarrow> bool" where
  "ends_number r \<longleftrightarrow> r = [] \<or> \<not> is_digit (hd r)"

lemma scan_digits_show:
  assumes "ends_number r"
  shows "scan_digits (show_nat n @ r) = Some (int n, r)"
proof -
  have "takeWhile is_digit (show_nat n @ r) = show_nat n" "dropWhile is_digit (show_nat n @ r) = r"
    using assms show_nat_digits [of n]
    by (cases r; simp add: ends_number_def takeWhile_append2 dropWhile_append2 list_all_iff)+
  with show_nat_digits [of n] show ?thesis by (simp add: scan_digits_def Let_def)
qed

lemma skip_space_other: "\<not> is_space c \<Longrightarrow> skip_space (c # cs) = Some (c # cs)"
  by (auto simp: is_space_def newline_def)

lemma scan_int32_show:
  assumes "- (2 ^ 31) \<le> i" and "i < 2 ^ 31" and "ends_number r"
  shows "scan_int32 (show_int i @ r) = Some (i, r)"
proof (cases "i < 0")
  case True
  have "\<not> is_space (CHR ''-'')" by (simp add: is_space_def newline_def)
  then have "skip_space (show_int i @ r) = Some (CHR ''-'' # show_nat (nat (- i)) @ r)"
    using True by (simp add: show_int_def skip_space_other del: skip_space.simps)
  with True assms show ?thesis
    by (simp add: scan_int32_def scan_digits_show)
next
  case False
  obtain d ds where d: "show_nat (nat i) = digit_char d # ds" "d < 10" using show_nat_hd by blast
  note p = digit_char_props [OF d(2)]
  have "skip_space (show_nat (nat i) @ r) = Some (show_nat (nat i) @ r)"
    using d(1) p(3) by (simp add: skip_space_other del: skip_space.simps)
  moreover have "scan_digits (digit_char d # ds @ r) = Some (int (nat i), r)"
    using scan_digits_show [OF assms(3), of "nat i"] d(1) by simp
  ultimately show ?thesis
    using False assms(1,2) d(1) p(4,5) by (simp add: scan_int32_def show_int_def)
qed

definition word_like :: "string \<Rightarrow> bool" where
  "word_like s \<longleftrightarrow> s \<noteq> [] \<and> list_all (\<lambda>c. \<not> is_space c) s"

lemma show_int_hd: "\<exists>c cs. show_int i = c # cs \<and> \<not> is_space c"
proof -
  obtain d ds where "show_nat (nat i) = digit_char d # ds" "d < 10" using show_nat_hd by blast
  moreover have "\<not> is_space (CHR ''-'')" by (simp add: is_space_def newline_def)
  ultimately show ?thesis using digit_char_props(3) by (auto simp: show_int_def)
qed

lemma scan_protocol_round:
  assumes "word_like network" and "- (2 ^ 31) \<le> v" and "v < 2 ^ 31" and "ends_number r"
  shows "scan_protocol (protocol_string network v @ r) = Some (network, v)"
proof -
  have sp: "is_space (CHR '' '')" "CHR '' '' \<noteq> newline" by (simp_all add: is_space_def newline_def)
  obtain c cs where c: "show_int v = c # cs" "\<not> is_space c" using show_int_hd by blast
  let ?rest = "CHR '' '' # show_int v @ r"
  have all: "\<forall>x \<in> set network. \<not> is_space x" using assms(1) by (simp add: word_like_def list_all_iff)
  have "skip_space (network @ ?rest) = Some (network @ ?rest)"
    using assms(1) by (cases network) (simp_all add: word_like_def skip_space_other del: skip_space.simps)
  moreover have "takeWhile (\<lambda>c. \<not> is_space c) (network @ ?rest) = network"
    "dropWhile (\<lambda>c. \<not> is_space c) (network @ ?rest) = ?rest"
    using all sp by (simp_all add: takeWhile_append2 dropWhile_append2)
  ultimately have "scan_word (network @ ?rest) = Some (network, ?rest)"
    using assms(1) by (cases network) (simp_all add: scan_word_def word_like_def)
  moreover have "match_space ?rest = Some (show_int v @ r)"
    using sp c by (simp add: match_space_def)
  ultimately show ?thesis
    using scan_int32_show [OF assms(2-4)] by (simp add: scan_protocol_def protocol_string_def)
qed

section \<open>Properties\<close>

text \<open>
  C32: the matcher accepts a peer's protocol string exactly by network and version: for a network name without
  white space, the string a peer formats for \<open>(network, version)\<close> is accepted if and only if the
  network is the hub's own and the version is not below the hub's minimum, also with any further
  text that starts with no digit.
\<close>
theorem matcher_accepts:
  assumes "word_like network" and "- (2 ^ 31) \<le> version" and "version < 2 ^ 31" and "ends_number extra"
  shows "network_matches networkName minPeerVersion (protocol_string network version @ extra) \<longleftrightarrow>
    network = networkName \<and> minPeerVersion \<le> version"
  using scan_protocol_round [OF assms] by (auto simp: network_matches_def)

lemma matcher_accepts_witness:
  "network_matches ''net'' 3 (protocol_string ''net'' 12 @ ''/x'')"
  by (subst matcher_accepts) (simp_all add: word_like_def is_space_def newline_def ends_number_def is_digit_def)

text \<open>
  A hub whose network name is empty or contains white space accepts no stream at all, not even from a peer
  with the same name.
\<close>
theorem matcher_needs_word:
  assumes "\<not> word_like networkName"
  shows "\<not> network_matches networkName minPeerVersion protocol"
proof -
  have "word_like network" if "scan_word s = Some (network, r)" for s network r
  proof -
    have sk: "skip_space u = Some (c # t) \<Longrightarrow> \<not> is_space c" for u c t
      by (induction u rule: skip_space.induct) (auto split: if_splits)
    from that obtain c t where "skip_space s = Some (c # t)"
      "network = takeWhile (\<lambda>c. \<not> is_space c) (c # t)"
      by (auto simp: scan_word_def split: option.splits list.splits)
    with sk [of s c t] show ?thesis
      by (auto simp: word_like_def list_all_iff dest: set_takeWhileD)
  qed
  with assms show ?thesis
    by (auto simp: network_matches_def scan_protocol_def split: option.splits)
qed

lemma matcher_needs_word_witness:
  "\<not> network_matches ''my net'' 0 (protocol_string ''my net'' 1)"
  by (rule matcher_needs_word) (simp add: word_like_def is_space_def)

end
