(* ===== verification/Peer_Service.thy ===== *)
theory Peer_Service
  imports Connection Config Protocol_Match
begin

text \<open>
  \<^verbatim>\<open>peer_service/peer_service.go\<close>: the table of connections, the messages postponed for peers whose
  key is not known yet, the ban list, and the callbacks of the connections. A method runs under
  the service's mutex from \<open>lock\<close> to \<open>unlock\<close>, so it is one function; the callbacks that test
  \<open>running\<close> before they lock are split at that point. Where the code ranges over the connection
  map, the order Go picks is the argument \<open>order\<close>.
\<close>

record peer_service =
  host_id :: peer_id
  host_addrs :: "multiaddr list"
  myExternalAddress :: multiaddr
  connections :: "(string \<rightharpoonup> connection) option"
  messages :: "string \<rightharpoonup> message_envelop list"
  peerIds :: "u32 \<rightharpoonup> string"
  bannedPeer :: "string \<rightharpoonup> bool"
  running :: bool
  Signature :: "bytes option"
  networkName :: string
  version :: int
  minPeerVersion :: int
  totalPeers :: u32

text \<open>Actions of a connection, by its key in the map.\<close>

type_synonym ps_action = "string \<times> action"

text \<open>Reading a nil map finds nothing, writing to it panics.\<close>

definition conns :: "peer_service \<Rightarrow> string \<rightharpoonup> connection" where
  "conns ps = (case connections ps of None \<Rightarrow> Map.empty | Some m \<Rightarrow> m)"

definition put_connection :: "string \<Rightarrow> connection \<Rightarrow> peer_service \<Rightarrow> peer_service go" where
  "put_connection k c ps =
     (case connections ps of
        None \<Rightarrow> panic NilMapWrite
      | Some m \<Rightarrow> ok (ps\<lparr>connections := Some (m(k \<mapsto> c))\<rparr>))"

text \<open>A method called on the connection stored under \<open>k\<close>.\<close>

definition set_conn :: "string \<Rightarrow> connection \<Rightarrow> peer_service \<Rightarrow> peer_service" where
  "set_conn k c ps = ps\<lparr>connections := map_option (\<lambda>m. m(k \<mapsto> c)) (connections ps)\<rparr>"

definition iteration_order :: "peer_service \<Rightarrow> string list \<Rightarrow> bool" where
  "iteration_order ps order \<longleftrightarrow> distinct order \<and> set order = dom (conns ps)"

definition networkMatcher :: "peer_service \<Rightarrow> string \<Rightarrow> bool" where
  "networkMatcher ps protocol = network_matches (networkName ps) (minPeerVersion ps) protocol"

definition getNextPeerId :: "peer_service \<Rightarrow> peer_service \<times> u32" where
  "getNextPeerId ps = (ps\<lparr>totalPeers := totalPeers ps + 1\<rparr>, totalPeers ps)"

definition own_protocol :: "peer_service \<Rightarrow> string" where
  "own_protocol ps = protocol_string (networkName ps) (version ps)"

section \<open>New connections\<close>

text \<open>A connection opened by this hub, registered under its id.\<close>

definition open_connection ::
    "net_lib \<Rightarrow> peer_id \<Rightarrow> multiaddr option \<Rightarrow> bytes option \<Rightarrow> peer_service \<Rightarrow>
     (peer_service \<times> ps_action list) go" where
  "open_connection N pid address sig ps =
     (case getNextPeerId ps of (ps1, uniqId) \<Rightarrow>
        and_then (Connection_New pid (own_protocol ps) (Some (myExternalAddress ps)) address sig uniqId)
          (\<lambda>(conn, acts).
        and_then (put_connection (Pretty N pid) conn ps1) (\<lambda>ps2.
          ok (ps2\<lparr>peerIds := (peerIds ps2)(uniqId \<mapsto> Pretty N pid)\<rparr>, map (Pair (Pretty N pid)) acts))))"

definition connect_ps ::
    "net_lib \<Rightarrow> peer_id \<Rightarrow> multiaddr option \<Rightarrow> peer_service \<Rightarrow> (peer_service \<times> ps_action list) go" where
  "connect_ps N pid address ps =
     (if pid = host_id ps then ok (ps, [])
      else if conns ps (Pretty N pid) \<noteq> None then ok (ps, [])
      else open_connection N pid address None ps)"

text \<open>\<open>RemoteMultiaddr().String()\<close> in the log line needs a non-nil address.\<close>

definition onConnect :: "net_lib \<Rightarrow> net_stream \<Rightarrow> peer_service \<Rightarrow> (peer_service \<times> ps_action list) go" where
  "onConnect N stream ps =
     (if \<not> running ps then ok (ps, [])
      else if str_addr stream = None then panic NilDeref
      else
        let k = Pretty N (str_peer stream) in
        case conns ps k of
          Some conn \<Rightarrow>
            (case SetInboundStream stream conn of (conn', acts) \<Rightarrow> ok (set_conn k conn' ps, map (Pair k) acts))
        | None \<Rightarrow>
            (case getNextPeerId ps of (ps1, uniqId) \<Rightarrow>
             case Connection_FromStream stream (Some (myExternalAddress ps)) (Signature ps) (own_protocol ps) uniqId of
               (conn, acts) \<Rightarrow>
                 and_then (put_connection k conn ps1) (\<lambda>ps2.
                   ok (ps2\<lparr>peerIds := (peerIds ps2)(uniqId \<mapsto> k)\<rparr>, map (Pair k) acts))))"

section \<open>Callbacks of the connections\<close>

text \<open>
  \<open>onPublicKeyRecovered\<close> for the connection object \<open>conn\<close>, behind the lock: the postponed messages
  go into its queue, in order, and then a ban recorded earlier takes effect.
\<close>

definition flush_postponed :: "string \<Rightarrow> connection \<Rightarrow> peer_service \<Rightarrow> peer_service \<times> connection" where
  "flush_postponed publicKey conn ps =
     (let pending = (case messages ps publicKey of None \<Rightarrow> [] | Some ms \<Rightarrow> ms);
          conn1 = fold Send pending conn;
          ps1 = ps\<lparr>messages := (messages ps)(publicKey \<mapsto> [])\<rparr>
      in (ps1, (if bannedPeer ps1 publicKey = Some True then BanPeer_conn conn1 else conn1)))"

text \<open>
  The callback from the connection stored under \<open>k\<close>. A connection that is no longer in the map
  (after \<open>Stop\<close>) is the argument \<open>gone\<close>.
\<close>

definition onPublicKeyRecovered :: "string \<Rightarrow> connection \<Rightarrow> string \<Rightarrow> peer_service \<Rightarrow> peer_service" where
  "onPublicKeyRecovered k gone publicKey ps =
     (if \<not> running ps then ps
      else
        let conn = (case conns ps k of None \<Rightarrow> gone | Some c \<Rightarrow> c) in
        case flush_postponed publicKey conn ps of (ps1, conn1) \<Rightarrow>
          (if conns ps k = None then ps1 else set_conn k conn1 ps1))"

text \<open>\<open>updatePeerList\<close> behind the lock, one peer and then the list.\<close>

definition update_peer :: "net_lib \<Rightarrow> metadata \<Rightarrow> peer_service \<Rightarrow> (peer_service \<times> ps_action list) go" where
  "update_peer N newPeer ps =
     (if md_Id newPeer = host_id ps then ok (ps, [])
      else
        let k = Pretty N (md_Id newPeer) in
        case conns ps k of
          Some conn \<Rightarrow>
            ok ((if md_Addr newPeer \<noteq> None then set_conn k (SetPeerAddress (md_Addr newPeer) conn) ps else ps), [])
        | None \<Rightarrow> open_connection N (md_Id newPeer) (md_Addr newPeer) (Signature ps) ps)"

primrec updatePeerList_locked ::
    "net_lib \<Rightarrow> metadata list \<Rightarrow> peer_service \<Rightarrow> (peer_service \<times> ps_action list) go" where
  "updatePeerList_locked N [] ps = ok (ps, [])"
| "updatePeerList_locked N (p # newPeers) ps =
     and_then (update_peer N p ps) (\<lambda>(ps1, acts1).
     and_then (updatePeerList_locked N newPeers ps1) (\<lambda>(ps2, acts2). ok (ps2, acts1 @ acts2)))"

definition updatePeerList ::
    "net_lib \<Rightarrow> metadata list \<Rightarrow> peer_service \<Rightarrow> (peer_service \<times> ps_action list) go" where
  "updatePeerList N newPeers ps =
     (if \<not> running ps then ok (ps, []) else updatePeerList_locked N newPeers ps)"

definition AvailableRelays :: "string list \<Rightarrow> peer_service \<Rightarrow> peer_id list" where
  "AvailableRelays order ps =
     concat (map (\<lambda>k. case conns ps k of None \<Rightarrow> []
        | Some conn \<Rightarrow> if IsActive conn \<and> PeerAddress conn \<noteq> None then [PeerId conn] else []) order)"

definition GetPeers :: "string list \<Rightarrow> peer_service \<Rightarrow> metadata list" where
  "GetPeers order ps =
     concat (map (\<lambda>k. case conns ps k of None \<Rightarrow> []
        | Some conn \<Rightarrow>
            if IsActive conn
            then [\<lparr>md_PublicKey = PeerPublicKey conn, md_Id = PeerId conn, md_LastSeen = 0, md_Addr = PeerAddress conn\<rparr>]
            else []) order)"

section \<open>Requests of the node\<close>

primrec for_connections ::
    "(connection \<Rightarrow> connection \<times> action list) \<Rightarrow> string list \<Rightarrow> peer_service \<Rightarrow> peer_service \<times> ps_action list" where
  "for_connections f [] ps = (ps, [])"
| "for_connections f (k # ks) ps =
     (case conns ps k of
        None \<Rightarrow> for_connections f ks ps
      | Some conn \<Rightarrow>
          (case f conn of (conn', acts) \<Rightarrow>
           case for_connections f ks (set_conn k conn' ps) of (ps', rest) \<Rightarrow> (ps', map (Pair k) acts @ rest)))"

definition SetSignature ::
    "crypto_lib \<Rightarrow> net_lib \<Rightarrow> byte \<Rightarrow> string list \<Rightarrow> bytes \<Rightarrow> peer_service \<Rightarrow>
     (peer_service \<times> ps_action list \<times> bool) go" where
  "SetSignature C N chainId order sig ps =
     (case MarshalId N (host_id ps) of
        Inl _ \<Rightarrow> ok (ps, [], False)
      | Inr peerId \<Rightarrow>
          (case EcRecover C peerId sig chainId of
             Inl (GoPanic p) \<Rightarrow> panic p
           | Inl (GoError _) \<Rightarrow> ok (ps, [], False)
           | Inr _ \<Rightarrow>
               (case for_connections (SetSignature_conn (Some sig)) order (ps\<lparr>Signature := Some sig\<rparr>) of
                  (ps', acts) \<Rightarrow> ok (ps', acts, True))))"

definition connectionByPublicKey :: "string list \<Rightarrow> string \<Rightarrow> peer_service \<Rightarrow> (string \<times> connection) option" where
  "connectionByPublicKey order publicKey ps =
     (case filter (\<lambda>k. \<exists>c. conns ps k = Some c \<and> PeerPublicKey c = publicKey) order of
        [] \<Rightarrow> None
      | k # _ \<Rightarrow> map_option (Pair k) (conns ps k))"

definition BanPeer :: "string list \<Rightarrow> string \<Rightarrow> peer_service \<Rightarrow> peer_service \<times> bool" where
  "BanPeer order publicKey ps =
     (let ps1 = ps\<lparr>bannedPeer := (bannedPeer ps)(publicKey \<mapsto> True)\<rparr> in
      case connectionByPublicKey order publicKey ps1 of
        Some (k, conn) \<Rightarrow> (set_conn k (BanPeer_conn conn) ps1, True)
      | None \<Rightarrow> (ps1, False))"

definition RemoveFromBanList :: "string list \<Rightarrow> string \<Rightarrow> peer_service \<Rightarrow> peer_service \<times> bool" where
  "RemoveFromBanList order publicKey ps =
     (let ps1 = ps\<lparr>bannedPeer := (bannedPeer ps)(publicKey \<mapsto> False)\<rparr> in
      case connectionByPublicKey order publicKey ps1 of
        Some (k, conn) \<Rightarrow> (set_conn k (RemoveFromBanList_conn conn) ps1, True)
      | None \<Rightarrow> (ps1, False))"

text \<open>Takes no lock. The connection calls back; the actions are returned to the caller.\<close>

definition SetPeerPublicKey ::
    "crypto_lib \<Rightarrow> string \<Rightarrow> u32 \<Rightarrow> peer_service \<Rightarrow> (peer_service \<times> ps_action list \<times> bool) go" where
  "SetPeerPublicKey C publicKey peerUniqId ps =
     (case peerIds ps peerUniqId of
        Some k \<Rightarrow>
          (case conns ps k of
             Some conn \<Rightarrow>
               and_then (TrySetPeerPublicKey C publicKey conn) (\<lambda>(conn', acts, b).
                 ok (set_conn k conn' ps, map (Pair k) acts, b))
           | None \<Rightarrow> panic (PanicErr (ErrText (''No connection found by peer id '' @ k))))
      | None \<Rightarrow> panic (PanicErr (ErrText ''No saved peer id found by unique id'')))"

definition storeMessage :: "string list \<Rightarrow> string \<Rightarrow> message_envelop \<Rightarrow> peer_service \<Rightarrow> peer_service" where
  "storeMessage order key msg ps =
     (case connectionByPublicKey order key ps of
        Some (k, conn) \<Rightarrow> set_conn k (Send msg conn) ps
      | None \<Rightarrow>
          if bannedPeer ps key = Some True then ps
          else ps\<lparr>messages := (messages ps)(key \<mapsto>
                 (case messages ps key of None \<Rightarrow> [] | Some ms \<Rightarrow> ms) @ [msg])\<rparr>)"

definition SendMessageToPeer ::
    "string list \<Rightarrow> string \<Rightarrow> message_envelop \<Rightarrow> peer_service \<Rightarrow> peer_service \<times> bool" where
  "SendMessageToPeer order publicKey msg ps =
     (case connectionByPublicKey order publicKey ps of
        Some (k, conn) \<Rightarrow> (set_conn k (Send msg conn) ps, True)
      | None \<Rightarrow> (storeMessage order publicKey msg ps, False))"

definition BroadcastMessage :: "string list \<Rightarrow> message_envelop \<Rightarrow> peer_service \<Rightarrow> peer_service" where
  "BroadcastMessage order msg ps =
     fst (for_connections
       (\<lambda>conn. if \<not> IsActive conn \<and> length (PeerPublicKey conn) > 0 then (conn, []) else (Send msg conn, []))
       order ps)"

definition GetId :: "net_lib \<Rightarrow> peer_service \<Rightarrow> bytes option" where
  "GetId N ps = (case MarshalId N (host_id ps) of Inl _ \<Rightarrow> None | Inr i \<Rightarrow> Some i)"

definition contains_sub :: "string \<Rightarrow> string \<Rightarrow> bool" where
  "contains_sub s sub \<longleftrightarrow> (\<exists>i \<in> set [0..<Suc (length s)]. take (length sub) (drop i s) = sub)"

definition GetExternalMultiAddress ::
    "net_lib \<Rightarrow> config_state \<Rightarrow> go_error + string \<Rightarrow> multiaddr list \<Rightarrow> multiaddr go" where
  "GetExternalMultiAddress N cfg lookup addrs =
     and_then (GetP2PExternalIP cfg lookup) (\<lambda>extIp.
       if extIp = [] then fail (ErrText ''GetExternalMultiAddress: external IP cannot be determined'')
       else
         (case filter (\<lambda>addr. contains_sub (AddrString N addr) extIp) addrs of
            addr # _ \<Rightarrow> ok addr
          | [] \<Rightarrow> (case addrs of a # _ \<Rightarrow> ok a | [] \<Rightarrow> fail (ErrText ''no_external_multiaddr''))))"

definition IsConnected :: "string \<Rightarrow> peer_service \<Rightarrow> bool" where
  "IsConnected publicKey ps = (case conns ps publicKey of None \<Rightarrow> False | Some conn \<Rightarrow> IsActive conn)"

section \<open>Start and stop\<close>

text \<open>
  \<open>New\<close>: the host's id and addresses are given; the loop connects to the bootstrap nodes by index.
\<close>

primrec connect_all ::
    "net_lib \<Rightarrow> multiaddr list \<Rightarrow> nat \<Rightarrow> peer_id list \<Rightarrow> peer_service \<Rightarrow> (peer_service \<times> ps_action list) go" where
  "connect_all N mAddrs i [] ps = ok (ps, [])"
| "connect_all N mAddrs i (pid # ids) ps =
     and_then (if i < length mAddrs then ok (mAddrs ! i) else panic IndexRange) (\<lambda>a.
     and_then (connect_ps N pid (Some a) ps) (\<lambda>(ps1, acts1).
     and_then (connect_all N mAddrs (Suc i) ids ps1) (\<lambda>(ps2, acts2). ok (ps2, acts1 @ acts2))))"

definition PeerService_New ::
    "net_lib \<Rightarrow> config_state \<Rightarrow> go_error + string \<Rightarrow> peer_id \<Rightarrow> multiaddr list \<Rightarrow> string \<Rightarrow> int \<Rightarrow> int \<Rightarrow>
     (peer_service \<times> ps_action list) go" where
  "PeerService_New N cfg lookup pid addrs network ver minVer =
     (case GetExternalMultiAddress N cfg lookup addrs of
        Inl (GoPanic p) \<Rightarrow> panic p
      | Inl (GoError e) \<Rightarrow> panic (PanicErr e)
      | Inr ext \<Rightarrow>
          let ps = \<lparr>host_id = pid, host_addrs = addrs, myExternalAddress = ext, connections = Some Map.empty,
                    messages = Map.empty, peerIds = Map.empty, bannedPeer = Map.empty, running = True,
                    Signature = None, networkName = network, version = ver, minPeerVersion = minVer,
                    totalPeers = 0\<rparr>
          in and_then (GetBootstrapMultiaddrs N cfg) (\<lambda>mAddrs.
             and_then (GetBootstrapIDs N cfg) (\<lambda>ids. connect_all N mAddrs 0 ids ps)))"

text \<open>
  \<open>Stop\<close> once every \<open>Terminate\<close> it calls has returned; \<open>rndId\<close> are the random ids of the ending
  messages and \<open>closes\<close> the results of closing the connection manager, the network, the peer store
  and the host.
\<close>

definition Stop ::
    "u64 \<Rightarrow> string list \<Rightarrow> go_error option list \<Rightarrow> peer_service \<Rightarrow> (peer_service \<times> ps_action list) go" where
  "Stop rndId order closes ps =
     (if \<not> running ps then ok (ps, [])
      else
        (case for_connections (Terminate rndId) order (ps\<lparr>running := False\<rparr>) of (ps1, acts) \<Rightarrow>
           (case filter (\<lambda>r. r \<noteq> None) closes of
              [] \<Rightarrow> ok (ps1\<lparr>connections := None\<rparr>, acts)
            | r # _ \<Rightarrow> panic (PanicErr (the r)))))"

end
