(* ===== verification/Peer_Table.thy ===== *)
theory Peer_Table
  imports Peer_Service
begin

text \<open>
  What the peer service promises: the connection table and the table of numbers stay consistent
  under every sequence of requests, callbacks and connection steps; postponed messages are
  delivered once and in order; and where the code falls short of that.
\<close>

section \<open>Connections keep their identity\<close>

definition same_identity :: "connection \<Rightarrow> connection \<Rightarrow> bool" where
  "same_identity c d \<longleftrightarrow> PeerId d = PeerId c \<and> UniqId d = UniqId c"

lemma same_identity_refl [simp]: "same_identity c c"
  by (simp add: same_identity_def)

lemma same_identity_trans: "same_identity c d \<Longrightarrow> same_identity d e \<Longrightarrow> same_identity c e"
  by (simp add: same_identity_def)

lemma same_identity_simple [simp]:
  "same_identity c (fst (resetInboundStream c))"
  "same_identity c (fst (resetOutboundStream c))"
  "same_identity c (handshake_done c)"
  "same_identity c (Send msg c)"
  "same_identity c (BanPeer_conn c)"
  "same_identity c (RemoveFromBanList_conn c)"
  "same_identity c (SetPeerAddress a c)"
  "same_identity c (fst (SetSignature_conn sig c))"
  "same_identity c (fst (SetInboundStream st c))"
  by (simp_all add: same_identity_def resetInboundStream_def resetOutboundStream_def handshake_done_def
      conn_defs split: option.splits)

lemma Terminate_identity [simp]: "same_identity c (fst (Terminate r c))"
  by (simp add: same_identity_def Terminate_def resetInboundStream_def resetOutboundStream_def Let_def
      split: option.splits)

lemma TrySetPeerPublicKey_identity:
  "TrySetPeerPublicKey C key c = ok (c', acts, b) \<Longrightarrow> same_identity c c'"
  by (auto simp: TrySetPeerPublicKey_def same_identity_def resetInboundStream_def
      split: if_splits sum.splits fault.splits option.splits)

lemma receive_frame_identity:
  assumes "receive_frame C N chainId f c = ok (c', acts)"
  shows "same_identity c c'"
proof -
  from assms obtain c1 b acts' where 1: "spam_filter (frm_msgId f) c = ok (c1, b)"
    and 2: "(if b then handle_frame C N chainId f c1 else ok (c1, [])) = ok (c', acts')"
    by (rule receive_frame_ok)
  from 2 handle_frame_same_filter [of C N chainId f c1 c' acts'] spam_filter_fields [OF 1] show ?thesis
    by (auto simp: same_identity_def same_filter_def split: if_splits)
qed

lemma recv_step_identity:
  "recv_step C N chainId res (pc, c) = ok (pc', c', acts) \<Longrightarrow> same_identity c c'"
  by (cases pc; cases res)
     (auto simp: recv_step_def resetInboundStream_def and_then_Inr_iff same_identity_def
        split: if_splits option.splits fault.splits
        dest!: receive_frame_identity [unfolded same_identity_def])

lemma open_stream_identity [simp]: "same_identity c (fst (open_stream h c))"
  by (simp add: open_stream_def same_identity_def cas_status_def split: sum.splits)

lemma checkOutboundStream_identity: "same_identity c (fst (checkOutboundStream N h c))"
proof (cases "he_connected h")
  case False
  obtain c1 a1 where c1: "resetInboundStream c = (c1, a1)" by fastforce
  obtain c2 a2 where c2: "resetOutboundStream c1 = (c2, a2)" by fastforce
  have "same_identity c c2"
    using same_identity_simple(1) [of c] same_identity_simple(2) [of c1] c1 c2
    by (simp add: same_identity_def)
  with False c1 c2 open_stream_identity [of "c2\<lparr>signatureSent := False\<rparr>" h] show ?thesis
    by (auto simp: checkOutboundStream_def case_prod_unfold same_identity_def split: option.splits)
qed (simp add: checkOutboundStream_def case_prod_unfold)

lemma send_write_identity: "same_identity c (fst (snd (send_write h l c)))"
  by (auto simp: send_write_def send_failed_def Let_def build_frame_def addMsgIdToConfirm_def same_identity_def
      removeMsgIdFromConfirm_def addToQueue_def resetOutboundStream_def split: option.splits prod.splits)

lemma send_step_identity:
  assumes "send_step N h (l, c) = ok (l', c', acts)"
  shows "same_identity c c'"
proof (cases "sl_pc l")
  case STop
  with assms checkOutboundStream_identity [of c N h] show ?thesis
    by (auto simp: send_step_def send_top_def Let_def same_identity_def
        split: if_splits prod.splits option.splits)
next
  case SSend
  with assms have "send_write h l c = (l', c', acts)" by (simp add: send_step_def)
  with send_write_identity [of c h l] show ?thesis by simp
qed (use assms in \<open>auto simp: send_step_def send_dequeue_def same_identity_def
       split: option.splits sum.splits if_splits prod.splits\<close>)

lemma conn_step_identity: "same_identity (cs_conn s) (cs_conn (fst (conn_step C N chainId s e)))"
proof (cases e)
  case (EvRecv res)
  then show ?thesis using recv_step_identity [of C N chainId res "cs_recv s" "cs_conn s"]
    by (auto simp: conn_step_def split: sum.splits)
next
  case (EvSend h)
  then show ?thesis using send_step_identity [of N h "cs_send s" "cs_conn s"]
    by (auto simp: conn_step_def split: sum.splits)
next
  case (EvTrySetKey k)
  then show ?thesis using TrySetPeerPublicKey_identity [of C k "cs_conn s"]
    by (auto simp: conn_step_def split: sum.splits)
next
  case (EvTerminateEnd)
  then show ?thesis
    by (auto simp: conn_step_def Let_def Terminate_end_def same_identity_def split: option.splits if_splits)
qed (auto simp: conn_step_def Let_def case_prod_unfold split: sum.splits)

section \<open>The tables\<close>

text \<open>
  Every connection is filed under the text of its peer's id, and its number leads back to it; the
  numbers in use are those below the counter. The counter has 32 bits, so this holds for up to
  \<open>2 ^ 32\<close> connections.
\<close>

definition numbered :: "net_lib \<Rightarrow> (string \<rightharpoonup> connection) \<Rightarrow> (u32 \<rightharpoonup> string) \<Rightarrow> u32 \<Rightarrow> bool" where
  "numbered N m ids nxt \<longleftrightarrow>
     nxt = of_nat (card (dom m)) \<and>
     (\<forall>u. ids u \<noteq> None \<longleftrightarrow> unat u < card (dom m)) \<and>
     (\<forall>u k. ids u = Some k \<longrightarrow> m k \<noteq> None) \<and>
     (\<forall>k c. m k = Some c \<longrightarrow> Pretty N (PeerId c) = k \<and> ids (UniqId c) = Some k)"

definition table_ok :: "net_lib \<Rightarrow> peer_service \<Rightarrow> bool" where
  "table_ok N ps \<longleftrightarrow>
     (case connections ps of
        None \<Rightarrow> True
      | Some m \<Rightarrow> finite (dom m) \<and>
          (card (dom m) \<le> 2 ^ 32 \<longrightarrow> numbered N m (peerIds ps) (totalPeers ps)))"

lemma table_ok_cong:
  "connections ps' = connections ps \<Longrightarrow> peerIds ps' = peerIds ps \<Longrightarrow> totalPeers ps' = totalPeers ps \<Longrightarrow>
   table_ok N ps' = table_ok N ps"
  by (cases "connections ps") (simp_all add: table_ok_def)

lemma table_ok_stopped [simp]: "connections ps = None \<Longrightarrow> table_ok N ps"
  by (simp add: table_ok_def)

lemma numbered_insert:
  assumes "numbered N m ids nxt" and "finite (dom m)" and "m k = None" and "Suc (card (dom m)) \<le> 2 ^ 32"
    and "Pretty N (PeerId c) = k" and "UniqId c = nxt"
  shows "numbered N (m(k \<mapsto> c)) (ids(nxt \<mapsto> k)) (nxt + 1)"
proof -
  let ?n = "card (dom m)"
  have card: "card (dom (m(k \<mapsto> c))) = Suc ?n" using assms(2,3) by (simp add: domIff)
  have utot: "unat nxt = ?n" using assms(1,4) by (simp add: numbered_def unat_of_nat)
  have used: "UniqId c' \<noteq> nxt" if "m k' = Some c'" for k' c'
  proof
    assume "UniqId c' = nxt"
    with that assms(1) have "ids nxt \<noteq> None" unfolding numbered_def by fastforce
    with assms(1) have "unat nxt < card (dom m)" unfolding numbered_def by blast
    with utot show False by simp
  qed
  have "(ids(nxt \<mapsto> k)) u \<noteq> None \<longleftrightarrow> unat u < Suc ?n" for u
  proof -
    have "unat u = ?n \<longleftrightarrow> u = nxt" using utot by (metis word_unat_eq_iff)
    with assms(1) show ?thesis by (auto simp: numbered_def less_Suc_eq)
  qed
  moreover have "nxt + 1 = of_nat (card (dom (m(k \<mapsto> c))))"
    unfolding card using assms(1) by (simp add: numbered_def)
  ultimately show ?thesis
    unfolding numbered_def card using assms used by (auto simp: numbered_def)
qed

lemma table_ok_insert:
  assumes "table_ok N ps" and "connections ps = Some m" and "m k = None"
    and "Pretty N (PeerId c) = k" and "UniqId c = totalPeers ps"
  shows "table_ok N (ps\<lparr>totalPeers := totalPeers ps + 1, connections := Some (m(k \<mapsto> c)),
    peerIds := (peerIds ps)(totalPeers ps \<mapsto> k)\<rparr>)"
proof -
  have fin: "finite (dom m)" using assms(1,2) by (simp add: table_ok_def)
  then have "card (dom (m(k \<mapsto> c))) = Suc (card (dom m))" using assms(3) by (simp add: domIff)
  with assms fin numbered_insert [of N m "peerIds ps" "totalPeers ps" k c] show ?thesis
    by (auto simp: table_ok_def)
qed

lemma table_ok_set_conn:
  assumes "table_ok N ps" and "conns ps k = Some c" and "same_identity c c'"
  shows "table_ok N (set_conn k c' ps)"
proof -
  from assms(2) obtain m where m: "connections ps = Some m" "m k = Some c"
    by (auto simp: conns_def split: option.splits)
  have "dom (m(k \<mapsto> c')) = dom m" using m(2) by auto
  moreover have "numbered N (m(k \<mapsto> c')) ids nxt" if "numbered N m ids nxt" for ids nxt
    using that assms(3) m(2) \<open>dom (m(k \<mapsto> c')) = dom m\<close>
    unfolding numbered_def same_identity_def by auto
  ultimately show ?thesis
    using assms(1) m(1) by (simp add: table_ok_def set_conn_def)
qed

lemma conn_init_identity [simp]: "same_identity (conn_init pid pr a u) (c\<lparr>PeerAddress := x\<rparr>) =
    same_identity (conn_init pid pr a u) c"
  by (simp add: same_identity_def)

lemma Connection_New_identity:
  "Connection_New pid pr my a sig u = ok (c, acts) \<Longrightarrow> PeerId c = pid \<and> UniqId c = u"
  by (auto simp: Connection_New_def Let_def SetSignature_conn_def split: option.splits if_splits)

lemma Connection_FromStream_identity:
  "Connection_FromStream st my sig pr u = (c, acts) \<Longrightarrow> PeerId c = str_peer st \<and> UniqId c = u"
  by (auto simp: Connection_FromStream_def Let_def SetSignature_conn_def split: if_splits)

lemma open_connection_ok:
  assumes "open_connection N pid a sig ps = ok (ps', acts)" and "table_ok N ps"
    and "conns ps (Pretty N pid) = None"
  shows "table_ok N ps'"
proof -
  from assms(1) obtain c acts0 m where c:
    "Connection_New pid (own_protocol ps) (Some (myExternalAddress ps)) a sig (totalPeers ps) = ok (c, acts0)"
    "connections ps = Some m"
    "ps' = ps\<lparr>totalPeers := totalPeers ps + 1, connections := Some (m(Pretty N pid \<mapsto> c)),
        peerIds := (peerIds ps)(totalPeers ps \<mapsto> Pretty N pid)\<rparr>"
    by (auto simp: open_connection_def getNextPeerId_def and_then_Inr_iff put_connection_def split: option.splits)
  have "m (Pretty N pid) = None" using assms(3) c(2) by (simp add: conns_def)
  from table_ok_insert [OF assms(2) c(2) this] Connection_New_identity [OF c(1)] c(3) show ?thesis by simp
qed

lemma onConnect_ok:
  assumes "onConnect N st ps = ok (ps', acts)" and "table_ok N ps"
  shows "table_ok N ps'"
proof (cases "running ps \<and> str_addr st \<noteq> None")
  case True
  show ?thesis
  proof (cases "conns ps (Pretty N (str_peer st))")
    case (Some c)
    with True assms table_ok_set_conn [OF assms(2) Some, of "fst (SetInboundStream st c)"] show ?thesis
      by (auto simp: onConnect_def Let_def case_prod_unfold)
  next
    case None
    obtain c acts0 where c: "Connection_FromStream st (Some (myExternalAddress ps)) (Signature ps)
        (own_protocol ps) (totalPeers ps) = (c, acts0)" by fastforce
    with True None assms(1) obtain m where m: "connections ps = Some m"
      "ps' = ps\<lparr>totalPeers := totalPeers ps + 1, connections := Some (m(Pretty N (str_peer st) \<mapsto> c)),
        peerIds := (peerIds ps)(totalPeers ps \<mapsto> Pretty N (str_peer st))\<rparr>"
      by (auto simp: onConnect_def Let_def getNextPeerId_def put_connection_def split: option.splits)
    have "m (Pretty N (str_peer st)) = None" using None m(1) by (simp add: conns_def)
    from table_ok_insert [OF assms(2) m(1) this] Connection_FromStream_identity [OF c] m(2) show ?thesis by simp
  qed
qed (use assms in \<open>auto simp: onConnect_def split: if_splits\<close>)

lemma fold_Send_identity [simp]: "same_identity c (fold Send ms c)"
  by (induction ms rule: rev_induct) (auto intro: same_identity_trans)

lemma flush_postponed_ok:
  assumes "flush_postponed key c ps = (ps', c')"
  shows "connections ps' = connections ps \<and> peerIds ps' = peerIds ps \<and> totalPeers ps' = totalPeers ps \<and>
    same_identity c c'"
  using assms same_identity_trans [OF fold_Send_identity same_identity_simple(5)]
  by (auto simp: flush_postponed_def Let_def split: if_splits)

lemma onPublicKeyRecovered_ok:
  assumes "table_ok N ps"
  shows "table_ok N (onPublicKeyRecovered k gone key ps)"
proof -
  let ?c = "case conns ps k of None \<Rightarrow> gone | Some c \<Rightarrow> c"
  obtain ps1 c1 where f: "flush_postponed key ?c ps = (ps1, c1)" by fastforce
  note ok = flush_postponed_ok [OF f]
  then have "table_ok N ps1" using assms table_ok_cong by blast
  moreover have "conns ps1 k = conns ps k" using ok by (simp add: conns_def)
  ultimately show ?thesis
    using f ok assms table_ok_set_conn [of N ps1 k _ c1]
    by (cases "conns ps k") (auto simp: onPublicKeyRecovered_def)
qed

lemma update_peer_ok:
  "update_peer N p ps = ok (ps', acts) \<Longrightarrow> table_ok N ps \<Longrightarrow> table_ok N ps'"
  by (auto simp: update_peer_def Let_def intro: open_connection_ok table_ok_set_conn
      split: if_splits option.splits)

lemma updatePeerList_locked_ok:
  "updatePeerList_locked N pcs ps = ok (ps', acts) \<Longrightarrow> table_ok N ps \<Longrightarrow> table_ok N ps'"
  by (induction pcs arbitrary: ps acts) (auto simp: and_then_Inr_iff dest: update_peer_ok)

lemma for_connections_ok:
  assumes "\<And>c. same_identity c (fst (f c))"
  shows "table_ok N ps \<Longrightarrow> table_ok N (fst (for_connections f ks ps))"
proof (induction ks arbitrary: ps)
  case (Cons k ks)
  show ?case
  proof (cases "conns ps k")
    case (Some c)
    from table_ok_set_conn [OF Cons.prems Some assms] have "table_ok N (set_conn k (fst (f c)) ps)" .
    from Cons.IH [OF this] Some show ?thesis by (simp add: case_prod_unfold)
  qed (use Cons in simp)
qed simp

lemma connectionByPublicKey_found:
  "connectionByPublicKey order key ps = Some (k, c) \<Longrightarrow>
   conns ps k = Some c \<and> PeerPublicKey c = key \<and> k \<in> set order"
proof -
  assume a: "connectionByPublicKey order key ps = Some (k, c)"
  then obtain ks where f: "filter (\<lambda>k. \<exists>c. conns ps k = Some c \<and> PeerPublicKey c = key) order = k # ks"
    "conns ps k = Some c"
    by (auto simp: connectionByPublicKey_def split: list.splits)
  then have "k \<in> set (filter (\<lambda>k. \<exists>c. conns ps k = Some c \<and> PeerPublicKey c = key) order)" by simp
  with f(2) show ?thesis by auto
qed

lemma connectionByPublicKey_none:
  assumes "iteration_order ps order"
  shows "connectionByPublicKey order key ps = None \<longleftrightarrow> (\<forall>k c. conns ps k = Some c \<longrightarrow> PeerPublicKey c \<noteq> key)"
proof -
  have "connectionByPublicKey order key ps = None \<longleftrightarrow>
      filter (\<lambda>k. \<exists>c. conns ps k = Some c \<and> PeerPublicKey c = key) order = []"
  proof (cases "filter (\<lambda>k. \<exists>c. conns ps k = Some c \<and> PeerPublicKey c = key) order")
    case (Cons k ks)
    then have "k \<in> set (filter (\<lambda>k. \<exists>c. conns ps k = Some c \<and> PeerPublicKey c = key) order)" by simp
    then have "conns ps k \<noteq> None" by auto
    with Cons show ?thesis by (auto simp: connectionByPublicKey_def)
  qed (simp add: connectionByPublicKey_def)
  also have "\<dots> \<longleftrightarrow> (\<forall>k c. conns ps k = Some c \<longrightarrow> PeerPublicKey c \<noteq> key)"
    using assms by (auto simp: filter_empty_conv iteration_order_def)
  finally show ?thesis .
qed

section \<open>The service as a machine\<close>

datatype ps_event =
    PsConnect net_stream
  | PsRecovered string connection string
  | PsPeerList "metadata list"
  | PsSetSignature "string list" bytes
  | PsBan "string list" string
  | PsUnban "string list" string
  | PsSetKey string u32
  | PsSend "string list" string message_envelop
  | PsBroadcast "string list" message_envelop
  | PsConn string conn_sys conn_event
  | PsStop u64 "string list" "go_error option list"

definition ps_result ::
    "peer_service \<Rightarrow> (peer_service \<times> ps_action list) go \<Rightarrow> peer_service \<times> ps_action list go" where
  "ps_result ps r = (case r of Inl x \<Rightarrow> (ps, Inl x) | Inr (ps', acts) \<Rightarrow> (ps', ok acts))"

text \<open>
  \<open>PsConn k s e\<close> is a step of the connection under \<open>k\<close>, whose cycles are at the points given in \<open>s\<close>.
\<close>

definition ps_step ::
    "crypto_lib \<Rightarrow> net_lib \<Rightarrow> byte \<Rightarrow> peer_service \<Rightarrow> ps_event \<Rightarrow> peer_service \<times> ps_action list go" where
  "ps_step C N chainId ps e =
     (case e of
        PsConnect st \<Rightarrow> ps_result ps (onConnect N st ps)
      | PsRecovered k gone key \<Rightarrow> (onPublicKeyRecovered k gone key ps, ok [])
      | PsPeerList pcs \<Rightarrow> ps_result ps (updatePeerList N pcs ps)
      | PsSetSignature order sig \<Rightarrow>
          ps_result ps (and_then (SetSignature C N chainId order sig ps) (\<lambda>(ps', acts, _). ok (ps', acts)))
      | PsBan order key \<Rightarrow> (fst (BanPeer order key ps), ok [])
      | PsUnban order key \<Rightarrow> (fst (RemoveFromBanList order key ps), ok [])
      | PsSetKey key u \<Rightarrow>
          ps_result ps (and_then (SetPeerPublicKey C key u ps) (\<lambda>(ps', acts, _). ok (ps', acts)))
      | PsSend order key msg \<Rightarrow> (fst (SendMessageToPeer order key msg ps), ok [])
      | PsBroadcast order msg \<Rightarrow> (BroadcastMessage order msg ps, ok [])
      | PsConn k s ce \<Rightarrow>
          (case conns ps k of
             None \<Rightarrow> (ps, ok [])
           | Some c \<Rightarrow>
               (case conn_step C N chainId (s\<lparr>cs_conn := c\<rparr>) ce of
                  (s', Inl x) \<Rightarrow> (ps, Inl x)
                | (s', Inr acts) \<Rightarrow> (set_conn k (cs_conn s') ps, ok (map (Pair k) acts))))
      | PsStop rndId order closes \<Rightarrow> ps_result ps (Stop rndId order closes ps))"

lemma ps_result_ok: "(\<And>ps' acts. r = ok (ps', acts) \<Longrightarrow> table_ok N ps') \<Longrightarrow> table_ok N ps \<Longrightarrow>
    table_ok N (fst (ps_result ps r))"
  by (auto simp: ps_result_def split: sum.splits)

lemma BanPeer_ok: "table_ok N ps \<Longrightarrow> table_ok N (fst (BanPeer order key ps))"
  by (auto simp: BanPeer_def Let_def table_ok_cong [of "ps\<lparr>bannedPeer := z\<rparr>" ps for z] split: option.splits
      intro!: table_ok_set_conn dest!: connectionByPublicKey_found)

lemma RemoveFromBanList_ok: "table_ok N ps \<Longrightarrow> table_ok N (fst (RemoveFromBanList order key ps))"
  by (auto simp: RemoveFromBanList_def Let_def table_ok_cong [of "ps\<lparr>bannedPeer := z\<rparr>" ps for z]
      split: option.splits intro!: table_ok_set_conn dest!: connectionByPublicKey_found)

lemma SendMessageToPeer_ok: "table_ok N ps \<Longrightarrow> table_ok N (fst (SendMessageToPeer order key msg ps))"
  by (auto simp: SendMessageToPeer_def storeMessage_def table_ok_cong [of "ps\<lparr>messages := z\<rparr>" ps for z]
      split: option.splits intro!: table_ok_set_conn dest!: connectionByPublicKey_found)

lemma SetSignature_ok:
  "SetSignature C N chainId order sig ps = ok (ps', acts, b) \<Longrightarrow> table_ok N ps \<Longrightarrow> table_ok N ps'"
  using for_connections_ok [of "SetSignature_conn (Some sig)" N "ps\<lparr>Signature := Some sig\<rparr>" order]
  by (auto simp: SetSignature_def table_ok_cong [of "ps\<lparr>Signature := z\<rparr>" ps for z]
      split: sum.splits fault.splits prod.splits)

lemma SetPeerPublicKey_ok:
  "SetPeerPublicKey C key u ps = ok (ps', acts, b) \<Longrightarrow> table_ok N ps \<Longrightarrow> table_ok N ps'"
  by (auto simp: SetPeerPublicKey_def and_then_Inr_iff split: option.splits
      intro: table_ok_set_conn dest: TrySetPeerPublicKey_identity)

lemma BroadcastMessage_ok: "table_ok N ps \<Longrightarrow> table_ok N (BroadcastMessage order msg ps)"
  unfolding BroadcastMessage_def by (rule for_connections_ok) simp_all

lemma Stop_ok: "Stop r order closes ps = ok (ps', acts) \<Longrightarrow> table_ok N ps \<Longrightarrow> table_ok N ps'"
  by (auto simp: Stop_def split: if_splits prod.splits list.splits)

lemma ps_step_ok:
  assumes "table_ok N ps"
  shows "table_ok N (fst (ps_step C N chainId ps e))"
proof (cases e)
  case (PsConn k s ce)
  show ?thesis
  proof (cases "conns ps k")
    case (Some c)
    obtain s' r where st: "conn_step C N chainId (s\<lparr>cs_conn := c\<rparr>) ce = (s', r)" by fastforce
    have "same_identity c (cs_conn s')"
      using conn_step_identity [of "s\<lparr>cs_conn := c\<rparr>" C N chainId ce] st by simp
    with assms PsConn Some st show ?thesis
      by (cases r) (simp_all add: ps_step_def table_ok_set_conn)
  qed (use assms PsConn in \<open>simp add: ps_step_def\<close>)
qed (use assms in \<open>auto simp: ps_step_def updatePeerList_def and_then_Inr_iff
      intro!: ps_result_ok onPublicKeyRecovered_ok BanPeer_ok RemoveFromBanList_ok SendMessageToPeer_ok BroadcastMessage_ok
      intro: onConnect_ok updatePeerList_locked_ok SetSignature_ok SetPeerPublicKey_ok Stop_ok split: if_splits\<close>)

interpretation table: invariant_machine "ps_step C N chainId" "table_ok N" for C N chainId
  by unfold_locales (rule ps_step_ok)

section \<open>A new service\<close>

lemma connect_all_ok:
  "connect_all N mAddrs i ids ps = ok (ps', acts) \<Longrightarrow> table_ok N ps \<Longrightarrow> table_ok N ps'"
  by (induction ids arbitrary: i ps acts)
     (auto simp: and_then_Inr_iff connect_ps_def dest: open_connection_ok split: if_splits)

lemma PeerService_New_ok:
  assumes "PeerService_New N cfg lookup pid addrs network ver minVer = ok (ps, acts)"
  shows "table_ok N ps"
proof -
  have start: "table_ok N ps0" if "connections ps0 = Some Map.empty" "peerIds ps0 = Map.empty" "totalPeers ps0 = 0"
    for ps0 using that by (simp add: table_ok_def numbered_def)
  show ?thesis
    using assms
    by (auto simp: PeerService_New_def Let_def and_then_Inr_iff split: sum.splits fault.splits
        elim!: connect_all_ok intro!: start)
qed

lemma TrySetPeerPublicKey_no_panic [simp]: "\<not> is_panic (TrySetPeerPublicKey C key c)"
proof -
  have "\<not> is_panic (HexToPublicKey C key)" by (simp add: HexToPublicKey_def)
  then show ?thesis
    by (auto simp: TrySetPeerPublicKey_def case_prod_unfold split: sum.splits fault.splits)
qed

lemma numbered_conns:
  assumes "table_ok N ps" and "connections ps = Some m" and "card (dom m) \<le> 2 ^ 32"
  shows "numbered N m (peerIds ps) (totalPeers ps)"
  using assms by (simp add: table_ok_def)

section \<open>Postponed messages\<close>

definition unknown_key :: "string \<Rightarrow> peer_service \<Rightarrow> bool" where
  "unknown_key key ps \<longleftrightarrow> (\<forall>k c. conns ps k = Some c \<longrightarrow> PeerPublicKey c \<noteq> key)"

definition postponed :: "string \<Rightarrow> peer_service \<Rightarrow> message_envelop list" where
  "postponed key ps = (case messages ps key of None \<Rightarrow> [] | Some ms \<Rightarrow> ms)"

definition send_all_to :: "string list \<Rightarrow> string \<Rightarrow> message_envelop list \<Rightarrow> peer_service \<Rightarrow> peer_service" where
  "send_all_to order key ms ps = fold (\<lambda>m s. fst (SendMessageToPeer order key m s)) ms ps"

lemma SendMessageToPeer_postpones:
  assumes "iteration_order ps order" and "unknown_key key ps" and "bannedPeer ps key \<noteq> Some True"
  shows "fst (SendMessageToPeer order key m ps) =
    ps\<lparr>messages := (messages ps)(key \<mapsto> postponed key ps @ [m])\<rparr>"
proof -
  have "connectionByPublicKey order key ps = None"
    using assms(2) connectionByPublicKey_none [OF assms(1)] by (simp add: unknown_key_def)
  with assms(3) show ?thesis by (simp add: SendMessageToPeer_def storeMessage_def postponed_def)
qed

lemma send_all_postpones:
  assumes "iteration_order ps order" and "unknown_key key ps" and "bannedPeer ps key \<noteq> Some True"
  shows "postponed key (send_all_to order key ms ps) = postponed key ps @ ms \<and>
    connections (send_all_to order key ms ps) = connections ps \<and>
    running (send_all_to order key ms ps) = running ps \<and>
    bannedPeer (send_all_to order key ms ps) = bannedPeer ps"
  using assms
proof (induction ms arbitrary: ps)
  case (Cons m ms)
  let ?ps = "fst (SendMessageToPeer order key m ps)"
  note st = SendMessageToPeer_postpones [OF Cons.prems, of m]
  have "iteration_order ?ps order" "unknown_key key ?ps" "bannedPeer ?ps key \<noteq> Some True"
    using Cons.prems by (simp_all add: st iteration_order_def unknown_key_def conns_def)
  from Cons.IH [OF this] show ?case by (simp add: send_all_to_def st postponed_def)
qed (simp add: send_all_to_def)

lemma fold_Send_queue:
  assumes "\<not> isBanned c" and "\<forall>m \<in> set ms. env_data m \<noteq> None"
  shows "mq_list (messageQueue (fold Send ms c)) = mq_list (messageQueue c) @ map VEnvelop ms"
  using assms
  by (induction ms arbitrary: c) (simp_all add: Send_def addToQueue_def MQ_Enqueue_def)

lemma fold_Send_banned [simp]: "isBanned (fold Send ms c) = isBanned c"
  by (induction ms arbitrary: c) (simp_all add: Send_def addToQueue_def)

lemma onPublicKeyRecovered_flushes:
  fixes gone :: connection
  assumes "running ps" and "conns ps k = Some c" and "\<not> isBanned c"
    and "\<forall>m \<in> set (postponed key ps). env_data m \<noteq> None"
  defines "ps' \<equiv> onPublicKeyRecovered k gone key ps"
  shows "\<exists>c'. conns ps' k = Some c' \<and>
    mq_list (messageQueue c') = mq_list (messageQueue c) @ map VEnvelop (postponed key ps) \<and>
    postponed key ps' = [] \<and> (isBanned c' \<longleftrightarrow> bannedPeer ps key = Some True)"
proof -
  from assms(2) obtain m where m: "connections ps = Some m" "m k = Some c"
    by (auto simp: conns_def split: option.splits)
  show ?thesis
    using assms(1,2) m fold_Send_queue [OF assms(3,4)] assms(3)
    by (auto simp: ps'_def onPublicKeyRecovered_def flush_postponed_def postponed_def Let_def
        conns_def set_conn_def BanPeer_conn_def)
qed

section \<open>Properties\<close>

text \<open>
  C8: the number in front of every delivered message leads back to its connection: whatever happens after a service
  was created, as long as it has at most \<open>2 ^ 32\<close> connections, a connection is filed under the
  text of its peer's id, its number is registered for that text, no other connection has the same
  number, and \<open>SetPeerPublicKey\<close> with it does not panic.
\<close>
theorem numbers_lead_back:
  assumes "PeerService_New N cfg lookup pid addrs network ver minVer = ok (ps0, acts)"
    and "connections (fst (run (ps_step C N chainId) ps0 es)) = Some m" and "card (dom m) \<le> 2 ^ 32"
    and "m k = Some c"
  shows "k = Pretty N (PeerId c) \<and>
    peerIds (fst (run (ps_step C N chainId) ps0 es)) (UniqId c) = Some k \<and>
    (\<forall>k' c'. m k' = Some c' \<and> UniqId c' = UniqId c \<longrightarrow> k' = k) \<and>
    \<not> is_panic (SetPeerPublicKey C key (UniqId c) (fst (run (ps_step C N chainId) ps0 es)))"
proof -
  let ?ps = "fst (run (ps_step C N chainId) ps0 es)"
  have "table_ok N ?ps" by (rule table.run_inv [OF PeerService_New_ok [OF assms(1)]])
  from numbered_conns [OF this assms(2,3)] have n: "numbered N m (peerIds ?ps) (totalPeers ?ps)" .
  then have k: "k = Pretty N (PeerId c)" "peerIds ?ps (UniqId c) = Some k"
    using assms(4) by (auto simp: numbered_def)
  moreover have "k' = k" if "m k' = Some c'" "UniqId c' = UniqId c" for k' c'
  proof -
    from n that(1) have "peerIds ?ps (UniqId c') = Some k'" unfolding numbered_def by blast
    with k(2) that(2) show ?thesis by simp
  qed
  moreover have "conns ?ps k = Some c" using assms(2,4) by (simp add: conns_def)
  then have "\<not> is_panic (SetPeerPublicKey C key (UniqId c) ?ps)"
    by (simp add: SetPeerPublicKey_def k(2) case_prod_unfold)
  ultimately show ?thesis by blast
qed

definition sample_service :: peer_service where
  "sample_service =
     \<lparr>host_id = [9], host_addrs = [''/ip4/1''], myExternalAddress = ''/ip4/1'', connections = Some Map.empty,
      messages = Map.empty, peerIds = Map.empty, bannedPeer = Map.empty, running = True, Signature = None,
      networkName = ''net'', version = 1, minPeerVersion = 0, totalPeers = 0\<rparr>"

definition sample_inbound :: net_stream where
  "sample_inbound = \<lparr>str_id = 0, str_peer = [1], str_addr = Some ''/ip4/2''\<rparr>"

definition sample_peer :: connection where
  "sample_peer = fst (Connection_FromStream sample_inbound (Some ''/ip4/1'') None (own_protocol sample_service) 0)"

definition one_peer :: peer_service where
  "one_peer = sample_service\<lparr>totalPeers := 1, connections := Some [Pretty toy_net [1] \<mapsto> sample_peer],
     peerIds := [0 \<mapsto> Pretty toy_net [1]]\<rparr>"

lemma sample_service_new:
  "PeerService_New toy_net initial_config (Inr ''1'') [9] [''/ip4/1''] ''net'' 1 0 = ok (sample_service, [])"
proof -
  have "GetExternalMultiAddress toy_net initial_config (Inr ''1'') [''/ip4/1''] = ok ''/ip4/1''"
    by (simp add: GetExternalMultiAddress_def GetP2PExternalIP_def IPLookup_def initial_config_def)
  then show ?thesis
    by (simp add: PeerService_New_def GetBootstrapMultiaddrs_def GetBootstrapIDs_def initial_config_def
        sample_service_def)
qed

lemma one_peer_reached:
  "fst (run (ps_step C toy_net chainId) sample_service [PsConnect sample_inbound]) = one_peer"
  by (simp add: run_Cons ps_step_def ps_result_def onConnect_def sample_inbound_def sample_service_def conns_def
      getNextPeerId_def put_connection_def one_peer_def sample_peer_def Let_def case_prod_unfold)

lemma sample_peer_fields:
  "PeerId sample_peer = [1]" "UniqId sample_peer = 0" "isBanned sample_peer = False"
  "messageQueue sample_peer = NewMessageQueue" "PeerPublicKey sample_peer = []"
  "status sample_peer = NotConnected"
  by (simp_all add: sample_peer_def Connection_FromStream_def sample_inbound_def Let_def)

lemma numbers_lead_back_witness:
  "peerIds one_peer (UniqId sample_peer) = Some (Pretty toy_net [1]) \<and>
   \<not> is_panic (SetPeerPublicKey toy_crypto ''02'' (UniqId sample_peer) one_peer)"
proof -
  let ?m = "[Pretty toy_net [1] \<mapsto> sample_peer]"
  have m: "connections (fst (run (ps_step toy_crypto toy_net 42) sample_service [PsConnect sample_inbound])) = Some ?m"
    unfolding one_peer_reached by (simp add: one_peer_def)
  have "card (dom ?m) \<le> 2 ^ 32" by simp
  moreover have "?m (Pretty toy_net [1]) = Some sample_peer" by simp
  ultimately show ?thesis
    using numbers_lead_back [OF sample_service_new m, of "Pretty toy_net [1]" sample_peer "''02''"]
    unfolding one_peer_reached by blast
qed

text \<open>
  C16: postponed messages arrive once and in order: messages sent to a key no connection has yet are kept, and when a
  connection reports that key they are appended to its queue in the order they were sent, and the
  store for the key is empty afterwards.
\<close>
theorem postponed_delivered_in_order:
  fixes gone :: connection
  assumes "running ps" and "iteration_order ps order" and "unknown_key key ps"
    and "bannedPeer ps key \<noteq> Some True" and "postponed key ps = []"
    and "\<forall>m \<in> set ms. env_data m \<noteq> None"
    and "conns ps k \<noteq> None" and "\<not> isBanned c"
  shows "let ps' = onPublicKeyRecovered k gone key (set_conn k c (send_all_to order key ms ps)) in
    \<exists>c'. conns ps' k = Some c' \<and>
      mq_list (messageQueue c') = mq_list (messageQueue c) @ map VEnvelop ms \<and>
      \<not> isBanned c' \<and> postponed key ps' = []"
proof -
  let ?ps1 = "send_all_to order key ms ps"
  let ?ps2 = "set_conn k c ?ps1"
  note sent = send_all_postpones [OF assms(2-4), of ms]
  have two: "running ?ps2" "conns ?ps2 k = Some c" "postponed key ?ps2 = ms" "bannedPeer ?ps2 key \<noteq> Some True"
    using sent assms(1,4,5,7)
    by (auto simp: set_conn_def conns_def postponed_def split: option.splits)
  from onPublicKeyRecovered_flushes [OF two(1,2) assms(8), of key gone] two(3,4) assms(6)
  show ?thesis by (auto simp: Let_def)
qed

lemma postponed_delivered_in_order_witness:
  "let ms = [NewEnvelopWithId (Some [1]) KMessage 1, NewEnvelopWithId (Some [2]) KMessage 2];
       key = ''0207'';
       ps' = onPublicKeyRecovered (Pretty toy_net [1]) sample_peer key
         (set_conn (Pretty toy_net [1]) (sample_peer\<lparr>PeerPublicKey := key\<rparr>)
           (send_all_to [Pretty toy_net [1]] key ms one_peer)) in
   \<exists>c'. conns ps' (Pretty toy_net [1]) = Some c' \<and>
     mq_list (messageQueue c') = mq_list (messageQueue (sample_peer\<lparr>PeerPublicKey := key\<rparr>)) @ map VEnvelop ms \<and>
     \<not> isBanned c' \<and> postponed key ps' = []"
  using postponed_delivered_in_order [of one_peer "[Pretty toy_net [1]]" "''0207''"
      "[NewEnvelopWithId (Some [1]) KMessage 1, NewEnvelopWithId (Some [2]) KMessage 2]"
      "Pretty toy_net [1]" "sample_peer\<lparr>PeerPublicKey := ''0207''\<rparr>" sample_peer]
  unfolding Let_def
  by (simp add: one_peer_def sample_service_def conns_def iteration_order_def unknown_key_def postponed_def
      sample_peer_fields)

text \<open>
  A ban comes after the postponed messages: banning a key no connection has yet keeps the messages stored for
  it, and when a connection reports the key, they are all queued for the banned peer before the ban
  takes effect.
\<close>
theorem ban_keeps_postponed:
  fixes gone :: connection
  assumes "running ps" and "iteration_order ps order" and "unknown_key key ps"
    and "\<forall>m \<in> set (postponed key ps). env_data m \<noteq> None"
    and "conns ps k = Some c" and "\<not> isBanned c"
  shows "let ps' = onPublicKeyRecovered k gone key (fst (BanPeer order key ps)) in
    \<exists>c'. conns ps' k = Some c' \<and> isBanned c' \<and>
      mq_list (messageQueue c') = mq_list (messageQueue c) @ map VEnvelop (postponed key ps)"
proof -
  let ?ps1 = "fst (BanPeer order key ps)"
  let ?b = "ps\<lparr>bannedPeer := (bannedPeer ps)(key \<mapsto> True)\<rparr>"
  have "iteration_order ?b order" "unknown_key key ?b"
    using assms(2,3) by (simp_all add: iteration_order_def unknown_key_def conns_def)
  then have "connectionByPublicKey order key ?b = None"
    by (simp add: connectionByPublicKey_none unknown_key_def)
  then have ps1: "?ps1 = ?b" by (simp add: BanPeer_def Let_def)
  have "running ?ps1" "conns ?ps1 k = Some c" "postponed key ?ps1 = postponed key ps" "bannedPeer ?ps1 key = Some True"
    unfolding ps1 using assms(1,5) by (simp_all add: conns_def postponed_def)
  with onPublicKeyRecovered_flushes [of ?ps1 k c key gone] assms(4,6) show ?thesis
    by (auto simp: Let_def)
qed

lemma ban_keeps_postponed_witness:
  "let ps = one_peer\<lparr>messages := [''0207'' \<mapsto> [NewEnvelopWithId (Some [1]) KMessage 1]]\<rparr>;
       ps' = onPublicKeyRecovered (Pretty toy_net [1]) sample_peer ''0207''
         (fst (BanPeer [Pretty toy_net [1]] ''0207'' ps)) in
    \<exists>c'. conns ps' (Pretty toy_net [1]) = Some c' \<and> isBanned c' \<and>
      mq_list (messageQueue c') =
        mq_list (messageQueue sample_peer) @ map VEnvelop (postponed ''0207'' ps)"
  using ban_keeps_postponed [of "one_peer\<lparr>messages := [''0207'' \<mapsto> [NewEnvelopWithId (Some [1]) KMessage 1]]\<rparr>"
      "[Pretty toy_net [1]]" "''0207''" "Pretty toy_net [1]" sample_peer sample_peer]
  unfolding Let_def
  by (simp add: one_peer_def sample_service_def conns_def iteration_order_def unknown_key_def postponed_def
      sample_peer_fields)

text \<open>
  \<open>IsConnected\<close> compares the public key it is given with peer ids: in every state a service reaches it can
  only answer yes if the text is the id of a connected peer, so for the key of an active peer it
  answers no (unless the key happens to be some peer's id).
\<close>
theorem IsConnected_compares_ids:
  assumes "PeerService_New N cfg lookup pid addrs network ver minVer = ok (ps0, acts)"
    and "connections (fst (run (ps_step C N chainId) ps0 es)) = Some m" and "card (dom m) \<le> 2 ^ 32"
    and "IsConnected publicKey (fst (run (ps_step C N chainId) ps0 es))"
  shows "\<exists>c. m publicKey = Some c \<and> publicKey = Pretty N (PeerId c)"
proof -
  let ?ps = "fst (run (ps_step C N chainId) ps0 es)"
  have "table_ok N ?ps" by (rule table.run_inv [OF PeerService_New_ok [OF assms(1)]])
  from numbered_conns [OF this assms(2,3)] have "numbered N m (peerIds ?ps) (totalPeers ?ps)" .
  with assms(2,4) show ?thesis
    by (auto simp: IsConnected_def conns_def numbered_def split: option.splits)
qed

definition keyed_peer :: connection where
  "keyed_peer = handshake_done (sample_peer\<lparr>PeerPublicKey := ''0207''\<rparr>)"

lemma one_peer_with_key:
  "fst (run (ps_step toy_crypto toy_net chainId) sample_service
     [PsConnect sample_inbound, PsSetKey ''0207'' 0]) =
   one_peer\<lparr>connections := Some [Pretty toy_net [1] \<mapsto> keyed_peer]\<rparr>"
proof -
  have "HexToBytes ''0207'' = [2, 7]" by code_simp
  then have "HexToPublicKey toy_crypto ''0207'' = ok [7]" by (simp add: HexToPublicKey_def toy_crypto_def)
  then have "TrySetPeerPublicKey toy_crypto ''0207'' sample_peer = ok (keyed_peer, [OnPublicKeyRecovered ''0207''], True)"
    by (simp add: TrySetPeerPublicKey_def validatePublicKey_def sample_peer_fields keyed_peer_def)
  moreover have "run (ps_step toy_crypto toy_net chainId) sample_service [PsConnect sample_inbound, PsSetKey ''0207'' 0] =
      run (ps_step toy_crypto toy_net chainId) sample_service ([PsConnect sample_inbound] @ [PsSetKey ''0207'' 0])"
    by simp
  ultimately show ?thesis
    by (simp only: run_append one_peer_reached)
       (simp add: run_Cons ps_step_def ps_result_def SetPeerPublicKey_def one_peer_def conns_def set_conn_def)
qed

lemma IsConnected_compares_ids_witness:
  "IsActive keyed_peer \<and> PeerPublicKey keyed_peer = ''0207'' \<and>
   \<not> IsConnected ''0207'' (one_peer\<lparr>connections := Some [Pretty toy_net [1] \<mapsto> keyed_peer]\<rparr>)"
proof -
  let ?m = "[Pretty toy_net [1] \<mapsto> keyed_peer]"
  have m: "connections (fst (run (ps_step toy_crypto toy_net 42) sample_service
      [PsConnect sample_inbound, PsSetKey ''0207'' 0])) = Some ?m"
    unfolding one_peer_with_key by simp
  have "card (dom ?m) \<le> 2 ^ 32" by simp
  note no = IsConnected_compares_ids [OF sample_service_new m this, of "''0207''"]
  have "''0207'' \<noteq> Pretty toy_net [1]" by (simp add: toy_net_def bytes_text_def)
  with no have "\<not> IsConnected ''0207'' (one_peer\<lparr>connections := Some ?m\<rparr>)"
    unfolding one_peer_with_key by auto
  moreover have "IsActive keyed_peer"
    by (simp add: IsActive_def keyed_peer_def sample_peer_fields)
       (simp add: sample_peer_def Connection_FromStream_def Let_def)
  ultimately show ?thesis by (simp add: keyed_peer_def)
qed

text \<open>
  A peer list entry without an address crashes the hub: if the peer is neither the hub itself nor known, creating
  the connection formats the nil address and panics.
\<close>
theorem peer_without_address_panics:
  assumes "running ps" and "md_Id p \<noteq> host_id ps" and "conns ps (Pretty N (md_Id p)) = None"
    and "md_Addr p = None"
  shows "updatePeerList N (p # rest) ps = panic NilDeref"
  using assms
  by (simp add: updatePeerList_def update_peer_def open_connection_def getNextPeerId_def Connection_New_def)

lemma peer_without_address_panics_witness:
  "updatePeerList toy_net [sample_md\<lparr>md_Addr := None\<rparr>] one_peer = panic NilDeref"
  by (rule peer_without_address_panics)
     (simp_all add: one_peer_def sample_service_def sample_md_def conns_def toy_net_def bytes_text_def)

text \<open>
  Any peer can redirect another: a peer list naming a known peer replaces that connection's address, also one
  received in a verified signature, and changes nothing else of it; entries without an address, or
  for the hub itself, change nothing at all.
\<close>
theorem peer_list_overwrites_address:
  assumes "running ps" and "conns ps (Pretty N (md_Id p)) = Some c"
  shows "updatePeerList N [p] ps =
    ok ((if md_Id p \<noteq> host_id ps \<and> md_Addr p \<noteq> None
         then set_conn (Pretty N (md_Id p)) (c\<lparr>PeerAddress := md_Addr p\<rparr>) ps else ps), [])"
  using assms by (simp add: updatePeerList_def update_peer_def SetPeerAddress_def)

lemma peer_list_overwrites_address_witness:
  "updatePeerList toy_net [sample_md\<lparr>md_Id := [1]\<rparr>]
      (one_peer\<lparr>connections := Some [Pretty toy_net [1] \<mapsto> keyed_peer]\<rparr>) =
   ok (set_conn (Pretty toy_net [1]) (keyed_peer\<lparr>PeerAddress := Some ''/ip4/1''\<rparr>)
      (one_peer\<lparr>connections := Some [Pretty toy_net [1] \<mapsto> keyed_peer]\<rparr>), [])"
  using peer_list_overwrites_address [of "one_peer\<lparr>connections := Some [Pretty toy_net [1] \<mapsto> keyed_peer]\<rparr>"
      toy_net "sample_md\<lparr>md_Id := [1]\<rparr>" keyed_peer]
  by (simp add: one_peer_def sample_service_def conns_def sample_md_def)

lemma conns_set_conn: "conns (set_conn k c ps) = (if connections ps = None then Map.empty else (conns ps)(k \<mapsto> c))"
  by (simp add: conns_def set_conn_def split: option.splits)

lemma for_connections_map:
  "distinct ks \<Longrightarrow> set ks \<subseteq> dom (conns ps) \<Longrightarrow>
   conns (fst (for_connections f ks ps)) k =
     (if k \<in> set ks then map_option (\<lambda>c. fst (f c)) (conns ps k) else conns ps k)"
proof (induction ks arbitrary: ps)
  case (Cons k0 ks)
  then obtain c where c: "conns ps k0 = Some c" by auto
  then have ne: "connections ps \<noteq> None" by (auto simp: conns_def split: option.splits)
  let ?ps = "set_conn k0 (fst (f c)) ps"
  have sub: "set ks \<subseteq> dom (conns ?ps)" using Cons.prems(2) by (auto simp: conns_set_conn ne)
  have "distinct ks" "k0 \<notin> set ks" using Cons.prems(1) by simp_all
  from this(2) Cons.IH [OF this(1) sub] c ne show ?case
    by (auto simp: case_prod_unfold conns_set_conn)
qed simp

text \<open>
  A broadcast reaches every connection except those that are inactive with a known key: active ones, and also
  inactive ones that never completed a handshake (unless banned), get the message queued, the
  others are left alone.
\<close>
theorem broadcast_reaches:
  assumes "iteration_order ps order"
  shows "conns (BroadcastMessage order msg ps) k =
    map_option (\<lambda>c. if \<not> IsActive c \<and> PeerPublicKey c \<noteq> [] then c else Send msg c) (conns ps k)"
proof -
  have "conns (BroadcastMessage order msg ps) k =
      (if k \<in> set order
       then map_option (\<lambda>c. if \<not> IsActive c \<and> PeerPublicKey c \<noteq> [] then c else Send msg c) (conns ps k)
       else conns ps k)"
    unfolding BroadcastMessage_def
    by (subst for_connections_map) (use assms in \<open>auto simp: iteration_order_def intro: option.map_cong0\<close>)
  moreover have "conns ps k = None" if "k \<notin> set order"
    using that assms by (auto simp: iteration_order_def)
  ultimately show ?thesis by auto
qed

lemma broadcast_reaches_witness:
  "conns (BroadcastMessage [Pretty toy_net [1]] (NewEnvelopWithId (Some [7]) KMessage 5) one_peer) (Pretty toy_net [1]) =
   Some (Send (NewEnvelopWithId (Some [7]) KMessage 5) sample_peer)"
proof -
  have "iteration_order one_peer [Pretty toy_net [1]]"
    by (simp add: iteration_order_def one_peer_def conns_def)
  note reached = broadcast_reaches [OF this]
  have "conns one_peer (Pretty toy_net [1]) = Some sample_peer" by (simp add: one_peer_def conns_def)
  then show ?thesis by (simp add: reached sample_peer_fields)
qed

text \<open>
  A stopped service is a trap for two of its methods: after a \<open>Stop\<close> that returned, \<open>SetPeerPublicKey\<close>
  panics for every number, and a peer list whose callback had tested \<open>running\<close> before the stop and
  gets the lock after it writes to the nil map and panics.
\<close>
theorem stopped_service_panics:
  assumes "running ps" and "Stop rndId order closes ps = ok (ps', acts)"
  shows "is_panic (SetPeerPublicKey C key u ps') \<and>
    (md_Id p \<noteq> host_id ps' \<and> md_Addr p \<noteq> None \<longrightarrow>
      updatePeerList_locked N (p # rest) ps' = panic NilMapWrite)"
proof -
  have none: "connections ps' = None"
    using assms by (auto simp: Stop_def split: prod.splits list.splits)
  then have "is_panic (SetPeerPublicKey C key u ps')"
    by (simp add: SetPeerPublicKey_def conns_def split: option.splits)
  moreover have "updatePeerList_locked N (p # rest) ps' = panic NilMapWrite"
    if "md_Id p \<noteq> host_id ps'" "md_Addr p = Some a" for a
    using that none
    by (auto simp: update_peer_def conns_def open_connection_def getNextPeerId_def Connection_New_def
        put_connection_def Let_def case_prod_unfold)
  ultimately show ?thesis by blast
qed

lemma stopped_service_panics_witness:
  "is_panic (SetPeerPublicKey toy_crypto ''0207'' 0 (sample_service\<lparr>running := False, connections := None\<rparr>)) \<and>
   updatePeerList_locked toy_net [sample_md] (sample_service\<lparr>running := False, connections := None\<rparr>) =
     panic NilMapWrite"
proof -
  have "Stop 7 [] [None, None, None, None] sample_service =
      ok (sample_service\<lparr>running := False, connections := None\<rparr>, [])"
    by (simp add: Stop_def sample_service_def)
  from stopped_service_panics [OF _ this, of toy_crypto "''0207''" 0 sample_md toy_net "[]"]
  show ?thesis by (simp add: sample_service_def sample_md_def)
qed

text \<open>
  \<open>DisableIpLookup\<close> makes the service unusable: with the lookup switched off the external address cannot be
  determined and creating the service panics.
\<close>
theorem no_service_without_lookup:
  assumes "cfg = DisableIpLookup cfg0"
  shows "PeerService_New N cfg lookup pid addrs network ver minVer =
    panic (PanicErr (ErrText ''GetExternalMultiAddress: external IP cannot be determined''))"
  by (simp add: assms PeerService_New_def GetExternalMultiAddress_def GetP2PExternalIP_def DisableIpLookup_def)

lemma no_service_without_lookup_witness:
  "is_panic (PeerService_New toy_net (DisableIpLookup initial_config) (Inr ''1'') [9] [''/ip4/1''] ''net'' 1 0)"
  by (subst no_service_without_lookup) simp_all

end
