(* ===== verification/Peer_Facts.thy ===== *)
theory Peer_Facts
  imports Peer_Table
begin

text \<open>
  Facts about single connections that hold for every connection of a service: a contract that a
  predicate has to meet once, for the constructors and the steps of a connection, and its
  consequence for the whole table. With it: every connection knows an address of its peer, so the
  fallback of dialling through relays is never reached.
\<close>

section \<open>From one connection to the table\<close>

definition all_conns :: "(connection \<Rightarrow> bool) \<Rightarrow> peer_service \<Rightarrow> bool" where
  "all_conns P ps \<longleftrightarrow> (\<forall>k c. conns ps k = Some c \<longrightarrow> P c)"

lemma all_conns_cong: "connections ps' = connections ps \<Longrightarrow> all_conns P ps' = all_conns P ps"
  by (simp add: all_conns_def conns_def)

lemma all_conns_set [intro]: "all_conns P ps \<Longrightarrow> P c \<Longrightarrow> all_conns P (set_conn k c ps)"
  by (auto simp: all_conns_def conns_def set_conn_def split: option.splits if_splits)

lemma all_connsD [dest]: "all_conns P ps \<Longrightarrow> conns ps k = Some c \<Longrightarrow> P c"
  by (simp add: all_conns_def)

lemma conns_other [simp]:
  "conns (ps\<lparr>bannedPeer := x\<rparr>) = conns ps"
  "conns (ps\<lparr>messages := y\<rparr>) = conns ps"
  "conns (ps\<lparr>Signature := z\<rparr>) = conns ps"
  by (simp_all add: conns_def)

text \<open>
  The steps of connections among the events of a service that are considered, their own and the
  one the node starts with \<open>SetPeerPublicKey\<close>.
\<close>

definition conn_events :: "(conn_event \<Rightarrow> bool) \<Rightarrow> ps_event \<Rightarrow> bool" where
  "conn_events allowed e \<longleftrightarrow>
     (case e of PsConn k s ce \<Rightarrow> allowed ce | PsSetKey key u \<Rightarrow> allowed (EvTrySetKey key) | _ \<Rightarrow> True)"

text \<open>
  The other methods the service calls on a connection: each of them is one event of the connection.
\<close>

definition service_calls :: "conn_event set" where
  "service_calls =
     range EvSetInbound \<union> range EvApiSend \<union> range EvSetSignature \<union>
     range (\<lambda>a. EvSetAddress (Some a)) \<union> {EvBan, EvUnban} \<union> range EvTerminate"

locale connection_fact =
  fixes C :: crypto_lib and N :: net_lib and chainId :: byte
    and P :: "connection \<Rightarrow> bool" and allowed :: "conn_event \<Rightarrow> bool"
  assumes created: "P ((conn_init pid protocol my u)\<lparr>PeerAddress := Some a\<rparr>)"
    and accepted: "P ((conn_init pid protocol my u)\<lparr>PeerAddress := Some a, inboundStream := Some st\<rparr>)"
    and step: "P (cs_conn s) \<Longrightarrow> allowed e \<Longrightarrow> P (cs_conn (fst (conn_step C N chainId s e)))"
    and calls: "e \<in> service_calls \<Longrightarrow> allowed e"
begin

lemma call: "P c \<Longrightarrow> e \<in> service_calls \<Longrightarrow> P (cs_conn (fst (conn_step C N chainId (conn_start 0 c) e)))"
  using step [of "conn_start 0 c" e] calls by (simp add: conn_start_def)

lemma methods:
  assumes "P c"
  shows "P (fst (SetInboundStream st c))" "P (Send msg c)" "P (fst (SetSignature_conn sig c))"
    "P (SetPeerAddress (Some a) c)" "P (BanPeer_conn c)" "P (RemoveFromBanList_conn c)" "P (fst (Terminate r c))"
  using call [OF assms, of "EvSetInbound st"] call [OF assms, of "EvApiSend msg"]
    call [OF assms, of "EvSetSignature sig"] call [OF assms, of "EvSetAddress (Some a)"]
    call [OF assms, of EvBan] call [OF assms, of EvUnban] call [OF assms, of "EvTerminate r"]
  by (simp_all add: conn_step_def conn_start_def service_calls_def case_prod_unfold)

lemma tried: "TrySetPeerPublicKey C key c = ok (c', acts, b) \<Longrightarrow> P c \<Longrightarrow> allowed (EvTrySetKey key) \<Longrightarrow> P c'"
  using step [of "conn_start 0 c" "EvTrySetKey key"] by (simp add: conn_step_def conn_start_def)

lemma fold_sends: "P c \<Longrightarrow> P (fold Send ms c)"
  by (induction ms arbitrary: c) (simp_all add: methods)

lemma signed: "P c \<Longrightarrow> SetSignature_conn sig c = (c', acts) \<Longrightarrow> P c'"
  using methods(3) [of c sig] by simp

lemma opens:
  assumes "open_connection N pid a sig ps = ok (ps', acts)" and "all_conns P ps"
  shows "all_conns P ps'"
proof -
  from assms(1) obtain c acts0 m where c:
    "Connection_New pid (own_protocol ps) (Some (myExternalAddress ps)) a sig (totalPeers ps) = ok (c, acts0)"
    "connections ps = Some m" "connections ps' = Some (m(Pretty N pid \<mapsto> c))"
    by (auto simp: open_connection_def getNextPeerId_def and_then_Inr_iff put_connection_def split: option.splits)
  have "P c" using c(1) created signed [OF created]
    by (auto simp: Connection_New_def Let_def split: option.splits if_splits prod.splits)
  with c(2,3) assms(2) show ?thesis by (auto simp: all_conns_def conns_def)
qed

lemma accepts:
  assumes "onConnect N st ps = ok (ps', acts)" and "all_conns P ps"
  shows "all_conns P ps'"
proof (cases "running ps \<and> conns ps (Pretty N (str_peer st)) = None")
  case True
  from assms(1) True obtain a where a: "str_addr st = Some a"
    by (auto simp: onConnect_def split: if_splits)
  obtain c acts0 where c: "Connection_FromStream st (Some (myExternalAddress ps)) (Signature ps)
      (own_protocol ps) (totalPeers ps) = (c, acts0)" by fastforce
  with True assms(1) a obtain m where m: "connections ps = Some m"
    "connections ps' = Some (m(Pretty N (str_peer st) \<mapsto> c))"
    by (auto simp: onConnect_def Let_def getNextPeerId_def put_connection_def split: option.splits)
  have "P c" using c a accepted signed [OF accepted]
    by (auto simp: Connection_FromStream_def Let_def split: if_splits prod.splits)
  with m assms(2) show ?thesis by (auto simp: all_conns_def conns_def)
next
  case False
  with assms methods(1) show ?thesis
    by (auto simp: onConnect_def Let_def case_prod_unfold split: if_splits option.splits)
qed

lemma each: "(\<And>c. P c \<Longrightarrow> P (fst (f c))) \<Longrightarrow> all_conns P ps \<Longrightarrow> all_conns P (fst (for_connections f ks ps))"
  by (induction ks arbitrary: ps) (auto simp: case_prod_unfold split: option.splits)

lemma listed: "updatePeerList_locked N pcs ps = ok (ps', acts) \<Longrightarrow> all_conns P ps \<Longrightarrow> all_conns P ps'"
proof (induction pcs arbitrary: ps acts)
  case (Cons p pcs)
  from Cons.prems(1) obtain ps1 acts1 acts2 where u: "update_peer N p ps = ok (ps1, acts1)"
    "updatePeerList_locked N pcs ps1 = ok (ps', acts2)" by (auto simp: and_then_Inr_iff)
  from u(1) Cons.prems(2) methods(4) have "all_conns P ps1"
    by (auto simp: update_peer_def Let_def intro: opens split: if_splits option.splits)
  with Cons.IH u(2) show ?case by blast
qed simp

lemma recovers:
  assumes "all_conns P ps"
  shows "all_conns P (onPublicKeyRecovered k gone key ps)"
proof (cases "conns ps k")
  case None
  with assms show ?thesis
    by (auto simp: onPublicKeyRecovered_def flush_postponed_def Let_def
        all_conns_cong [of "ps\<lparr>messages := z\<rparr>" ps for z])
next
  case (Some c)
  with assms have "P (fold Send ms c)" "P (BanPeer_conn (fold Send ms c))" for ms
    by (auto intro: fold_sends methods)
  with Some assms show ?thesis
    by (auto simp: onPublicKeyRecovered_def flush_postponed_def Let_def
        all_conns_cong [of "ps\<lparr>messages := z\<rparr>" ps for z] intro!: all_conns_set)
qed

lemma result: "(\<And>ps' acts. r = ok (ps', acts) \<Longrightarrow> all_conns P ps') \<Longrightarrow> all_conns P ps \<Longrightarrow>
    all_conns P (fst (ps_result ps r))"
  by (auto simp: ps_result_def split: sum.splits)

lemma service_step:
  assumes "all_conns P ps" and "conn_events allowed e"
  shows "all_conns P (fst (ps_step C N chainId ps e))"
proof (cases e)
  case (PsConn k s ce)
  show ?thesis
  proof (cases "conns ps k")
    case (Some c)
    with assms(1) have "P c" by blast
    then have "P (cs_conn (fst (conn_step C N chainId (s\<lparr>cs_conn := c\<rparr>) ce)))"
      using step [of "s\<lparr>cs_conn := c\<rparr>" ce] assms(2) PsConn by (simp add: conn_events_def)
    with assms(1) PsConn Some show ?thesis
      by (auto simp: ps_step_def split: prod.splits sum.splits)
  qed (use assms PsConn in \<open>simp add: ps_step_def\<close>)
next
  case (PsSetSignature order sig)
  have "all_conns P (fst (for_connections (SetSignature_conn (Some sig)) order (ps\<lparr>Signature := Some sig\<rparr>)))"
    using each [of "SetSignature_conn (Some sig)" "ps\<lparr>Signature := Some sig\<rparr>"] methods(3)
      all_conns_cong [of "ps\<lparr>Signature := Some sig\<rparr>" ps] assms(1) by simp
  with PsSetSignature assms(1) show ?thesis
    by (auto simp: ps_step_def SetSignature_def and_then_Inr_iff intro!: result split: sum.splits fault.splits prod.splits)
next
  case (PsStop r order closes)
  have "all_conns P ps'" if "connections ps' = None" for ps' using that by (simp add: all_conns_def conns_def)
  with PsStop assms(1) show ?thesis
    by (auto simp: ps_step_def Stop_def intro!: result split: if_splits prod.splits list.splits)
next
  case (PsBroadcast order msg)
  then show ?thesis using assms(1) by (auto simp: ps_step_def BroadcastMessage_def intro!: each methods(2))
next
  case (PsSetKey key u)
  have "all_conns P ps'" if "SetPeerPublicKey C key u ps = ok (ps', acts, b)" for ps' acts b
    using that assms PsSetKey
    by (auto simp: SetPeerPublicKey_def and_then_Inr_iff conn_events_def split: option.splits dest: tried)
  with PsSetKey assms(1) show ?thesis by (auto simp: ps_step_def and_then_Inr_iff intro!: result)
next
  case (PsConnect st)
  then show ?thesis using assms(1) accepts by (auto simp: ps_step_def intro!: result)
next
  case (PsPeerList pcs)
  then show ?thesis using assms(1) listed
    by (auto simp: ps_step_def updatePeerList_def intro!: result split: if_splits)
next
  case (PsBan order key)
  with assms(1) show ?thesis
    by (auto simp: ps_step_def BanPeer_def Let_def all_conns_cong [of "ps\<lparr>bannedPeer := z\<rparr>" ps for z]
        intro!: all_conns_set methods(2,5,6) dest!: connectionByPublicKey_found split: option.splits)
next
  case (PsUnban order key)
  with assms(1) show ?thesis
    by (auto simp: ps_step_def RemoveFromBanList_def Let_def all_conns_cong [of "ps\<lparr>bannedPeer := z\<rparr>" ps for z]
        intro!: all_conns_set methods(2,5,6) dest!: connectionByPublicKey_found split: option.splits)
next
  case (PsSend order key msg)
  with assms(1) show ?thesis
    by (auto simp: ps_step_def SendMessageToPeer_def storeMessage_def
        all_conns_cong [of "ps\<lparr>messages := z\<rparr>" ps for z]
        intro!: all_conns_set methods(2,5,6) dest!: connectionByPublicKey_found split: option.splits)
next
  case (PsRecovered k gone key)
  with recovers [OF assms(1)] show ?thesis by (simp add: ps_step_def)
qed

lemma connects: "connect_all N mAddrs i ids ps = ok (ps', acts) \<Longrightarrow> all_conns P ps \<Longrightarrow> all_conns P ps'"
  by (induction ids arbitrary: i ps acts)
     (auto simp: and_then_Inr_iff connect_ps_def dest: opens split: if_splits)

lemma new_service:
  assumes "PeerService_New N cfg lookup pid addrs network ver minVer = ok (ps, acts)"
  shows "all_conns P ps"
proof -
  have "all_conns P ps0" if "connections ps0 = Some Map.empty" for ps0
    using that by (simp add: all_conns_def conns_def)
  with assms show ?thesis
    by (auto simp: PeerService_New_def Let_def and_then_Inr_iff split: sum.splits fault.splits elim!: connects)
qed

lemma service_run:
  assumes "all_conns P ps" and "\<forall>e \<in> set es. conn_events allowed e"
  shows "all_conns P (fst (run (ps_step C N chainId) ps es))"
  using assms by (induction es arbitrary: ps) (simp_all add: run_Cons service_step)

end

section \<open>Every connection knows an address\<close>

definition addressed :: "connection \<Rightarrow> bool" where
  "addressed c \<longleftrightarrow> PeerAddress c \<noteq> None"

lemma addressed_fields [simp]:
  "PeerAddress (fst (resetInboundStream c)) = PeerAddress c"
  "PeerAddress (fst (resetOutboundStream c)) = PeerAddress c"
  "PeerAddress (fst (open_stream h c)) = PeerAddress c"
  "PeerAddress (fst (SetInboundStream st c)) = PeerAddress c"
  "PeerAddress (fst (Terminate r c)) = PeerAddress c"
  by (simp_all add: resetInboundStream_def resetOutboundStream_def open_stream_def SetInboundStream_def
      Terminate_def cas_status_def Let_def split: option.splits sum.splits)

lemma handle_frame_addressed:
  assumes "handle_frame C N chainId f c = ok (c', acts)" and "addressed c"
  shows "addressed c'"
proof (cases "frm_kind f = FSignature")
  case True
  with assms(1) have "handleSignature C N chainId (frm_data f) c = ok (c', acts)"
    by (simp add: handle_frame_def frame_kind_defs)
  from handleSignature_returns [OF this] assms(2) show ?thesis
    by (auto simp: addressed_def dest: arg_cong [of _ _ fst])
next
  case False
  with assms show ?thesis
    by (auto simp: handle_frame_def Let_def handlePeers_def confirmationReceived_def addToQueue_def
          and_then_Inr_iff addressed_def split: if_splits option.splits)
qed

lemma receive_frame_addressed:
  assumes "receive_frame C N chainId f c = ok (c', acts)" and "addressed c"
  shows "addressed c'"
proof -
  from assms(1) obtain c1 b acts' where 1: "spam_filter (frm_msgId f) c = ok (c1, b)"
    and 2: "(if b then handle_frame C N chainId f c1 else ok (c1, [])) = ok (c', acts')"
    by (rule receive_frame_ok)
  have "PeerAddress c1 = PeerAddress c" by (subst spam_filter_effect [OF 1]) simp
  with 2 assms(2) show ?thesis
    by (auto simp: addressed_def split: if_splits dest: handle_frame_addressed [unfolded addressed_def])
qed

lemma recv_step_addressed:
  assumes "recv_step C N chainId res (pc, c) = ok (pc', c', acts)" and "addressed c"
  shows "addressed c'"
  using assms
  by (cases pc; cases res)
     (auto simp: recv_step_def resetInboundStream_def and_then_Inr_iff addressed_def
        split: if_splits option.splits fault.splits dest!: receive_frame_addressed [unfolded addressed_def])

lemma send_step_addressed:
  assumes "send_step N h (l, c) = ok (l', c', acts)"
  shows "PeerAddress c' = PeerAddress c"
proof -
  have chk: "PeerAddress (fst (checkOutboundStream N h c)) = PeerAddress c"
    by (simp add: checkOutboundStream_def case_prod_unfold split: option.splits)
  have wr: "PeerAddress (fst (snd (send_write h l c))) = PeerAddress c"
    by (auto simp: send_write_def send_failed_def Let_def build_frame_def addMsgIdToConfirm_def
        removeMsgIdFromConfirm_def addToQueue_def resetOutboundStream_def split: option.splits prod.splits)
  show ?thesis
    using assms chk wr
    by (cases "sl_pc l")
       (auto simp: send_step_def send_top_def send_dequeue_def Let_def
          split: if_splits prod.splits option.splits sum.splits)
qed

lemma conn_step_addressed:
  assumes "addressed (cs_conn s)" and "e \<noteq> EvSetAddress None"
  shows "addressed (cs_conn (fst (conn_step C N chainId s e)))"
proof (cases e)
  case (EvRecv res)
  then show ?thesis using assms recv_step_addressed [of C N chainId res "cs_recv s" "cs_conn s"]
    by (auto simp: conn_step_def split: sum.splits)
next
  case (EvSend h)
  then show ?thesis using assms send_step_addressed [of N h "cs_send s" "cs_conn s"]
    by (auto simp: conn_step_def addressed_def split: sum.splits)
next
  case (EvTrySetKey k)
  then show ?thesis using assms
    by (auto simp: conn_step_def TrySetPeerPublicKey_def addressed_def resetInboundStream_def Let_def
        split: sum.splits if_splits option.splits fault.splits)
next
  case (EvSetAddress a)
  with assms show ?thesis by (simp add: conn_step_def SetPeerAddress_def addressed_def)
next
  case EvTerminateEnd
  then show ?thesis using assms
    by (auto simp: conn_step_def Let_def Terminate_end_def addressed_def split: option.splits if_splits)
qed (use assms in \<open>auto simp: conn_step_def Let_def Send_def addToQueue_def SetSignature_conn_def addressed_def
      BanPeer_conn_def RemoveFromBanList_conn_def case_prod_unfold split: sum.splits\<close>)

interpretation known_address: connection_fact C N chainId addressed "\<lambda>e. e \<noteq> EvSetAddress None" for C N chainId
proof unfold_locales
  show "addressed (cs_conn s) \<Longrightarrow> e \<noteq> EvSetAddress None \<Longrightarrow>
      addressed (cs_conn (fst (conn_step C N chainId s e)))" for s e
    by (rule conn_step_addressed)
qed (auto simp: addressed_def service_calls_def)

lemma relays_unused: "addressed c \<Longrightarrow> checkOutboundStream N (h\<lparr>he_relays := rs\<rparr>) c = checkOutboundStream N h c"
proof -
  have [simp]: "open_stream (h\<lparr>he_relays := rs\<rparr>) d = open_stream h d" for d by (simp add: open_stream_def)
  show "addressed c \<Longrightarrow> ?thesis"
    by (auto simp: checkOutboundStream_def connect_conn_def addressed_def case_prod_unfold split: option.splits)
qed

text \<open>
  C22: dialling through a relay is dead code. Whatever happens to a service, each of its connections
  knows an address of its peer: without one \<open>New\<close> has panicked, an inbound stream brings its own,
  and \<open>SetPeerAddress\<close>, whose only call is guarded, never gets a nil address. So
  \<open>checkOutboundStream\<close> does the same whatever relays are available, and \<open>connectToPeerUsingRelay\<close>
  and the limit of three attempts are never reached.
\<close>
theorem relay_fallback_unreachable:
  assumes "PeerService_New N cfg lookup pid addrs network ver minVer = ok (ps0, acts)"
    and "\<forall>e \<in> set es. conn_events (\<lambda>ce. ce \<noteq> EvSetAddress None) e"
    and "conns (fst (run (ps_step C N chainId) ps0 es)) k = Some c"
  shows "PeerAddress c \<noteq> None \<and>
    (\<forall>h relays. checkOutboundStream N (h\<lparr>he_relays := relays\<rparr>) c = checkOutboundStream N h c)"
proof -
  from known_address.service_run [OF known_address.new_service [OF assms(1)] assms(2)] assms(3)
  have "addressed c" by blast
  then show ?thesis using relays_unused by (auto simp: addressed_def)
qed

lemma relay_fallback_unreachable_witness:
  "PeerAddress sample_peer \<noteq> None"
proof -
  have "conns (fst (run (ps_step toy_crypto toy_net 42) sample_service [PsConnect sample_inbound])) (Pretty toy_net [1]) =
      Some sample_peer"
    unfolding one_peer_reached by (simp add: one_peer_def conns_def)
  from relay_fallback_unreachable [OF sample_service_new _ this] show ?thesis by (simp add: conn_events_def)
qed

section \<open>Where a key comes from\<close>

text \<open>
  The two events of a connection that can give it a key: a signature frame from which exactly that key
  is recovered over the peer's id, and the node's \<open>SetPeerPublicKey\<close> with that text, if it parses.
\<close>

definition key_source :: "crypto_lib \<Rightarrow> net_lib \<Rightarrow> byte \<Rightarrow> peer_id \<Rightarrow> string \<Rightarrow> conn_event \<Rightarrow> bool" where
  "key_source C N chainId pid key e \<longleftrightarrow>
     (case e of
        EvRecv (Inr f) \<Rightarrow> key_evidence C N chainId pid key f
      | EvTrySetKey k \<Rightarrow> k = key \<and> (case HexToPublicKey C k of Inl _ \<Rightarrow> False | Inr _ \<Rightarrow> True)
      | _ \<Rightarrow> False)"

lemma recv_step_source:
  assumes "recv_step C N chainId res (pc, c) = ok (pc', c', acts)"
  shows "PeerPublicKey c' = PeerPublicKey c \<or> key_source C N chainId (PeerId c) (PeerPublicKey c') (EvRecv res)"
proof (cases "\<exists>st f. pc = RReading st \<and> res = ok f")
  case True
  with assms obtain f acts' where "res = ok f" "receive_frame C N chainId f c = ok (c', acts')"
    by (auto simp: recv_step_def and_then_Inr_iff)
  with receive_frame_key [OF this(2)] show ?thesis by (auto simp: key_source_def key_evidence_def)
next
  case False
  with assms show ?thesis
    by (cases pc; cases res) (auto simp: recv_step_def resetInboundStream_def split: if_splits option.splits fault.splits)
qed

lemma conn_step_source:
  "PeerPublicKey (cs_conn (fst (conn_step C N chainId s e))) = PeerPublicKey (cs_conn s) \<or>
   key_source C N chainId (PeerId (cs_conn s)) (PeerPublicKey (cs_conn (fst (conn_step C N chainId s e)))) e"
proof (cases e)
  case (EvRecv res)
  then show ?thesis using recv_step_source [of C N chainId res "cs_recv s" "cs_conn s"]
    by (auto simp: conn_step_def split: sum.splits)
next
  case (EvSend h)
  then show ?thesis using send_step_key [of N h "cs_send s" "cs_conn s"]
    by (auto simp: conn_step_def split: sum.splits)
next
  case (EvTrySetKey k)
  then show ?thesis
    by (auto simp: conn_step_def TrySetPeerPublicKey_def key_source_def Let_def resetInboundStream_def
        split: sum.splits if_splits option.splits fault.splits)
next
  case (EvTerminate r)
  then show ?thesis
    by (simp add: conn_step_def Terminate_def resetInboundStream_def resetOutboundStream_def Let_def
        split: option.splits)
qed (auto simp: conn_step_def Let_def conn_defs Terminate_end_def split: sum.splits)

text \<open>
  C12: no peer can talk the hub into a public key that is not its own: whatever happens to a connection that had
  no key, and in whatever order, either it still has none, or a frame it read carried a signature over this
  peer's id from which exactly that key was recovered, or the node itself set that key, which parses,
  with \<open>SetPeerPublicKey\<close>.
\<close>
theorem key_has_source:
  assumes "PeerPublicKey (cs_conn s) = []"
  shows "let key = PeerPublicKey (cs_conn (fst (run (conn_step C N chainId) s es))) in
    key = [] \<or> (\<exists>e \<in> set es. key_source C N chainId (PeerId (cs_conn s)) key e)"
  using assms
proof (induction es arbitrary: s)
  case (Cons e es)
  let ?s = "fst (conn_step C N chainId s e)"
  have pid: "PeerId (cs_conn ?s) = PeerId (cs_conn s)"
    using conn_step_identity [of s C N chainId e] by (simp add: same_identity_def)
  show ?case
  proof (cases "PeerPublicKey (cs_conn ?s) = []")
    case True
    from Cons.IH [OF this] pid show ?thesis by (auto simp: run_Cons Let_def)
  next
    case False
    with conn_step_source [of C N chainId s e] Cons.prems
    have "key_source C N chainId (PeerId (cs_conn s)) (PeerPublicKey (cs_conn ?s)) e" by simp
    moreover have "PeerPublicKey (cs_conn (fst (run (conn_step C N chainId) ?s es))) = PeerPublicKey (cs_conn ?s)"
      using final_key.run_inv [of "PeerPublicKey (cs_conn ?s)" ?s C N chainId es] False by simp
    ultimately show ?thesis by (simp add: run_Cons Let_def)
  qed
qed (simp add: Let_def)

lemma key_has_source_witness:
  "key_source toy_crypto toy_net 200 [1, 2] (BytesToHex [2, 7]) (EvRecv (ok sample_signature_frame))"
proof -
  let ?s = "conn_start 0 ((conn_init [1, 2] ''p'' None 0)\<lparr>inboundStream := Some sample_stream\<rparr>)"
  let ?es = "[EvRecv (fail EOF), EvRecv (ok sample_signature_frame)]"
  have key: "PeerPublicKey (cs_conn (fst (run (conn_step toy_crypto toy_net 200) ?s ?es))) = BytesToHex [2, 7]"
    by code_simp
  have "PeerPublicKey (cs_conn ?s) = []" "PeerId (cs_conn ?s) = [1, 2]" by (simp_all add: conn_start_def conn_init_def)
  with key_has_source [of ?s toy_crypto toy_net 200 ?es] key show ?thesis
    by (simp add: Let_def BytesToHex_def key_source_def)
qed

section \<open>A completed handshake knows the key\<close>

definition keyed :: "connection \<Rightarrow> bool" where
  "keyed c \<longleftrightarrow> (status c = HandshakeComplete \<longrightarrow> PeerPublicKey c \<noteq> [])"

text \<open>What the code relies on in go-ethereum: a compressed key is not empty, and nothing is not a key.\<close>

definition keys_not_empty :: "crypto_lib \<Rightarrow> bool" where
  "keys_not_empty C \<longleftrightarrow> (\<forall>pk. CompressPubkey C pk \<noteq> []) \<and> (\<exists>e. DecompressPubkey C [] = Inl e)"

lemma hex_key_not_empty [simp]: "keys_not_empty C \<Longrightarrow> PublicKeyToHexString C pk \<noteq> []"
  using length_BytesToHex [of "CompressPubkey C pk"]
  by (auto simp: keys_not_empty_def PublicKeyToHexString_def simp del: length_BytesToHex)

lemma keyed_fields [simp]:
  "keyed (fst (resetInboundStream c)) = keyed c"
  "keyed (fst (resetOutboundStream c)) = keyed c"
  by (simp_all add: keyed_def resetInboundStream_def resetOutboundStream_def split: option.splits)

lemma handle_frame_keyed:
  assumes "keys_not_empty C" and "handle_frame C N chainId f c = ok (c', acts)" and "keyed c"
  shows "keyed c'"
proof (cases "frm_kind f = FSignature")
  case True
  with assms(2) have "handleSignature C N chainId (frm_data f) c = ok (c', acts)"
    by (simp add: handle_frame_def frame_kind_defs)
  from handleSignature_returns [OF this] assms(1,3) show ?thesis
  proof (elim disjE)
    assume "(c', acts) = resetInboundStream c"
    then have "c' = fst (resetInboundStream c)" by (metis fst_conv)
    with assms(3) show "keyed c'" by simp
  qed (auto simp: keyed_def)
next
  case False
  with assms(2,3) show ?thesis
    by (auto simp: handle_frame_def Let_def handlePeers_def confirmationReceived_def addToQueue_def
          and_then_Inr_iff keyed_def split: if_splits option.splits)
qed

lemma receive_frame_keyed:
  assumes "keys_not_empty C" and "receive_frame C N chainId f c = ok (c', acts)" and "keyed c"
  shows "keyed c'"
proof -
  from assms(2) obtain c1 b acts' where 1: "spam_filter (frm_msgId f) c = ok (c1, b)"
    and 2: "(if b then handle_frame C N chainId f c1 else ok (c1, [])) = ok (c', acts')"
    by (rule receive_frame_ok)
  from assms(3) have "keyed c1" by (simp add: keyed_def spam_filter_fields [OF 1])
  with 2 show ?thesis using handle_frame_keyed [OF assms(1)] by (auto split: if_splits)
qed

lemma recv_step_keyed:
  assumes "keys_not_empty C" and "recv_step C N chainId res (pc, c) = ok (pc', c', acts)" and "keyed c"
  shows "keyed c'"
proof (cases "\<exists>st f. pc = RReading st \<and> res = ok f")
  case True
  with assms(2) obtain f acts' where "receive_frame C N chainId f c = ok (c', acts')"
    by (auto simp: recv_step_def and_then_Inr_iff)
  with receive_frame_keyed assms(1,3) show ?thesis by blast
next
  case False
  with assms(2,3) show ?thesis
    by (cases pc; cases res)
       (auto simp: recv_step_def keyed_def resetInboundStream_def split: if_splits option.splits fault.splits)
qed

lemma send_step_keyed:
  assumes "send_step N h (l, c) = ok (l', c', acts)" and "keyed c"
  shows "keyed c'"
proof -
  have open_keyed: "keyed (fst (open_stream h d))" if "keyed d" for d
    using that by (cases "status d") (auto simp: open_stream_def cas_status_def keyed_def split: sum.splits)
  have sent: "keyed (d\<lparr>signatureSent := b\<rparr>) = keyed d" for d b by (simp add: keyed_def)
  have chk: "keyed (fst (checkOutboundStream N h c))"
    using assms(2) open_keyed
    by (auto simp: checkOutboundStream_def case_prod_unfold sent split: option.splits)
  have wr: "PeerPublicKey (fst (snd (send_write h l c))) = PeerPublicKey c"
    by (auto simp: send_write_def send_failed_def Let_def build_frame_def addMsgIdToConfirm_def
        removeMsgIdFromConfirm_def addToQueue_def resetOutboundStream_def split: option.splits prod.splits)
  show ?thesis
    using assms chk wr send_write_status [of h l c]
    by (cases "sl_pc l")
       (auto simp: send_step_def send_top_def send_dequeue_def Let_def keyed_def
          split: if_splits prod.splits option.splits sum.splits)
qed

lemma conn_step_keyed:
  assumes "keys_not_empty C" and "keyed (cs_conn s)"
  shows "keyed (cs_conn (fst (conn_step C N chainId s e)))"
proof (cases e)
  case (EvRecv res)
  then show ?thesis using assms recv_step_keyed [of C N chainId res "cs_recv s" "cs_conn s"]
    by (auto simp: conn_step_def split: sum.splits)
next
  case (EvSend h)
  then show ?thesis using assms send_step_keyed [of N h "cs_send s" "cs_conn s"]
    by (auto simp: conn_step_def split: sum.splits)
next
  case (EvSetInbound st)
  then show ?thesis using assms(2)
    by (cases "status (cs_conn s)") (simp_all add: conn_step_def SetInboundStream_def cas_status_def keyed_def Let_def)
next
  case (EvTrySetKey k)
  have "k \<noteq> []" if "HexToPublicKey C k = ok pk" for pk
  proof -
    have "HexToBytes [] = []" using HexToBytes_BytesToHex [of "[]"] by (simp add: BytesToHex_def)
    with that assms(1) show ?thesis by (auto simp: HexToPublicKey_def keys_not_empty_def)
  qed
  with EvTrySetKey assms(2) show ?thesis
    by (auto simp: conn_step_def TrySetPeerPublicKey_def keyed_def resetInboundStream_def Let_def
        split: sum.splits if_splits option.splits fault.splits)
next
  case (EvTerminate r)
  then show ?thesis by (simp add: conn_step_def case_prod_unfold Let_def keyed_def)
next
  case EvTerminateEnd
  then show ?thesis using assms
    by (auto simp: conn_step_def Let_def Terminate_end_def keyed_def split: option.splits if_splits)
qed (use assms in \<open>auto simp: conn_step_def Let_def Send_def addToQueue_def SetSignature_conn_def keyed_def
      SetPeerAddress_def BanPeer_conn_def RemoveFromBanList_conn_def split: sum.splits\<close>)

lemma known_key:
  assumes "keys_not_empty C"
  shows "connection_fact C N chainId keyed (\<lambda>e. True)"
  by unfold_locales (simp_all add: keyed_def [of "conn_init p q r u\<lparr>PeerAddress := x\<rparr>" for p q r u x]
      keyed_def [of "conn_init p q r u\<lparr>PeerAddress := x, inboundStream := y\<rparr>" for p q r u x y]
      conn_step_keyed [OF assms])

text \<open>
  C13: in every state a service reaches, a connection whose handshake is complete knows its peer's key, from
  a signature or from the node; so it is found by that key and messages for it are not postponed.
\<close>
theorem handshake_complete_has_key:
  assumes "keys_not_empty C" and "PeerService_New N cfg lookup pid addrs network ver minVer = ok (ps0, acts)"
    and "ps = fst (run (ps_step C N chainId) ps0 es)"
    and "conns ps k = Some c" and "status c = HandshakeComplete" and "iteration_order ps order"
  shows "PeerPublicKey c \<noteq> [] \<and> snd (SendMessageToPeer order (PeerPublicKey c) msg ps)"
proof -
  note fact = known_key [OF assms(1), of N chainId]
  have "all_conns keyed ps"
    unfolding assms(3)
    by (rule connection_fact.service_run [OF fact connection_fact.new_service [OF fact assms(2)]])
       (simp add: conn_events_def split: ps_event.splits)
  with assms(4,5) have "PeerPublicKey c \<noteq> []" by (auto simp: keyed_def)
  moreover have "connectionByPublicKey order (PeerPublicKey c) ps \<noteq> None"
    using connectionByPublicKey_none [OF assms(6)] assms(4) by metis
  ultimately show ?thesis by (auto simp: SendMessageToPeer_def)
qed

lemma handshake_complete_has_key_witness:
  "PeerPublicKey keyed_peer = ''0207'' \<and>
   (\<forall>msg. snd (SendMessageToPeer [Pretty toy_net [1]] ''0207'' msg
     (one_peer\<lparr>connections := Some [Pretty toy_net [1] \<mapsto> keyed_peer]\<rparr>)))"
proof -
  let ?ps = "one_peer\<lparr>connections := Some [Pretty toy_net [1] \<mapsto> keyed_peer]\<rparr>"
  have 1: "keys_not_empty toy_crypto" by (simp add: keys_not_empty_def toy_crypto_def)
  have 2: "conns ?ps (Pretty toy_net [1]) = Some keyed_peer" by (simp add: conns_def)
  have 3: "status keyed_peer = HandshakeComplete" by (simp add: keyed_peer_def sample_peer_fields)
  have 4: "iteration_order ?ps [Pretty toy_net [1]]" by (simp add: iteration_order_def conns_def)
  have "PeerPublicKey keyed_peer = ''0207''" by (simp add: keyed_peer_def)
  with handshake_complete_has_key [OF 1 sample_service_new one_peer_with_key [symmetric] 2 3 4]
  show ?thesis by simp
qed

section \<open>Banning a key\<close>

text \<open>
  A ban reaches one connection: when two connections have proved the same key, \<open>BanPeer\<close> bans the first of
  them in the order of the map and leaves the other one as it is.
\<close>
theorem ban_reaches_one_connection:
  assumes "iteration_order ps order" and "k1 \<noteq> k2"
    and "conns ps k1 = Some c1" and "PeerPublicKey c1 = key" and "\<not> isBanned c1"
    and "conns ps k2 = Some c2" and "PeerPublicKey c2 = key" and "\<not> isBanned c2"
  shows "\<exists>k c. conns (fst (BanPeer order key ps)) k = Some c \<and> PeerPublicKey c = key \<and> \<not> isBanned c"
proof -
  have same: "connectionByPublicKey order key (ps\<lparr>bannedPeer := b\<rparr>) = connectionByPublicKey order key ps" for b
    by (simp add: connectionByPublicKey_def split: list.splits)
  obtain k where "connectionByPublicKey order key ps = Some k"
    using connectionByPublicKey_none [OF assms(1), of key] assms(3,4)
    by (metis not_None_eq)
  then obtain k0 c0 where hit: "connectionByPublicKey order key ps = Some (k0, c0)" by (cases k) auto
  obtain m where m: "connections ps = Some m" using assms(3) by (auto simp: conns_def split: option.splits)
  have "conns (fst (BanPeer order key ps)) k' = conns ps k'" if "k' \<noteq> k0" for k'
    using that hit m by (simp add: BanPeer_def Let_def same set_conn_def conns_def)
  then show ?thesis using assms(2-) by metis
qed

end
