(* ===== verification/Host.thy ===== *)
theory Host
  imports Config Protocol_Match
begin

text \<open>
  The functions of \<^verbatim>\<open>host/builder.go\<close> that compose the key file and the listen address of \<open>Config\<close>:
  \<open>GenerateKey\<close>, which makes or reloads numbered key files and prints their peer ids, and
  \<open>BuildNamedHost\<close>, which chooses the options of the libp2p host. Creating the host is the library's
  work and an argument.
\<close>

section \<open>\<open>GenerateKey\<close>\<close>

text \<open>
  What the calls of the loop share: the serialisation of a key and its inverse, and the peer id's
  text. \<open>peer.IDFromPrivateKey\<close> is called with its error dropped, so \<open>key_id\<close> is total.
\<close>

record key_lib =
  key_marshal :: "bytes \<Rightarrow> go_error + bytes"
  key_unmarshal :: "bytes \<Rightarrow> go_error + bytes"
  key_id :: "bytes \<Rightarrow> peer_id"

type_synonym files = "string \<rightharpoonup> string"

definition key_path :: "nat \<Rightarrow> string" where
  "key_path i = ''h'' @ show_nat i"

text \<open>
  The loop from number \<open>i\<close> on, \<open>n\<close> rounds: the files, the lines printed so far and whether it ended
  in a panic. \<open>fresh i\<close> is the key generator's answer in round \<open>i\<close>, \<open>io i\<close> what the file system refuses then.
\<close>

primrec generate_loop ::
    "key_lib \<Rightarrow> net_lib \<Rightarrow> (nat \<Rightarrow> go_error + bytes) \<Rightarrow> (nat \<Rightarrow> file_faults) \<Rightarrow> string \<Rightarrow> nat \<Rightarrow> nat \<Rightarrow> files \<Rightarrow>
     files \<times> string list \<times> unit go" where
  "generate_loop K N fresh io pre i 0 fs = (fs, [], ok ())"
| "generate_loop K N fresh io pre i (Suc n) fs =
     (case GetPrivateKeyForHost (key_marshal K) (key_unmarshal K) (fresh i) (io i) pre (key_path i) fs of
        (fs', Inl x) \<Rightarrow> (fs', [], Inl x)
      | (fs', Inr prv) \<Rightarrow>
          let line = show_nat i @ ''. '' @ Pretty N (key_id K prv) in
          case generate_loop K N fresh io pre (Suc i) n fs' of (fs'', lines, r) \<Rightarrow> (fs'', line # lines, r))"

text \<open>
  The package variable \<open>prvPathPrefix\<close> and \<open>GenerateKey\<close>, which changes it for good: later calls of
  \<open>GetPrivateKeyForHost\<close> look for their files under the new prefix too. A count below one prints
  nothing.
\<close>

definition prvPathPrefix :: string where
  "prvPathPrefix = ''./ChainLachain/prv''"

definition GenerateKey ::
    "key_lib \<Rightarrow> net_lib \<Rightarrow> (nat \<Rightarrow> go_error + bytes) \<Rightarrow> (nat \<Rightarrow> file_faults) \<Rightarrow> int \<Rightarrow> files \<Rightarrow>
     string \<times> files \<times> string list \<times> unit go" where
  "GenerateKey K N fresh io count fs =
     (let pre = ''./prv_'' in (pre, generate_loop K N fresh io pre 1 (nat count) fs))"

section \<open>\<open>BuildNamedHost\<close>\<close>

text \<open>
  The options given to \<open>libp2p.New\<close>: the addresses to listen on, relaying, and the host's key. The
  external address is looked up only to warn when it is unknown, but a failing lookup panics.
\<close>

record host_options =
  opt_ListenAddrs :: "multiaddr list"
  opt_EnableRelay :: bool
  opt_PeerKey :: bytes

definition BuildNamedHost ::
    "key_lib \<Rightarrow> net_lib \<Rightarrow> (host_options \<Rightarrow> go_error + 'h) \<Rightarrow> config_state \<Rightarrow> go_error + string \<Rightarrow> bytes \<Rightarrow> 'h go" where
  "BuildNamedHost K N libp2p_New cfg lookup priv_key =
     (let myId = key_id K priv_key in
      and_then (GetP2PExternalIP cfg lookup) (\<lambda>externalIP.
      and_then (listen_address N cfg myId) (\<lambda>listenAddrs.
        or_panic (libp2p_New
          \<lparr>opt_ListenAddrs = (case listenAddrs of None \<Rightarrow> [] | Some a \<Rightarrow> [a]),
           opt_EnableRelay = True, opt_PeerKey = priv_key\<rparr>))))"

section \<open>Running \<open>GenerateKey\<close> again\<close>

text \<open>Keys that survive the key file: their serialisation has 125 bytes and is read back.\<close>

definition storable :: "key_lib \<Rightarrow> bytes \<Rightarrow> bool" where
  "storable K prv \<longleftrightarrow> (\<exists>bs. key_marshal K prv = Inr bs \<and> length bs = 125 \<and> key_unmarshal K bs = Inr prv)"

definition holds_key :: "key_lib \<Rightarrow> string \<Rightarrow> files \<Rightarrow> bytes \<Rightarrow> nat \<Rightarrow> bool" where
  "holds_key K pre fs prv i \<longleftrightarrow>
     (\<exists>bs. fs (pre @ key_path i @ ''.txt'') = Some (EncodeToString bs) \<and> length bs = 125 \<and>
        key_unmarshal K bs = Inr prv)"

definition key_line :: "key_lib \<Rightarrow> net_lib \<Rightarrow> nat \<Rightarrow> bytes \<Rightarrow> string" where
  "key_line K N i prv = show_nat i @ ''. '' @ Pretty N (key_id K prv)"

lemma show_nat_inj: "show_nat i = show_nat j \<Longrightarrow> i = j"
  by (metis show_nat_digits of_nat_eq_iff)

lemma key_path_inj [simp]: "key_path i = key_path j \<longleftrightarrow> i = j"
  by (auto simp: key_path_def dest: show_nat_inj)

lemma reload_key:
  assumes "holds_key K pre fs prv i"
  shows "GetPrivateKeyForHost (key_marshal K) (key_unmarshal K) fresh no_faults pre (key_path i) fs = (fs, ok prv)"
proof -
  from assms obtain bs where bs: "fs (pre @ key_path i @ ''.txt'') = Some (EncodeToString bs)"
    "length bs = 125" "key_unmarshal K bs = Inr prv"
    by (auto simp: holds_key_def)
  have "EncodeToString bs \<noteq> []" using bs(2) by (cases bs) simp_all
  moreover have "read_250 (EncodeToString bs) = EncodeToString bs"
    using bs(2) by (simp add: read_250_def)
  moreover have "DecodeString (EncodeToString bs) = (bs, None)"
    using DecodeString_append [of bs "[]"] by simp
  ultimately show ?thesis using bs by (simp add: key_file_defs no_faults_def)
qed

lemma create_key:
  assumes "fs (pre @ key_path i @ ''.txt'') = None" and "storable K prv"
  shows "\<exists>fs'. GetPrivateKeyForHost (key_marshal K) (key_unmarshal K) (Inr prv) no_faults pre (key_path i) fs = (fs', ok prv) \<and>
    holds_key K pre fs' prv i \<and> (\<forall>j. j \<noteq> i \<longrightarrow> fs' (pre @ key_path j @ ''.txt'') = fs (pre @ key_path j @ ''.txt''))"
proof -
  from assms(2) obtain bs where "key_marshal K prv = Inr bs" "length bs = 125" "key_unmarshal K bs = Inr prv"
    by (auto simp: storable_def)
  with assms(1) show ?thesis
    by (auto simp: key_file_defs no_faults_def holds_key_def intro: exI [of _ bs])
qed

lemma generate_reload:
  assumes "\<And>k. i \<le> k \<Longrightarrow> k < i + n \<Longrightarrow> holds_key K pre fs (ks k) k"
  shows "generate_loop K N fresh (\<lambda>_. no_faults) pre i n fs = (fs, map (\<lambda>k. key_line K N k (ks k)) [i ..< i + n], ok ())"
  using assms
proof (induction n arbitrary: i)
  case (Suc n)
  from reload_key [OF Suc.prems [of i], of "fresh i"] have
    "GetPrivateKeyForHost (key_marshal K) (key_unmarshal K) (fresh i) no_faults pre (key_path i) fs = (fs, ok (ks i))" by simp
  moreover from Suc have
    "generate_loop K N fresh (\<lambda>_. no_faults) pre (Suc i) n fs = (fs, map (\<lambda>k. key_line K N k (ks k)) [Suc i ..< Suc i + n], ok ())"
    by simp
  moreover have "[i ..< i + Suc n] = i # [Suc i ..< Suc i + n]" by (simp add: upt_conv_Cons)
  ultimately show ?case by (simp add: key_line_def)
qed simp

lemma generate_create:
  assumes "\<And>k. i \<le> k \<Longrightarrow> fs (pre @ key_path k @ ''.txt'') = None" and "\<And>k. storable K (ks k)"
  shows "\<exists>fs'. generate_loop K N (\<lambda>k. Inr (ks k)) (\<lambda>_. no_faults) pre i n fs =
      (fs', map (\<lambda>k. key_line K N k (ks k)) [i ..< i + n], ok ()) \<and>
    (\<forall>k. i \<le> k \<and> k < i + n \<longrightarrow> holds_key K pre fs' (ks k) k) \<and>
    (\<forall>k. k < i \<longrightarrow> fs' (pre @ key_path k @ ''.txt'') = fs (pre @ key_path k @ ''.txt''))"
  using assms(1)
proof (induction n arbitrary: i fs)
  case (Suc n)
  from create_key [where pre = pre and i = i and fs = fs and K = K and prv = "ks i", OF Suc.prems [OF order_refl] assms(2)] obtain fs1 where 1:
    "GetPrivateKeyForHost (key_marshal K) (key_unmarshal K) (Inr (ks i)) no_faults pre (key_path i) fs = (fs1, ok (ks i))"
    "holds_key K pre fs1 (ks i) i"
    "\<And>j. j \<noteq> i \<Longrightarrow> fs1 (pre @ key_path j @ ''.txt'') = fs (pre @ key_path j @ ''.txt'')"
    by metis
  have "fs1 (pre @ key_path k @ ''.txt'') = None" if "Suc i \<le> k" for k
    using 1(3) [of k] Suc.prems [of k] that by simp
  from Suc.IH [of "Suc i" fs1, OF this] obtain fs2 where 2:
    "generate_loop K N (\<lambda>k. Inr (ks k)) (\<lambda>_. no_faults) pre (Suc i) n fs1 =
       (fs2, map (\<lambda>k. key_line K N k (ks k)) [Suc i ..< Suc i + n], ok ())"
    "\<And>k. Suc i \<le> k \<Longrightarrow> k < Suc i + n \<Longrightarrow> holds_key K pre fs2 (ks k) k"
    "\<And>k. k < Suc i \<Longrightarrow> fs2 (pre @ key_path k @ ''.txt'') = fs1 (pre @ key_path k @ ''.txt'')"
    by blast
  have "[i ..< i + Suc n] = i # [Suc i ..< Suc i + n]" by (simp add: upt_conv_Cons)
  then have "generate_loop K N (\<lambda>k. Inr (ks k)) (\<lambda>_. no_faults) pre i (Suc n) fs =
      (fs2, map (\<lambda>k. key_line K N k (ks k)) [i ..< i + Suc n], ok ())"
    using 1(1) 2(1) by (simp add: key_line_def)
  moreover have "holds_key K pre fs2 (ks k) k" if "i \<le> k" "k < i + Suc n" for k
  proof (cases "k = i")
    case True
    then show ?thesis using 1(2) 2(3) [of i] by (simp add: holds_key_def)
  qed (use that 2(2) in simp)
  moreover have "fs2 (pre @ key_path k @ ''.txt'') = fs (pre @ key_path k @ ''.txt'')" if "k < i" for k
    using that 1(3) [of k] 2(3) [of k] by simp
  ultimately show ?case by blast
qed auto

text \<open>
  C38: where no key file exists yet, \<open>GenerateKey\<close> makes \<open>count\<close> keys and prints their numbered ids in
  order; called again, with whatever the key generator would answer then, it prints the same lines
  and leaves every file as it is. This needs keys of 125 serialised bytes.
\<close>
theorem GenerateKey_repeatable:
  assumes "\<And>k. fs (''./prv_'' @ key_path k @ ''.txt'') = None" and "\<And>k. storable K (ks k)"
  shows "\<exists>fs'. GenerateKey K N (\<lambda>k. Inr (ks k)) (\<lambda>_. no_faults) count fs =
      (''./prv_'', fs', map (\<lambda>k. key_line K N k (ks k)) [1 ..< 1 + nat count], ok ()) \<and>
    GenerateKey K N fresh (\<lambda>_. no_faults) count fs' =
      (''./prv_'', fs', map (\<lambda>k. key_line K N k (ks k)) [1 ..< 1 + nat count], ok ())"
proof -
  from generate_create [of 1 fs "''./prv_''" K ks N "nat count"] assms obtain fs' where
    1: "generate_loop K N (\<lambda>k. Inr (ks k)) (\<lambda>_. no_faults) ''./prv_'' 1 (nat count) fs =
      (fs', map (\<lambda>k. key_line K N k (ks k)) [1 ..< 1 + nat count], ok ())"
    "\<And>k. 1 \<le> k \<Longrightarrow> k < 1 + nat count \<Longrightarrow> holds_key K ''./prv_'' fs' (ks k) k"
    by blast
  from generate_reload [of 1 "nat count" K "''./prv_''" fs' ks N fresh, OF 1(2)] 1(1) show ?thesis
    by (simp add: GenerateKey_def)
qed

text \<open>Keys that are their own serialisation, of 125 equal bytes.\<close>

definition plain_keys :: key_lib where
  "plain_keys = \<lparr>key_marshal = (\<lambda>k. Inr k), key_unmarshal = (\<lambda>b. Inr b), key_id = (\<lambda>k. take 1 k)\<rparr>"

lemma GenerateKey_repeatable_witness:
  "\<exists>fs'. GenerateKey plain_keys toy_net (\<lambda>k. Inr (replicate 125 (of_nat (64 + k)))) (\<lambda>_. no_faults) 2 Map.empty =
      (''./prv_'', fs', [''1. A'', ''2. B''], ok ()) \<and>
    GenerateKey plain_keys toy_net (\<lambda>k. Inl EOF) (\<lambda>_. no_faults) 2 fs' = (''./prv_'', fs', [''1. A'', ''2. B''], ok ())"
proof -
  have "map (\<lambda>k. key_line plain_keys toy_net k (replicate 125 (of_nat (64 + k)))) [1 ..< 1 + nat 2] =
      [''1. A'', ''2. B'']"
    by (simp add: key_line_def plain_keys_def toy_net_def bytes_text_def upt_conv_Cons show_nat.simps
        digit_char_def unat_of_nat char_of_def bit_Suc_0_iff)
  with GenerateKey_repeatable [of Map.empty plain_keys "\<lambda>k. replicate 125 (of_nat (64 + k))" toy_net 2 "\<lambda>k. Inl EOF"]
  show ?thesis by (simp add: storable_def plain_keys_def)
qed

section \<open>Where the host listens\<close>

lemma last_address: "foldl (\<lambda>_ a. Some a) acc as = (if as = [] then acc else Some (last as))"
  by (induction as arbitrary: acc) auto

lemma id_addresses_entries:
  assumes "length addrs = length ids" and "\<And>r. r \<in> set ids \<Longrightarrow> DecodeId N r = Inr (dec r)"
    and "\<And>a. a \<in> set addrs \<Longrightarrow> NewMultiaddr N a = Inr (ma a)" and "k + length ids' = length ids"
    and "drop k ids = ids'"
  shows "id_addresses N me addrs k ids' =
    ok (map (\<lambda>(a, _). ma a) (filter (\<lambda>(_, r). dec r = me) (zip (drop k addrs) ids')))"
  using assms(4,5)
proof (induction ids' arbitrary: k)
  case (Cons r rest)
  then have k: "k < length addrs" "ids ! k = r" "drop (Suc k) ids = rest"
    using assms(1) by (auto simp: drop_Suc tl_drop [symmetric] nth_via_drop)
  then have "r \<in> set ids" "addrs ! k \<in> set addrs" using assms(1) by auto
  moreover have "drop k addrs = addrs ! k # drop (Suc k) addrs" using k(1) by (simp add: Cons_nth_drop_Suc)
  ultimately show ?case using Cons.IH [of "Suc k"] Cons.prems(1) assms(2,3) k by simp
qed simp

text \<open>
  Where the host listens: with bootstrap entries that all parse, a node that is among them listens
  on the address of the last entry with its id, any other node on no configured address; either way
  relaying is on and the key is the one given.
\<close>
theorem BuildNamedHost_listens:
  assumes "GetP2PExternalIP cfg lookup = ok ext"
    and "length (RelayAddrs cfg) = length (RelayIds cfg)"
    and "\<And>r. r \<in> set (RelayIds cfg) \<Longrightarrow> DecodeId N r = Inr (dec r)"
    and "\<And>a. a \<in> set (RelayAddrs cfg) \<Longrightarrow> NewMultiaddr N a = Inr (ma a)"
  shows "BuildNamedHost K N Inr cfg lookup prv = ok
    \<lparr>opt_ListenAddrs =
       (case filter (\<lambda>(_, r). dec r = key_id K prv) (zip (RelayAddrs cfg) (RelayIds cfg)) of
          [] \<Rightarrow> [] | e # es \<Rightarrow> [ma (fst (last (e # es)))]),
     opt_EnableRelay = True, opt_PeerKey = prv\<rparr>"
proof -
  from id_addresses_entries [OF assms(2-4), where ids' = "RelayIds cfg" and k = 0 and me = "key_id K prv"]
  show ?thesis
    using assms(1)
    by (auto simp: BuildNamedHost_def listen_address_def GetBootstrapIDAddresses_def last_address Let_def
        case_prod_unfold last_map split: list.splits)
qed

lemma BuildNamedHost_listens_witness:
  "BuildNamedHost plain_keys toy_net Inr
     \<lparr>RelayAddrs = [''/a'', ''/b'', ''/c''], RelayIds = [''A'', ''B'', ''A''], ipLookup = False, ChainId = 0\<rparr>
     (Inl EOF) [65, 1] = ok \<lparr>opt_ListenAddrs = [''/c''], opt_EnableRelay = True, opt_PeerKey = [65, 1]\<rparr>"
  by (subst BuildNamedHost_listens [where ext = "[]" and dec = text_bytes and ma = "\<lambda>a. a"])
     (simp_all add: GetP2PExternalIP_def toy_net_def plain_keys_def text_bytes_def)

end
