(* ===== verification/Hub.thy ===== *)
theory Hub
  imports Peer_Service Host
begin

text \<open>
  \<^verbatim>\<open>embedded_hub.go\<close>: the functions exported to the node. They run one at a time under the package
  mutex. Buffers handed over by the node are byte lists of the size that was announced; the
  inbox is the third-party FIFO, whose operations are fields of a parameter.
\<close>

section \<open>The inbox\<close>

record 'q fifo =
  fifo_Enqueue :: "bytes \<Rightarrow> 'q \<Rightarrow> 'q"
  fifo_GetLen :: "'q \<Rightarrow> nat"
  fifo_Get :: "nat \<Rightarrow> 'q \<Rightarrow> go_error + bytes"
  fifo_Remove :: "nat \<Rightarrow> 'q \<Rightarrow> go_error + 'q"

definition ProcessMessage :: "'q fifo \<Rightarrow> bytes \<Rightarrow> 'q \<Rightarrow> 'q" where
  "ProcessMessage F msg q = fifo_Enqueue F msg q"

text \<open>
  \<open>GetMessages\<close>: at most as many rounds as there were messages at the start; each writes one
  message behind its length into the buffer, as long as the 32-bit sum of the positions does not
  exceed the buffer's size. Result: the count (or \<open>-1\<close>), the buffer, and the rest of the inbox.
\<close>

primrec get_messages_loop ::
    "'q fifo \<Rightarrow> u32 \<Rightarrow> nat \<Rightarrow> int \<Rightarrow> u32 \<Rightarrow> bytes \<Rightarrow> 'q \<Rightarrow> int \<times> bytes \<times> 'q" where
  "get_messages_loop F maxLength 0 c ptr buffer q = (c, buffer, q)"
| "get_messages_loop F maxLength (Suc n) c ptr buffer q =
     (case fifo_Get F 0 q of
        Inl _ \<Rightarrow> (- 1, buffer, q)
      | Inr msg \<Rightarrow>
          let l = of_nat (length msg) :: u32 in
          if ptr + l + 4 > maxLength then (c, buffer, q)
          else
            (case fifo_Remove F 0 q of
               Inl _ \<Rightarrow> (- 1, buffer, q)
             | Inr q' \<Rightarrow>
                 get_messages_loop F maxLength n (c + 1) (ptr + (l + 4))
                   (write_at buffer (unat ptr) (take (unat (l + 4)) (PutUint32 l @ msg))) q'))"

definition GetMessages :: "'q fifo \<Rightarrow> int \<Rightarrow> bytes \<Rightarrow> 'q \<Rightarrow> int \<times> bytes \<times> 'q" where
  "GetMessages F maxLength buffer q =
     (let n = fifo_GetLen F q in
      if n = 0 then (- 1, buffer, q)
      else get_messages_loop F (word_of_int maxLength) n 0 0 buffer q)"

section \<open>The hub\<close>

record hub =
  hub_cfg :: config_state
  localPeer :: "peer_service option"

definition initial_hub :: hub where
  "initial_hub = \<lparr>hub_cfg = initial_config, localPeer = None\<rparr>"

definition ZeroPub :: bytes where
  "ZeroPub = replicate 33 0"

text \<open>A method called on \<open>localPeer\<close>, a nil pointer before \<open>StartHub\<close>.\<close>

definition on_peer :: "hub \<Rightarrow> (peer_service \<Rightarrow> (peer_service \<times> 'a) go) \<Rightarrow> (hub \<times> 'a) go" where
  "on_peer h f =
     (case localPeer h of
        None \<Rightarrow> panic NilDeref
      | Some ps \<Rightarrow> and_then (f ps) (\<lambda>(ps', x). ok (h\<lparr>localPeer := Some ps'\<rparr>, x)))"

text \<open>
  \<open>New\<close> of the service with the host it builds first; the library answers with the host's id and
  addresses, and the external address is looked up twice.
\<close>

definition New_with_host ::
    "key_lib \<Rightarrow> net_lib \<Rightarrow> (host_options \<Rightarrow> go_error + peer_id \<times> multiaddr list) \<Rightarrow> config_state \<Rightarrow>
     go_error + string \<Rightarrow> go_error + string \<Rightarrow> bytes \<Rightarrow> string \<Rightarrow> int \<Rightarrow> int \<Rightarrow> (peer_service \<times> ps_action list) go" where
  "New_with_host K N libp2p_New cfg lookup1 lookup2 priv_key network ver minVer =
     and_then (BuildNamedHost K N libp2p_New cfg lookup1 priv_key) (\<lambda>(pid, addrs).
       PeerService_New N cfg lookup2 pid addrs network ver minVer)"

text \<open>\<open>StartHub\<close>: the bootstrap entries stay in the configuration when the key or the host fails.\<close>

definition StartHub ::
    "key_lib \<Rightarrow> net_lib \<Rightarrow> (host_options \<Rightarrow> go_error + peer_id \<times> multiaddr list) \<Rightarrow>
     go_error + string \<Rightarrow> go_error + string \<Rightarrow>
     string \<Rightarrow> bytes \<Rightarrow> string \<Rightarrow> int \<Rightarrow> int \<Rightarrow> int \<Rightarrow> hub \<Rightarrow> hub \<times> ps_action list go" where
  "StartHub K N libp2p_New lookup1 lookup2 bootstrapAddress privKey network ver minVer chainId h =
     (let cfg1 = (hub_cfg h)\<lparr>ChainId := word_of_int chainId\<rparr> in
      case SetBootstrapAddress bootstrapAddress cfg1 of (cfg2, r) \<Rightarrow>
        let h2 = h\<lparr>hub_cfg := cfg2\<rparr> in
        case and_then r (\<lambda>_. and_then (or_panic (key_unmarshal K privKey)) (\<lambda>prv.
               New_with_host K N libp2p_New cfg2 lookup1 lookup2 prv network ver minVer)) of
          Inl x \<Rightarrow> (h2, Inl x)
        | Inr (ps, acts) \<Rightarrow> (h2\<lparr>localPeer := Some ps\<rparr>, ok acts))"

text \<open>\<open>GetKey\<close>; an empty id would be indexed out of range.\<close>

definition GetKey :: "net_lib \<Rightarrow> bytes \<Rightarrow> int \<Rightarrow> hub \<Rightarrow> (int \<times> bytes) go" where
  "GetKey N buffer maxLength h =
     (case localPeer h of
        None \<Rightarrow> ok (0, buffer)
      | Some ps \<Rightarrow>
          (case GetId N ps of
             None \<Rightarrow> ok (0, buffer)
           | Some i \<Rightarrow>
               if int (length i) > maxLength then ok (0, buffer)
               else if i = [] then panic IndexRange
               else ok (int (length i), write_at buffer 0 i)))"

definition Init ::
    "crypto_lib \<Rightarrow> net_lib \<Rightarrow> string list \<Rightarrow> bytes \<Rightarrow> hub \<Rightarrow> (hub \<times> ps_action list \<times> int) go" where
  "Init C N order sig h =
     on_peer h (\<lambda>ps. and_then (SetSignature C N (ChainId (hub_cfg h)) order sig ps) (\<lambda>(ps', acts, b).
       ok (ps', acts, (if b then 1 else 0))))"

text \<open>\<open>SendMessage\<close>: the 33-byte zero key broadcasts. \<open>now\<close> and \<open>prng\<close> give the envelope's id.\<close>

definition SendMessage ::
    "(int \<Rightarrow> nat \<Rightarrow> byte) \<Rightarrow> int \<Rightarrow> string list \<Rightarrow> bytes \<Rightarrow> bytes \<Rightarrow> int \<Rightarrow> hub \<Rightarrow> (hub \<times> unit) go" where
  "SendMessage prng now order pubKey data flag h =
     (let msgKind = (if flag = 0 then KMessage else KConsensus);
          message = NewEnvelop prng now (Some data) msgKind
      in if pubKey = ZeroPub
         then on_peer h (\<lambda>ps. ok (BroadcastMessage order message ps, ()))
         else on_peer h (\<lambda>ps. ok (fst (SendMessageToPeer order (EncodeToString pubKey) message ps), ())))"

definition Hub_SetPeerPublicKey ::
    "crypto_lib \<Rightarrow> bytes \<Rightarrow> int \<Rightarrow> hub \<Rightarrow> (hub \<times> ps_action list \<times> bool) go" where
  "Hub_SetPeerPublicKey C pubKey peerUniqId h =
     on_peer h (SetPeerPublicKey C (EncodeToString pubKey) (word_of_int peerUniqId))"

definition Hub_BanPeer :: "string list \<Rightarrow> bytes \<Rightarrow> hub \<Rightarrow> (hub \<times> unit) go" where
  "Hub_BanPeer order pubKey h =
     on_peer h (\<lambda>ps. ok (fst (BanPeer order (EncodeToString pubKey) ps), ()))"

definition Hub_RemoveFromBanList :: "string list \<Rightarrow> bytes \<Rightarrow> hub \<Rightarrow> (hub \<times> unit) go" where
  "Hub_RemoveFromBanList order pubKey h =
     on_peer h (\<lambda>ps. ok (fst (RemoveFromBanList order (EncodeToString pubKey) ps), ()))"

definition StopHub :: "u64 \<Rightarrow> string list \<Rightarrow> go_error option list \<Rightarrow> hub \<Rightarrow> (hub \<times> ps_action list) go" where
  "StopHub rndId order closes h = on_peer h (Stop rndId order closes)"

text \<open>
  \<open>GenerateNewKey\<close>: the new key's text is returned only if it fits; otherwise just its length.
\<close>

definition GenerateNewKey ::
    "go_error + bytes \<Rightarrow> (bytes \<Rightarrow> go_error + bytes) \<Rightarrow> (bytes \<Rightarrow> string) \<Rightarrow> bytes \<Rightarrow> int \<Rightarrow> (int \<times> bytes) go" where
  "GenerateNewKey fresh marshal id_text buffer bufferLen =
     and_then (or_panic fresh) (\<lambda>prv.
     and_then (or_panic (marshal prv)) (\<lambda>prvBytes.
       let prvHex = EncodeToString prvBytes @ '','' @ id_text prv in
       if int (length prvHex) > bufferLen then ok (int (length prvHex), buffer)
       else ok (int (length prvHex), write_at buffer 0 (text_bytes prvHex))))"

section \<open>What the node reads out of the inbox\<close>

text \<open>What the code relies on in the third-party queue, over an abstraction to a list.\<close>

definition is_fifo :: "'q fifo \<Rightarrow> ('q \<Rightarrow> bytes list) \<Rightarrow> bool" where
  "is_fifo F elems \<longleftrightarrow>
     (\<forall>m q. elems (fifo_Enqueue F m q) = elems q @ [m]) \<and>
     (\<forall>q. fifo_GetLen F q = length (elems q)) \<and>
     (\<forall>q m ms. elems q = m # ms \<longrightarrow> fifo_Get F 0 q = Inr m) \<and>
     (\<forall>q m ms. elems q = m # ms \<longrightarrow> (\<exists>q'. fifo_Remove F 0 q = Inr q' \<and> elems q' = ms))"

text \<open>A message in the buffer, and how the node takes it out again.\<close>

definition block :: "bytes \<Rightarrow> bytes" where
  "block m = PutUint32 (of_nat (length m)) @ m"

definition read_block :: "bytes \<Rightarrow> (bytes \<times> bytes) option" where
  "read_block bs =
     (case Uint32 bs of
        Inl _ \<Rightarrow> None
      | Inr l \<Rightarrow> Some (take (unat l) (drop 4 bs), drop (4 + unat l) bs))"

interpretation inbox: prefix_codec "\<lambda>m. length m < 2 ^ 32" block read_block
  by unfold_locales (simp add: block_def read_block_def unat_of_nat)

lemma length_block [simp]: "length (block m) = length m + 4"
  by (simp add: block_def)

text \<open>The messages from the front that fit into the room there is.\<close>

fun fitting :: "nat \<Rightarrow> bytes list \<Rightarrow> bytes list" where
  "fitting room [] = []"
| "fitting room (m # ms) =
     (if length m + 4 \<le> room then m # fitting (room - (length m + 4)) ms else [])"

lemma fitting_prefix: "fitting room ms = take (length (fitting room ms)) ms"
  by (induction room ms rule: fitting.induct) auto

lemma fitting_room: "length (concat (map block (fitting room ms))) \<le> room"
  by (induction room ms rule: fitting.induct) auto

lemma write_at_twice:
  "off \<le> length buf \<Longrightarrow> write_at (write_at buf off xs) (off + length xs) ys = write_at buf off (xs @ ys)"
  by (simp add: write_at_def ac_simps)

lemma write_at_Nil [simp]: "write_at buf off [] = buf"
  by (simp add: write_at_def)

lemma get_messages_loop_spec:
  assumes "is_fifo F elems" and "M < 2 ^ 31" and "\<forall>m \<in> set (elems q). length m < 2 ^ 31 - 4"
    and "unat ptr \<le> M" and "M \<le> length buffer"
  shows "\<exists>q'. get_messages_loop F (of_nat M) (length (elems q)) c ptr buffer q =
      (c + int (length (fitting (M - unat ptr) (elems q))),
       write_at buffer (unat ptr) (concat (map block (fitting (M - unat ptr) (elems q)))), q') \<and>
    elems q' = drop (length (fitting (M - unat ptr) (elems q))) (elems q)"
  using assms(3-5)
proof (induction "elems q" arbitrary: q c ptr buffer)
  case Nil
  from Nil(1) [symmetric] show ?case by (auto intro!: exI [of _ q])
next
  case (Cons m ms)
  note el = Cons.hyps(2) [symmetric]
  from assms(1) el have get: "fifo_Get F 0 q = Inr m" by (auto simp: is_fifo_def)
  from assms(1) el obtain q' where rem: "fifo_Remove F 0 q = Inr q'" "elems q' = ms"
    unfolding is_fifo_def by metis
  have lm: "length m < 2 ^ 31 - 4" using Cons.prems(1) el by simp
  let ?l = "of_nat (length m) :: u32"
  have l: "unat ?l = length m" "unat (?l + 4) = length m + 4"
    using lm by (simp_all add: unat_of_nat unat_word_ariths)
  have sum: "unat (ptr + ?l + 4) = unat ptr + (length m + 4)"
    using lm l Cons.prems(2) assms(2) by (simp add: unat_word_ariths)
  have M: "unat (of_nat M :: u32) = M" using assms(2) by (simp add: unat_of_nat)
  show ?case
  proof (cases "length m + 4 \<le> M - unat ptr")
    case False
    then have "ptr + ?l + 4 > of_nat M"
      using sum M Cons.prems(2) by (simp add: word_less_nat_alt)
    with get el False show ?thesis by (auto simp: Let_def intro!: exI [of _ q])
  next
    case True
    then have le: "\<not> (ptr + ?l + 4 > of_nat M)"
      using sum M Cons.prems(2) by (simp add: word_less_nat_alt)
    let ?b = "write_at buffer (unat ptr) (block m)"
    have ptr': "unat (ptr + (?l + 4)) = unat ptr + (length m + 4)" using sum by (simp add: add.assoc)
    have "M \<le> length ?b" using Cons.prems(2,3) by (simp add: write_at_def)
    moreover have "unat ptr + (length m + 4) \<le> M" using True Cons.prems(2) by linarith
    ultimately obtain q'' where IH: "get_messages_loop F (of_nat M) (length ms) (c + 1) (ptr + (?l + 4)) ?b q' =
        (c + 1 + int (length (fitting (M - (unat ptr + (length m + 4))) ms)),
         write_at ?b (unat ptr + (length m + 4)) (concat (map block (fitting (M - (unat ptr + (length m + 4))) ms))), q'')"
      "elems q'' = drop (length (fitting (M - (unat ptr + (length m + 4))) ms)) ms"
      using Cons.hyps(1) [OF rem(2) [symmetric], of "ptr + (?l + 4)" ?b "c + 1"] ptr' Cons.prems el rem(2)
      by auto
    have blk: "take (unat (?l + 4)) (PutUint32 ?l @ m) = block m" by (simp add: l block_def)
    have room: "M - unat ptr - (length m + 4) = M - (unat ptr + (length m + 4))" by simp
    have "write_at ?b (unat ptr + (length m + 4)) ys = write_at buffer (unat ptr) (block m @ ys)" for ys
      using write_at_twice [of "unat ptr" buffer "block m" ys] Cons.prems(2,3) by simp
    with IH get rem(1) el le True blk room show ?thesis
      by (auto simp: Let_def simp del: fitting.simps(1)) 
  qed
qed

lemma GetMessages_spec:
  assumes "is_fifo F elems" and "elems q \<noteq> []" and "M < 2 ^ 31"
    and "\<forall>m \<in> set (elems q). length m < 2 ^ 31 - 4" and "M \<le> length buffer"
  shows "\<exists>q'. GetMessages F (int M) buffer q =
      (int (length (fitting M (elems q))), write_at buffer 0 (concat (map block (fitting M (elems q)))), q') \<and>
    elems q' = drop (length (fitting M (elems q))) (elems q)"
proof -
  have "fifo_GetLen F q = length (elems q)" using assms(1) by (simp add: is_fifo_def)
  with get_messages_loop_spec [OF assms(1,3,4), of 0 buffer 0] assms(2,5) show ?thesis
    by (simp add: GetMessages_def Let_def)
qed

section \<open>Properties\<close>

text \<open>
  C14: the inbox reaches the node without loss, in order and within the buffer: one call takes the longest run of
  messages from the front that fits, writes them length-prefixed from the start of the buffer and
  leaves the rest of the buffer alone; reading back as many blocks as the returned count gives
  exactly these messages, and they and what remains in the inbox are what was there.
\<close>
theorem GetMessages_roundtrip:
  assumes "is_fifo F elems" and "elems q \<noteq> []" and "M < 2 ^ 31"
    and "\<forall>m \<in> set (elems q). length m < 2 ^ 31 - 4" and "M \<le> length buffer"
  shows "\<exists>n buffer' q' rest. GetMessages F (int M) buffer q = (int n, buffer', q') \<and>
    decode_n read_block n buffer' = Some (fitting M (elems q), rest) \<and>
    drop M buffer' = drop M buffer \<and> length buffer' = length buffer \<and>
    fitting M (elems q) @ elems q' = elems q"
proof -
  let ?ms = "fitting M (elems q)"
  from GetMessages_spec [OF assms] obtain q' where
    g: "GetMessages F (int M) buffer q = (int (length ?ms), write_at buffer 0 (concat (map block ?ms)), q')"
      "elems q' = drop (length ?ms) (elems q)" by auto
  have "set ?ms \<subseteq> set (elems q)" by (metis fitting_prefix set_take_subset)
  then have "list_all (\<lambda>m. length m < 2 ^ 32) ?ms" using assms(4) by (fastforce simp: list_all_iff)
  from inbox.decode_n_concat [OF this] have
    "decode_n read_block (length ?ms) (write_at buffer 0 (concat (map block ?ms))) =
      Some (?ms, drop (length (concat (map block ?ms))) buffer)"
    by (simp add: write_at_def)
  moreover have "?ms @ elems q' = elems q"
    using g(2) fitting_prefix [of M "elems q"] by (metis append_take_drop_id)
  moreover have "drop M (write_at buffer 0 bs) = drop M buffer \<and> length (write_at buffer 0 bs) = length buffer"
    if "length bs \<le> M" for bs
    using that assms(5) by (simp add: write_at_def)
  ultimately show ?thesis using g(1) fitting_room [of M "elems q"] by blast
qed

text \<open>A queue for witnesses.\<close>

definition list_fifo :: "bytes list fifo" where
  "list_fifo =
     \<lparr>fifo_Enqueue = (\<lambda>m q. q @ [m]), fifo_GetLen = length,
      fifo_Get = (\<lambda>i q. if i < length q then Inr (q ! i) else Inl (ErrText ''index'')),
      fifo_Remove = (\<lambda>i q. if i < length q then Inr (take i q @ drop (Suc i) q) else Inl (ErrText ''index''))\<rparr>"

lemma list_fifo_ok: "is_fifo list_fifo (\<lambda>q. q)"
  by (simp add: is_fifo_def list_fifo_def)

lemma GetMessages_roundtrip_witness:
  "\<exists>n buffer' q' rest. GetMessages list_fifo (int 16) (replicate 16 0) [[1, 2], [3], [4, 5, 6]] = (int n, buffer', q') \<and>
    decode_n read_block n buffer' = Some ([[1, 2], [3]], rest) \<and>
    drop 16 buffer' = [] \<and> length buffer' = 16 \<and> [[1, 2], [3]] @ q' = [[1, 2], [3], [4, 5, 6]]"
proof -
  have "fitting 16 [[1, 2], [3], [4, 5, 6 :: byte]] = [[1, 2], [3]]" by simp
  with GetMessages_roundtrip [OF list_fifo_ok, of "[[1, 2], [3], [4, 5, 6]]" 16 "replicate 16 0"]
  show ?thesis by simp
qed

text \<open>
  A message that does not fit blocks everything behind it: when the oldest message with its length needs more
  than the buffer, every call with that buffer answers 0 and changes neither the buffer nor the
  inbox, however small the later messages are.
\<close>
theorem oversized_message_blocks:
  assumes "is_fifo F elems" and "elems q = m # ms" and "M < 2 ^ 31" and "length m < 2 ^ 31 - 4"
    and "M < length m + 4"
  shows "GetMessages F (int M) buffer q = (0, buffer, q)"
proof -
  have len: "fifo_GetLen F q = Suc (length ms)" "fifo_Get F 0 q = Inr m"
    using assms(1,2) by (auto simp: is_fifo_def)
  have "unat (of_nat (length m) + 4 :: u32) = length m + 4"
    using assms(4) by (simp add: unat_of_nat unat_word_ariths)
  moreover have "unat (of_nat M :: u32) = M" using assms(3) by (simp add: unat_of_nat)
  ultimately have "of_nat (length m) + 4 > (of_nat M :: u32)"
    using assms(5) by (simp add: word_less_nat_alt)
  with len show ?thesis by (simp add: GetMessages_def)
qed

lemma oversized_message_blocks_witness:
  "GetMessages list_fifo (int 8) (replicate 8 0) [replicate 5 1, [2]] = (0, replicate 8 0, [replicate 5 1, [2]])"
  by (rule oversized_message_blocks [OF list_fifo_ok, where m = "replicate 5 1" and ms = "[[2]]"]) simp_all

end
