(* ===== verification/Bootstrap.thy ===== *)
theory Bootstrap
  imports Hub
begin

text \<open>
  Starting the hub from end to end: the bootstrap string is parsed (\<open>Config\<close>), the host is built
  (\<open>Host\<close>), and the new service opens one connection per bootstrap node (\<open>Peer_Service\<close>).
\<close>

section \<open>The loop over the bootstrap nodes\<close>

text \<open>The connection that the service opens to a peer it knows the address of.\<close>

definition opened :: "peer_service \<Rightarrow> multiaddr \<times> peer_id \<Rightarrow> connection \<Rightarrow> bool" where
  "opened ps e c \<longleftrightarrow> (\<exists>u. c = (conn_init (snd e) (own_protocol ps) (Some (myExternalAddress ps)) u)
     \<lparr>PeerAddress := Some (fst e)\<rparr>)"

definition wanted :: "net_lib \<Rightarrow> peer_id \<Rightarrow> string \<Rightarrow> multiaddr \<times> peer_id \<Rightarrow> bool" where
  "wanted N own k e \<longleftrightarrow> snd e \<noteq> own \<and> Pretty N (snd e) = k"

definition joined :: "net_lib \<Rightarrow> (multiaddr \<times> peer_id) list \<Rightarrow> peer_service \<Rightarrow> peer_service \<Rightarrow> bool" where
  "joined N es ps ps' \<longleftrightarrow>
     host_id ps' = host_id ps \<and> own_protocol ps' = own_protocol ps \<and> myExternalAddress ps' = myExternalAddress ps \<and>
     connections ps' \<noteq> None \<and>
     (\<forall>k. if conns ps k \<noteq> None then conns ps' k = conns ps k
          else case find (wanted N (host_id ps) k) es of
                 None \<Rightarrow> conns ps' k = None
               | Some e \<Rightarrow> \<exists>c. conns ps' k = Some c \<and> opened ps e c)"

lemma joined_new:
  assumes "joined N es ps ps'" and "conns ps k = None"
  shows "case find (wanted N (host_id ps) k) es of
    None \<Rightarrow> conns ps' k = None | Some e \<Rightarrow> \<exists>c. conns ps' k = Some c \<and> opened ps e c"
proof -
  from assms(1) have "if conns ps k \<noteq> None then conns ps' k = conns ps k
      else case find (wanted N (host_id ps) k) es of
             None \<Rightarrow> conns ps' k = None
           | Some e \<Rightarrow> \<exists>c. conns ps' k = Some c \<and> opened ps e c"
    unfolding joined_def by blast
  with assms(2) show ?thesis by simp
qed

lemma connect_ps_joined:
  assumes "connections ps \<noteq> None"
  shows "\<exists>ps' acts. connect_ps N pid (Some a) ps = ok (ps', acts) \<and> joined N [(a, pid)] ps ps'"
  using assms
  by (auto simp: connect_ps_def joined_def open_connection_def getNextPeerId_def Connection_New_def
      put_connection_def conns_def opened_def wanted_def own_protocol_def split: option.splits)

lemma joined_trans:
  assumes "joined N [e] ps ps1" and "joined N es ps1 ps2"
  shows "joined N (e # es) ps ps2"
  unfolding joined_def
proof (intro conjI allI)
  fix k
  from assms(1) have 1: "if conns ps k \<noteq> None then conns ps1 k = conns ps k
      else case find (wanted N (host_id ps) k) [e] of
        None \<Rightarrow> conns ps1 k = None | Some e \<Rightarrow> \<exists>c. conns ps1 k = Some c \<and> opened ps e c"
    unfolding joined_def by blast
  from assms(1) have same: "host_id ps1 = host_id ps" "opened ps1 = opened ps"
    by (auto simp: joined_def opened_def fun_eq_iff)
  have 2: "if conns ps1 k \<noteq> None then conns ps2 k = conns ps1 k
      else case find (wanted N (host_id ps1) k) es of
        None \<Rightarrow> conns ps2 k = None | Some e \<Rightarrow> \<exists>c. conns ps2 k = Some c \<and> opened ps1 e c"
    using assms(2) unfolding joined_def by blast
  show "if conns ps k \<noteq> None then conns ps2 k = conns ps k
      else case find (wanted N (host_id ps) k) (e # es) of
        None \<Rightarrow> conns ps2 k = None | Some e \<Rightarrow> \<exists>c. conns ps2 k = Some c \<and> opened ps e c"
    using 1 2 unfolding same by (auto split: if_splits)
qed (use assms in \<open>auto simp: joined_def\<close>)

lemma connect_all_joined:
  assumes "connections ps \<noteq> None" and "i + length ids = length mAddrs"
  shows "\<exists>ps' acts. connect_all N mAddrs i ids ps = ok (ps', acts) \<and> joined N (zip (drop i mAddrs) ids) ps ps'"
  using assms
proof (induction ids arbitrary: i ps)
  case (Cons pid ids)
  then have i: "i < length mAddrs" by simp
  from connect_ps_joined [OF Cons.prems(1)] obtain ps1 acts1 where 1:
    "connect_ps N pid (Some (mAddrs ! i)) ps = ok (ps1, acts1)" "joined N [(mAddrs ! i, pid)] ps ps1" by blast
  then have "connections ps1 \<noteq> None" by (simp add: joined_def)
  with Cons.IH [of ps1 "Suc i"] Cons.prems(2) obtain ps2 acts2 where 2:
    "connect_all N mAddrs (Suc i) ids ps1 = ok (ps2, acts2)" "joined N (zip (drop (Suc i) mAddrs) ids) ps1 ps2"
    by auto
  from joined_trans [OF 1(2) 2(2)] 1(1) 2(1) i show ?case
    by (simp add: Cons_nth_drop_Suc [symmetric])
qed (auto simp: joined_def)

lemma all_or_panic_ok: "(\<And>x. x \<in> set xs \<Longrightarrow> f x = Inr (g x)) \<Longrightarrow> all_or_panic f xs = ok (map g xs)"
  by (induction xs) simp_all

section \<open>Starting the hub\<close>

text \<open>What the library answers for the entries of the bootstrap string.\<close>

definition entries_parse :: "net_lib \<Rightarrow> (entry \<Rightarrow> multiaddr) \<Rightarrow> (entry \<Rightarrow> peer_id) \<Rightarrow> entry list \<Rightarrow> bool" where
  "entries_parse N ma dec es \<longleftrightarrow>
     (\<forall>e \<in> set es. NewMultiaddr N (entry_addr e) = Inr (ma e) \<and> DecodeId N (fst e) = Inr (dec e) \<and>
        Pretty N (dec e) = fst e)"

lemma PeerService_New_joined:
  assumes "RelayAddrs cfg = map entry_addr es" and "RelayIds cfg = map fst es" and "entries_parse N ma dec es"
    and "GetExternalMultiAddress N cfg lookup addrs = ok ext"
  shows "\<exists>ps ps0 acts. PeerService_New N cfg lookup pid addrs network ver minVer = ok (ps, acts) \<and>
    conns ps0 = Map.empty \<and> host_id ps0 = pid \<and> joined N (zip (map ma es) (map dec es)) ps0 ps"
proof -
  have "GetBootstrapMultiaddrs N cfg = ok (map ma es)"
    unfolding GetBootstrapMultiaddrs_def assms(1) using assms(3)
    by (subst all_or_panic_ok [of _ _ "\<lambda>a. case NewMultiaddr N a of Inr m \<Rightarrow> m"])
       (auto simp: entries_parse_def)
  moreover have "GetBootstrapIDs N cfg = ok (map dec es)"
    unfolding GetBootstrapIDs_def assms(2) using assms(3)
    by (subst all_or_panic_ok [of _ _ "\<lambda>a. case DecodeId N a of Inr m \<Rightarrow> m"])
       (auto simp: entries_parse_def)
  moreover let ?ps0 = "\<lparr>host_id = pid, host_addrs = addrs, myExternalAddress = ext, connections = Some Map.empty,
      messages = Map.empty, peerIds = Map.empty, bannedPeer = Map.empty, running = True,
      Signature = None, networkName = network, version = ver, minPeerVersion = minVer, totalPeers = 0\<rparr>"
  from connect_all_joined [of ?ps0 0 "map dec es" "map ma es" N] obtain ps acts where
    "connect_all N (map ma es) 0 (map dec es) ?ps0 = ok (ps, acts)"
    "joined N (zip (map ma es) (map dec es)) ?ps0 ps" by auto
  ultimately show ?thesis
    using assms(4) by (intro exI [of _ ps] exI [of _ ?ps0] exI [of _ acts]) (simp add: PeerService_New_def conns_def)
qed

lemma external_address:
  assumes "lookup = Inr ip" and "ip \<noteq> []" and "addrs \<noteq> []" and "ipLookup cfg"
  shows "\<exists>ext. GetExternalMultiAddress N cfg lookup addrs = ok ext"
proof (cases "filter (\<lambda>addr. contains_sub (AddrString N addr) ip) addrs")
  case Nil
  with assms show ?thesis
    by (cases addrs) (auto simp: GetExternalMultiAddress_def GetP2PExternalIP_def IPLookup_def)
qed (use assms in \<open>auto simp: GetExternalMultiAddress_def GetP2PExternalIP_def IPLookup_def\<close>)

lemma find_entry:
  assumes "entries_parse N ma dec es"
  shows "find (wanted N own k) (zip (map ma es) (map dec es)) =
    map_option (\<lambda>e. (ma e, dec e)) (find (\<lambda>e. dec e \<noteq> own \<and> fst e = k) es)"
  using assms by (induction es) (auto simp: wanted_def entries_parse_def)

lemma BuildNamedHost_entries:
  assumes "entries_parse N ma dec es" and "RelayAddrs cfg = map entry_addr es" and "RelayIds cfg = map fst es"
    and "GetP2PExternalIP cfg lookup = ok ip"
  shows "\<exists>opts. BuildNamedHost K N libp2p_New cfg lookup prv = or_panic (libp2p_New opts)"
proof -
  have "id_addresses N (key_id K prv) (RelayAddrs cfg) 0 (RelayIds cfg) \<in> range ok"
    unfolding assms(2,3)
    by (subst id_addresses_entries [where dec = "\<lambda>r. case DecodeId N r of Inr i \<Rightarrow> i"
          and ma = "\<lambda>a. case NewMultiaddr N a of Inr m \<Rightarrow> m" and ids = "map fst es"])
       (use assms(1) in \<open>auto simp: entries_parse_def\<close>)
  then show ?thesis using assms(4)
    by (auto simp: BuildNamedHost_def listen_address_def GetBootstrapIDAddresses_def Let_def)
qed

text \<open>
  C9: a hub started with a well-formed bootstrap string opens exactly one connection for every node in
  it but itself: under the node's id as it stands in the string, to the address of the first entry
  with that id, not connected yet and without a key; it opens no other.
\<close>
theorem StartHub_connects_bootstrap:
  assumes "es \<noteq> []" and "list_all entry_clean es" and "entries_parse N ma dec es"
    and "key_unmarshal K privKey = Inr prv"
    and "lookup1 = Inr ip1" and "lookup2 = Inr ip2" and "ip2 \<noteq> []"
    and "\<And>opts. libp2p_New opts = Inr (pid, addrs)" and "addrs \<noteq> []"
    and "hub_cfg h = initial_config"
  shows "\<exists>h' ps acts.
    StartHub K N libp2p_New lookup1 lookup2 (join_entries es) privKey network ver minVer chainId h = (h', ok acts) \<and>
    localPeer h' = Some ps \<and> ChainId (hub_cfg h') = word_of_int chainId \<and>
    (\<forall>k. case find (\<lambda>e. dec e \<noteq> pid \<and> fst e = k) es of
           None \<Rightarrow> conns ps k = None
         | Some e \<Rightarrow> \<exists>c. conns ps k = Some c \<and> PeerId c = dec e \<and> PeerAddress c = Some (ma e) \<and>
             PeerPublicKey c = [] \<and> status c = NotConnected)"
proof -
  let ?cfg = "initial_config\<lparr>ChainId := word_of_int chainId, RelayAddrs := map entry_addr es,
      RelayIds := map fst es\<rparr>"
  have parsed: "SetBootstrapAddress (join_entries es) (initial_config\<lparr>ChainId := word_of_int chainId\<rparr>) = (?cfg, ok ())"
    using SetBootstrapAddress_entries [OF assms(1,2)] by (simp add: initial_config_def)
  have host: "BuildNamedHost K N libp2p_New ?cfg lookup1 prv = ok (pid, addrs)"
    using BuildNamedHost_entries [OF assms(3), of ?cfg lookup1 ip1 K libp2p_New prv] assms(5,8)
    by (auto simp: GetP2PExternalIP_def IPLookup_def initial_config_def)
  obtain ext where ext: "GetExternalMultiAddress N ?cfg lookup2 addrs = ok ext"
    using external_address [OF assms(6,7,9), of ?cfg N] by (auto simp: initial_config_def)
  from PeerService_New_joined [OF _ _ assms(3) ext, of pid network ver minVer] obtain ps ps0 acts where
    new: "PeerService_New N ?cfg lookup2 pid addrs network ver minVer = ok (ps, acts)"
    and ps0: "conns ps0 = Map.empty" "host_id ps0 = pid" "joined N (zip (map ma es) (map dec es)) ps0 ps"
    by auto
  have "case find (\<lambda>e. dec e \<noteq> pid \<and> fst e = k) es of
           None \<Rightarrow> conns ps k = None
         | Some e \<Rightarrow> \<exists>c. conns ps k = Some c \<and> PeerId c = dec e \<and> PeerAddress c = Some (ma e) \<and>
             PeerPublicKey c = [] \<and> status c = NotConnected" for k
  proof -
    from ps0(3) have "case find (wanted N (host_id ps0) k) (zip (map ma es) (map dec es)) of
        None \<Rightarrow> conns ps k = None | Some e \<Rightarrow> \<exists>c. conns ps k = Some c \<and> opened ps0 e c"
      using joined_new [of N _ ps0 ps k] ps0(1) by simp
    with find_entry [OF assms(3), of pid k] show ?thesis
      unfolding ps0(2) by (auto simp: opened_def split: option.splits)
  qed
  then show ?thesis
    using parsed host new assms(4,10)
    by (intro exI [of _ "h\<lparr>hub_cfg := ?cfg, localPeer := Some ps\<rparr>"] exI [of _ ps] exI [of _ acts])
       (simp add: StartHub_def New_with_host_def)
qed

lemma StartHub_connects_bootstrap_witness:
  "\<exists>h' ps acts. StartHub plain_keys toy_net (\<lambda>_. Inr ([66], [''/ip4/2/tcp/7''])) (Inr ''2'') (Inr ''2'')
      (join_entries [(''A'', ''1'', ''7''), (''B'', ''2'', ''7''), (''A'', ''3'', ''7'')]) [66] ''net'' 1 0 2 initial_hub =
      (h', ok acts) \<and> localPeer h' = Some ps \<and>
    (\<exists>c. conns ps ''A'' = Some c \<and> PeerAddress c = Some ''/ip4/1/tcp/7'') \<and> conns ps ''B'' = None"
proof -
  let ?es = "[(''A'', ''1'', ''7''), (''B'', ''2'', ''7''), (''A'', ''3'', ''7'')] :: entry list"
  have "entries_parse toy_net entry_addr (\<lambda>e. text_bytes (fst e)) ?es"
    by (simp add: entries_parse_def toy_net_def)
  from StartHub_connects_bootstrap [OF _ _ this, of plain_keys "[66]" "[66]" "Inr ''2''" "''2''" "Inr ''2''" "''2''"
      "\<lambda>_. Inr ([66], [''/ip4/2/tcp/7''])" "[66]" "[''/ip4/2/tcp/7'']" initial_hub "''net''" 1 0 2]
  obtain h' ps acts where
    r: "StartHub plain_keys toy_net (\<lambda>_. Inr ([66], [''/ip4/2/tcp/7''])) (Inr ''2'') (Inr ''2'')
      (join_entries ?es) [66] ''net'' 1 0 2 initial_hub = (h', ok acts)" "localPeer h' = Some ps"
    and t: "\<And>k. case find (\<lambda>e. text_bytes (fst e) \<noteq> [66] \<and> fst e = k) ?es of
           None \<Rightarrow> conns ps k = None
         | Some e \<Rightarrow> \<exists>c. conns ps k = Some c \<and> PeerId c = text_bytes (fst e) \<and> PeerAddress c = Some (entry_addr e) \<and>
             PeerPublicKey c = [] \<and> status c = NotConnected"
    by (auto simp: plain_keys_def entry_clean_def clean_def initial_hub_def)
  from t [of "''A''"] t [of "''B''"] have
    "\<exists>c. conns ps ''A'' = Some c \<and> PeerAddress c = Some ''/ip4/1/tcp/7''" "conns ps ''B'' = None"
    by (auto simp: text_bytes_def entry_addr_def)
  with r show ?thesis by blast
qed

end
