(* ===== verification/Hub_Server.thy ===== *)
theory Hub_Server
  imports Hub
begin

text \<open>
  The parts of \<^verbatim>\<open>embedded_hub.go\<close> that serve the process itself: the metrics endpoint that \<open>Init\<close>
  starts, the profiler, and the format of the log lines. Opening a port and serving it are the
  operating system's answers; \<open>http.Handle\<close> is \<open>net/http\<close>'s registration in the default mux, which
  panics for a pattern that is registered already.
\<close>

section \<open>State\<close>

text \<open>
  The registered patterns, the ports of the metrics goroutines with the errors each has logged, the
  profiler's listeners (with the ports the system gave them) and the variable \<open>profilerPort\<close>.
\<close>

record servers =
  patterns :: "string list"
  metrics_loops :: "(int \<times> nat) list"
  listeners :: "int list"
  profilerPort :: int

definition initial_servers :: servers where
  "initial_servers = \<lparr>patterns = [], metrics_loops = [], listeners = [], profilerPort = - 1\<rparr>"

section \<open>\<open>Init\<close>\<close>

definition http_Handle :: "string \<Rightarrow> servers \<Rightarrow> servers go" where
  "http_Handle pat sv =
     (if pat \<in> set (patterns sv) then panic (PanicWith (''http: multiple registrations for '' @ pat))
      else ok (sv\<lparr>patterns := patterns sv @ [pat]\<rparr>))"

text \<open>The start of \<open>Init\<close>: registering the endpoint and starting the goroutine that serves it.\<close>

definition start_metrics :: "int \<Rightarrow> servers \<Rightarrow> servers go" where
  "start_metrics metricsPort sv =
     and_then (http_Handle ''/metrics'' sv) (\<lambda>sv1.
       ok (sv1\<lparr>metrics_loops := metrics_loops sv1 @ [(metricsPort, 0)]\<rparr>))"

text \<open>
  One round of that goroutine: \<open>ListenAndServe\<close> only returns with an error, which is logged, and the
  loop calls it again at once.
\<close>

definition metrics_round :: "nat \<Rightarrow> servers \<Rightarrow> servers" where
  "metrics_round i sv =
     (if i < length (metrics_loops sv)
      then sv\<lparr>metrics_loops := (metrics_loops sv)[i := (case metrics_loops sv ! i of (p, n) \<Rightarrow> (p, Suc n))]\<rparr>
      else sv)"

definition Init_metrics ::
    "crypto_lib \<Rightarrow> net_lib \<Rightarrow> string list \<Rightarrow> bytes \<Rightarrow> int \<Rightarrow> hub \<Rightarrow> servers \<Rightarrow>
     servers \<times> (hub \<times> ps_action list \<times> int) go" where
  "Init_metrics C N order sig metricsPort h sv =
     (case start_metrics metricsPort sv of
        Inl x \<Rightarrow> (sv, Inl x)
      | Inr sv1 \<Rightarrow> (sv1, Init C N order sig h))"

section \<open>\<open>StartProfiler\<close>\<close>

text \<open>
  A call, with the system's answer to opening a port, and the later end of a server: the goroutine
  resets \<open>profilerPort\<close> and the port is free again. A failure to listen panics in the goroutine.
\<close>

definition StartProfiler :: "go_error + int \<Rightarrow> servers \<Rightarrow> servers \<times> int go" where
  "StartProfiler listen sv =
     (if profilerPort sv \<noteq> - 1 then (sv, ok (profilerPort sv))
      else
        (case listen of
           Inl e \<Rightarrow> (sv, panic (PanicErr e))
         | Inr p \<Rightarrow> (sv\<lparr>listeners := listeners sv @ [p]\<rparr>, ok p)))"

definition profiler_ended :: "int \<Rightarrow> servers \<Rightarrow> servers" where
  "profiler_ended p sv =
     (if p \<in> set (listeners sv) then sv\<lparr>listeners := remove1 p (listeners sv), profilerPort := - 1\<rparr> else sv)"

section \<open>Log lines\<close>

text \<open>\<open>filepath.Base\<close> for a slash-separated path.\<close>

definition Base :: "string \<Rightarrow> string" where
  "Base path =
     (if path = [] then ''.''
      else let p = rev (dropWhile (\<lambda>c. c = CHR ''/'') (rev path)) in
           if p = [] then ''/''
           else rev (takeWhile (\<lambda>c. c \<noteq> CHR ''/'') (rev p)))"

text \<open>The verb \<open>%-nv\<close>: the text, padded with blanks on the right to the width.\<close>

definition pad_right :: "nat \<Rightarrow> string \<Rightarrow> string" where
  "pad_right n s = s @ replicate (n - length s) (CHR '' '')"

text \<open>The line of the writer that \<open>LogLevel\<close> installs; the time stamp is formatted by \<open>time\<close>.\<close>

definition log_line :: "string \<Rightarrow> string \<Rightarrow> string \<Rightarrow> string \<Rightarrow> int \<Rightarrow> string \<Rightarrow> string" where
  "log_line ts level modul filename line message =
     ts @ ''|'' @ pad_right 5 level @ ''|'' @
     pad_right 30 (modul @ '' '' @ Base filename @ '':'' @ show_int line) @ ''| '' @ message"

lemma Base_last:
  assumes "CHR ''/'' \<notin> set name" and "name \<noteq> []"
  shows "Base (dir @ ''/'' @ name) = name" and "Base name = name"
proof -
  have "hd (rev name) \<noteq> CHR ''/''" "rev name \<noteq> []"
    using assms last_in_set [of name] by (auto simp: hd_rev simp del: last_in_set)
  then have keep: "dropWhile (\<lambda>c. c = CHR ''/'') (rev name @ ys) = rev name @ ys" for ys
    by (cases "rev name") simp_all
  have part: "takeWhile (\<lambda>c. c \<noteq> CHR ''/'') (rev name @ ys) = rev name @ takeWhile (\<lambda>c. c \<noteq> CHR ''/'') ys" for ys
    using assms(1) by (intro takeWhile_append2) auto
  have whole: "takeWhile (\<lambda>c. c \<noteq> CHR ''/'') (rev name) = rev name"
    using part [of "[]"] by (simp only: append_Nil2 takeWhile.simps)
  show "Base (dir @ ''/'' @ name) = name" "Base name = name"
    using assms(2) keep [of "CHR ''/'' # rev dir"] part [of "CHR ''/'' # rev dir"] keep [of "[]"]
    by (simp_all add: Base_def Let_def whole)
qed

section \<open>Properties\<close>

text \<open>Calls of \<open>StartProfiler\<close> and ends of servers, in any order.\<close>

datatype profiler_event = CallProfiler "go_error + int" | ServerEnds int

definition profiler_step :: "servers \<Rightarrow> profiler_event \<Rightarrow> servers \<times> unit go" where
  "profiler_step sv e =
     (case e of
        CallProfiler listen \<Rightarrow> (case StartProfiler listen sv of (sv', r) \<Rightarrow> (sv', and_then r (\<lambda>_. ok ())))
      | ServerEnds p \<Rightarrow> (profiler_ended p sv, ok ()))"

interpretation unguarded: invariant_machine profiler_step "\<lambda>sv. profilerPort sv = - 1"
  by unfold_locales
     (auto simp: profiler_step_def StartProfiler_def profiler_ended_def split: profiler_event.splits sum.splits)

lemma calls_open_listeners:
  "profilerPort sv = - 1 \<Longrightarrow>
   fst (run profiler_step sv (map (\<lambda>p. CallProfiler (Inr p)) ports)) = sv\<lparr>listeners := listeners sv @ ports\<rparr>"
  by (induction ports arbitrary: sv) (simp_all add: run_Cons profiler_step_def StartProfiler_def)

text \<open>
  C40: the profiler's guard never works: nothing assigns the port to \<open>profilerPort\<close>, so after any calls of
  \<open>StartProfiler\<close> and any ends of servers the variable still is \<open>- 1\<close>, a further call answers with the port of a
  new listener, and as many calls as the system has ports for open as many listeners.
\<close>
theorem profiler_guard_never_fires:
  fixes es :: "profiler_event list"
  defines "sv \<equiv> fst (run profiler_step initial_servers es)"
  shows "profilerPort sv = - 1 \<and> snd (StartProfiler (Inr p) sv) = ok p \<and>
    listeners (fst (run profiler_step sv (map (\<lambda>p. CallProfiler (Inr p)) ports))) = listeners sv @ ports"
proof -
  have "profilerPort sv = - 1"
    unfolding sv_def by (rule unguarded.run_inv) (simp add: initial_servers_def)
  with calls_open_listeners [OF this, of ports] show ?thesis by (simp add: StartProfiler_def)
qed

text \<open>
  C39: \<open>Init\<close> can be called once: the first call on fresh servers registers the endpoint and goes on to set
  the signature, and every later one panics while registering it, before the signature is looked at.
  So a signature that was rejected by the first call cannot be replaced by a second one.
\<close>
theorem second_Init_panics:
  assumes "Init_metrics C N order sig port h initial_servers = (sv1, r)"
  shows "r = Init C N order sig h \<and> metrics_loops sv1 = [(port, 0)] \<and>
    Init_metrics C N order' sig' port' h' sv1 =
      (sv1, panic (PanicWith ''http: multiple registrations for /metrics''))"
  using assms
  by (auto simp: Init_metrics_def start_metrics_def http_Handle_def initial_servers_def)

lemma second_Init_panics_witness:
  "is_panic (snd (Init_metrics toy_crypto toy_net [] [] 7071 initial_hub
     (fst (Init_metrics toy_crypto toy_net [] [] 7071 initial_hub initial_servers))))"
  using second_Init_panics [OF prod.collapse [symmetric]] by simp

text \<open>
  The columns of a log line: with a level of at most 5 and a location of at most 30 characters the
  message starts at a fixed distance behind the time stamp, and cutting there gives it back.
\<close>
theorem log_line_columns:
  assumes "length level \<le> 5" and "length (modul @ '' '' @ name @ '':'' @ show_int line) \<le> 30"
    and "CHR ''/'' \<notin> set name" and "name \<noteq> []"
  shows "drop (length ts + 39) (log_line ts level modul (dir @ ''/'' @ name) line message) = message"
proof -
  let ?pre = "ts @ ''|'' @ pad_right 5 level @ ''|'' @
    pad_right 30 (modul @ '' '' @ name @ '':'' @ show_int line) @ ''| ''"
  have "length (pad_right 5 level) = 5" "length (pad_right 30 (modul @ '' '' @ name @ '':'' @ show_int line)) = 30"
    using assms(1,2) by (simp_all only: pad_right_def length_append length_replicate)
  then have "length ?pre = length ts + 39" by (simp only: length_append) simp
  moreover have "log_line ts level modul (dir @ ''/'' @ name) line message = ?pre @ message"
    by (simp only: log_line_def Base_last(1) [OF assms(3,4)] append_assoc)
  ultimately show ?thesis by (metis append_eq_conv_conj)
qed

lemma log_line_columns_witness:
  "drop (length ''12:00'' + 39) (log_line ''12:00'' ''DEBUG'' ''peer'' ''/a/b.go'' 7 ''hello'') = ''hello''"
  using log_line_columns [of "''DEBUG''" "''peer''" "''b.go''" 7 "''12:00''" "''/a''" "''hello''"]
  by (simp add: show_int_def show_nat.simps)

end
