(* ===== verification/Shutdown.thy ===== *)
theory Shutdown
  imports Peer_Service
begin

text \<open>
  The locking of \<open>Stop\<close> against the callbacks of one connection, as a step relation: \<open>Stop\<close> holds
  the service's mutex while \<open>Terminate\<close> waits for the two cycles to end, the receive cycle's
  callbacks test \<open>running\<close> and then lock, and the send cycle locks in \<open>AvailableRelays\<close> without a
  test. Only what decides who can move is kept of the state.
\<close>

datatype thread = TStop | TRecv | TSend

datatype stop_pc = StopIdle | StopLock | StopWait | StopDone

text \<open>At the loop's test, at work, about to lock, inside the critical section, and ended.\<close>

datatype cycle_pc = CTop | CWork | CWantLock | CLocked | CEnded

record shutdown =
  sd_running :: bool
  sd_mutex :: "thread option"
  sd_status :: status
  sd_stop :: stop_pc
  sd_recv :: cycle_pc
  sd_send :: cycle_pc

definition sd_init :: shutdown where
  "sd_init = \<lparr>sd_running = True, sd_mutex = None, sd_status = JustConnected, sd_stop = StopIdle,
     sd_recv = CTop, sd_send = CTop\<rparr>"

inductive sd_step :: "shutdown \<Rightarrow> shutdown \<Rightarrow> bool" where
  stop_called: "sd_stop s = StopIdle \<Longrightarrow> sd_step s (s\<lparr>sd_stop := StopLock\<rparr>)"
| stop_locks: "sd_stop s = StopLock \<Longrightarrow> sd_mutex s = None \<Longrightarrow> sd_running s \<Longrightarrow>
    sd_step s (s\<lparr>sd_mutex := Some TStop, sd_running := False, sd_status := Terminated, sd_stop := StopWait\<rparr>)"
| stop_returns: "sd_stop s = StopWait \<Longrightarrow> sd_recv s = CEnded \<Longrightarrow> sd_send s = CEnded \<Longrightarrow>
    sd_step s (s\<lparr>sd_mutex := None, sd_stop := StopDone\<rparr>)"
| recv_enters: "sd_recv s = CTop \<Longrightarrow> sd_status s \<noteq> Terminated \<Longrightarrow> sd_step s (s\<lparr>sd_recv := CWork\<rparr>)"
| recv_ends: "sd_recv s = CTop \<Longrightarrow> sd_status s = Terminated \<Longrightarrow> sd_step s (s\<lparr>sd_recv := CEnded\<rparr>)"
| recv_again: "sd_recv s = CWork \<Longrightarrow> sd_step s (s\<lparr>sd_recv := CTop\<rparr>)"
| recv_tests: "sd_recv s = CWork \<Longrightarrow> sd_running s \<Longrightarrow> sd_step s (s\<lparr>sd_recv := CWantLock\<rparr>)"
| recv_locks: "sd_recv s = CWantLock \<Longrightarrow> sd_mutex s = None \<Longrightarrow>
    sd_step s (s\<lparr>sd_recv := CLocked, sd_mutex := Some TRecv\<rparr>)"
| recv_unlocks: "sd_recv s = CLocked \<Longrightarrow> sd_step s (s\<lparr>sd_recv := CTop, sd_mutex := None\<rparr>)"
| send_enters: "sd_send s = CTop \<Longrightarrow> sd_status s \<noteq> Terminated \<Longrightarrow> sd_step s (s\<lparr>sd_send := CWork\<rparr>)"
| send_ends: "sd_send s = CTop \<Longrightarrow> sd_status s = Terminated \<Longrightarrow> sd_step s (s\<lparr>sd_send := CEnded\<rparr>)"
| send_again: "sd_send s = CWork \<Longrightarrow> sd_step s (s\<lparr>sd_send := CTop\<rparr>)"
| send_relays: "sd_send s = CWork \<Longrightarrow> sd_step s (s\<lparr>sd_send := CWantLock\<rparr>)"
| send_locks: "sd_send s = CWantLock \<Longrightarrow> sd_mutex s = None \<Longrightarrow>
    sd_step s (s\<lparr>sd_send := CLocked, sd_mutex := Some TSend\<rparr>)"
| send_unlocks: "sd_send s = CLocked \<Longrightarrow> sd_step s (s\<lparr>sd_send := CTop, sd_mutex := None\<rparr>)"

inductive_cases sd_step_cases: "sd_step s t"

inductive sd_reachable :: "shutdown \<Rightarrow> bool" where
  start: "sd_reachable sd_init"
| step: "sd_reachable s \<Longrightarrow> sd_step s t \<Longrightarrow> sd_reachable t"

definition stuck :: "shutdown \<Rightarrow> bool" where
  "stuck s \<longleftrightarrow> (\<forall>t. \<not> sd_step s t)"

definition deadlocked :: "shutdown \<Rightarrow> bool" where
  "deadlocked s \<longleftrightarrow> sd_stop s = StopWait \<and> sd_mutex s = Some TStop \<and>
     sd_recv s \<in> {CWantLock, CEnded} \<and> sd_send s \<in> {CWantLock, CEnded} \<and>
     (sd_recv s = CWantLock \<or> sd_send s = CWantLock)"

section \<open>Who holds the mutex\<close>

definition sd_inv :: "shutdown \<Rightarrow> bool" where
  "sd_inv s \<longleftrightarrow>
     (sd_mutex s = Some TStop \<longleftrightarrow> sd_stop s = StopWait) \<and>
     (sd_mutex s = Some TRecv \<longleftrightarrow> sd_recv s = CLocked) \<and>
     (sd_mutex s = Some TSend \<longleftrightarrow> sd_send s = CLocked) \<and>
     (sd_running s \<longleftrightarrow> sd_stop s \<in> {StopIdle, StopLock}) \<and>
     (sd_status s = Terminated \<longleftrightarrow> sd_stop s \<in> {StopWait, StopDone})"

lemma sd_inv_reachable: "sd_reachable s \<Longrightarrow> sd_inv s"
proof (induction rule: sd_reachable.induct)
  case start
  show ?case by (simp add: sd_inv_def sd_init_def)
next
  case (step s t)
  from step.hyps(2) step.IH show ?case
    by (cases rule: sd_step.cases) (auto simp: sd_inv_def)
qed

lemma step_not_stuck: "sd_step s t \<Longrightarrow> \<not> stuck s"
  by (auto simp: stuck_def)

lemmas moves = sd_step.intros [THEN step_not_stuck]

lemma stuck_shape:
  assumes "sd_inv s" and "stuck s"
  shows "sd_stop s = StopDone \<and> sd_recv s = CEnded \<and> sd_send s = CEnded \<or> deadlocked s"
proof -
  have pcs: "sd_stop s \<noteq> StopIdle" "sd_recv s \<notin> {CTop, CWork, CLocked}" "sd_send s \<notin> {CTop, CWork, CLocked}"
    using assms(2) moves by (cases "sd_status s = Terminated"; auto)+
  then have no_cycle: "sd_mutex s \<noteq> Some TRecv" "sd_mutex s \<noteq> Some TSend"
    using assms(1) by (auto simp: sd_inv_def)
  then have mutex: "sd_mutex s = None \<or> sd_mutex s = Some TStop"
    by (metis not_None_eq thread.exhaust)
  have "sd_recv s = CWantLock \<Longrightarrow> sd_mutex s = Some TStop" "sd_send s = CWantLock \<Longrightarrow> sd_mutex s = Some TStop"
    using mutex assms(2) moves by auto
  moreover have "sd_stop s = StopLock \<Longrightarrow> sd_mutex s \<noteq> None"
    using assms moves(2) by (auto simp: sd_inv_def)
  moreover have "sd_stop s = StopWait \<Longrightarrow> sd_recv s \<noteq> CEnded \<or> sd_send s \<noteq> CEnded"
    using assms(2) moves(3) by auto
  moreover have "sd_recv s \<in> {CWantLock, CEnded}" "sd_send s \<in> {CWantLock, CEnded}"
    using pcs by (cases "sd_recv s"; cases "sd_send s"; simp)+
  ultimately show ?thesis
    using pcs mutex assms(1)
    by (cases "sd_stop s") (auto simp: deadlocked_def sd_inv_def)
qed

section \<open>Properties\<close>

text \<open>
  \<open>Stop\<close> can deadlock: there is a reachable state in which it holds the mutex and waits for the receive cycle
  to end, while that cycle, having passed the test of \<open>running\<close>, waits for the mutex; no thread of
  this state can move.
\<close>
theorem stop_can_deadlock: "\<exists>s. sd_reachable s \<and> stuck s \<and> deadlocked s \<and> sd_recv s = CWantLock"
proof -
  let ?s1 = "sd_init\<lparr>sd_recv := CWork\<rparr>"
  let ?s2 = "?s1\<lparr>sd_recv := CWantLock\<rparr>"
  let ?s3 = "?s2\<lparr>sd_stop := StopLock\<rparr>"
  let ?s4 = "?s3\<lparr>sd_mutex := Some TStop, sd_running := False, sd_status := Terminated, sd_stop := StopWait\<rparr>"
  let ?s5 = "?s4\<lparr>sd_send := CEnded\<rparr>"
  have 1: "sd_reachable ?s1"
    by (rule sd_reachable.step [OF sd_reachable.start], rule recv_enters) (simp_all add: sd_init_def)
  have 2: "sd_reachable ?s2"
    by (rule sd_reachable.step [OF 1], rule recv_tests) (simp_all add: sd_init_def)
  have 3: "sd_reachable ?s3"
    by (rule sd_reachable.step [OF 2], rule stop_called) (simp add: sd_init_def)
  have 4: "sd_reachable ?s4"
    by (rule sd_reachable.step [OF 3], rule stop_locks) (simp_all add: sd_init_def)
  have 5: "sd_reachable ?s5"
    by (rule sd_reachable.step [OF 4], rule send_ends) (simp_all add: sd_init_def)
  have "stuck ?s5"
    unfolding stuck_def by (auto simp: sd_init_def elim: sd_step.cases)
  with 5 show ?thesis by (intro exI [of _ ?s5]) (simp add: deadlocked_def sd_init_def)
qed

text \<open>
  And that is the only way it can hang: every reachable state in which nothing can move is either the end of a
  completed \<open>Stop\<close> or a deadlock of this kind, with \<open>Stop\<close> holding the mutex a cycle waits for.
\<close>
theorem only_deadlock_is_lock_under_wait:
  assumes "sd_reachable s" and "stuck s"
  shows "sd_stop s = StopDone \<and> sd_recv s = CEnded \<and> sd_send s = CEnded \<or> deadlocked s"
  by (rule stuck_shape [OF sd_inv_reachable [OF assms(1)] assms(2)])

text \<open>The orderly shutdown reaches the first alternative.\<close>

definition sd_end :: shutdown where
  "sd_end = \<lparr>sd_running = False, sd_mutex = None, sd_status = Terminated, sd_stop = StopDone,
     sd_recv = CEnded, sd_send = CEnded\<rparr>"

lemma sd_end_reachable: "sd_reachable sd_end"
proof -
  let ?s1 = "sd_init\<lparr>sd_stop := StopLock\<rparr>"
  let ?s2 = "?s1\<lparr>sd_mutex := Some TStop, sd_running := False, sd_status := Terminated, sd_stop := StopWait\<rparr>"
  let ?s3 = "?s2\<lparr>sd_recv := CEnded\<rparr>"
  let ?s4 = "?s3\<lparr>sd_send := CEnded\<rparr>"
  have 1: "sd_reachable ?s1"
    by (rule sd_reachable.step [OF sd_reachable.start], rule stop_called) (simp add: sd_init_def)
  have 2: "sd_reachable ?s2"
    by (rule sd_reachable.step [OF 1], rule stop_locks) (simp_all add: sd_init_def)
  have 3: "sd_reachable ?s3"
    by (rule sd_reachable.step [OF 2], rule recv_ends) (simp_all add: sd_init_def)
  have 4: "sd_reachable ?s4"
    by (rule sd_reachable.step [OF 3], rule send_ends) (simp_all add: sd_init_def)
  have "sd_reachable (?s4\<lparr>sd_mutex := None, sd_stop := StopDone\<rparr>)"
    by (rule sd_reachable.step [OF 4], rule stop_returns) (simp_all add: sd_init_def)
  then show ?thesis by (simp add: sd_init_def sd_end_def)
qed

lemma only_deadlock_is_lock_under_wait_witness:
  "sd_stop sd_end = StopDone \<and> sd_recv sd_end = CEnded \<and> sd_send sd_end = CEnded \<or> deadlocked sd_end"
proof (rule only_deadlock_is_lock_under_wait [OF sd_end_reachable])
  show "stuck sd_end" unfolding stuck_def by (auto simp: sd_end_def elim: sd_step.cases)
qed

end
