(* ===== verification/Locks.thy ===== *)
theory Locks
  imports Prelude
begin

text \<open>
  The locks of the hub and the threads that take them, as a step relation: the service's mutex, each
  connection's \<open>streamLock\<close>, the three cycles of every connection, the handler of inbound streams and
  \<open>Stop\<close>. Of each thread only the point it has reached is kept; a step may be taken whenever the
  code can take it for some input, so a network operation that ends may end either way. The queues'
  mutexes and \<open>confirmLock\<close> are held for a few assignments only and are left out, as are the requests
  of the node, which hold the service's mutex for a bounded computation.
\<close>

section \<open>State\<close>

text \<open>Who holds a lock; connections are numbered.\<close>

datatype holder = ByStop | ByRecv nat | BySend nat | ByPeers nat | ByInbound nat

text \<open>
  The points of the receive cycle: the test of the status, at work, waiting for the mutex in a
  callback, inside the callback, ended.
\<close>

datatype recv_at = RcTest | RcWork | RcWant | RcHold | RcEnd

text \<open>
  The send cycle: the test of the status, waiting for the stream lock in \<open>checkOutboundStream\<close>, holding
  it, waiting for the mutex in \<open>availableRelays\<close>, holding both, at work without a lock, waiting for
  the stream lock to write, writing, ended.
\<close>

datatype send_at =
  SnTest | SnWantStream | SnCheck | SnWantMutex | SnRelays | SnWork | SnWantWrite | SnWriting | SnEnd

text \<open>The peer-list cycle: between two lists, in \<open>getPeers\<close>, and writing.\<close>

datatype peers_at = PrTest | PrWant | PrHold | PrWantWrite | PrWriting | PrEnd

text \<open>\<open>onConnect\<close> for a stream of the peer, and \<open>SetInboundStream\<close> inside it.\<close>

datatype inbound_at = InIdle | InWant | InHold | InWantStream | InBoth

text \<open>\<open>Stop\<close>: with the connections it still has to terminate, and the one it waits for.\<close>

datatype stop_at = StIdle | StWant | StAt "nat list" | StAwaits nat "nat list" | StDone

record locks =
  lk_conns :: "nat list"
  lk_running :: bool
  lk_mutex :: "holder option"
  lk_stream :: "nat \<Rightarrow> holder option"
  lk_terminated :: "nat \<Rightarrow> bool"
  lk_address :: "nat \<Rightarrow> bool"
  lk_recv :: "nat \<Rightarrow> recv_at"
  lk_send :: "nat \<Rightarrow> send_at"
  lk_peers :: "nat \<Rightarrow> peers_at"
  lk_inbound :: "nat \<Rightarrow> inbound_at"
  lk_stop :: stop_at

text \<open>A service without connections; \<open>addr\<close> says which of them will know their peer's address.\<close>

definition lk_init :: "(nat \<Rightarrow> bool) \<Rightarrow> locks" where
  "lk_init addr =
     \<lparr>lk_conns = [], lk_running = True, lk_mutex = None, lk_stream = (\<lambda>_. None), lk_terminated = (\<lambda>_. False),
      lk_address = addr, lk_recv = (\<lambda>_. RcTest), lk_send = (\<lambda>_. SnTest), lk_peers = (\<lambda>_. PrTest),
      lk_inbound = (\<lambda>_. InIdle), lk_stop = StIdle\<rparr>"

section \<open>The threads\<close>

text \<open>
  The receive cycle of connection \<open>c\<close>. Its callbacks \<open>onPublicKeyRecovered\<close> and \<open>updatePeerList\<close> test
  \<open>running\<close> before they lock; the second one may create connections.
\<close>

inductive recv_moves :: "nat \<Rightarrow> locks \<Rightarrow> locks \<Rightarrow> bool" for c where
  recv_enters: "c \<in> set (lk_conns s) \<Longrightarrow> lk_recv s c = RcTest \<Longrightarrow> \<not> lk_terminated s c \<Longrightarrow>
    recv_moves c s (s\<lparr>lk_recv := (lk_recv s)(c := RcWork)\<rparr>)"
| recv_ends: "c \<in> set (lk_conns s) \<Longrightarrow> lk_recv s c = RcTest \<Longrightarrow> lk_terminated s c \<Longrightarrow>
    recv_moves c s (s\<lparr>lk_recv := (lk_recv s)(c := RcEnd)\<rparr>)"
| recv_handles: "lk_recv s c = RcWork \<Longrightarrow> recv_moves c s (s\<lparr>lk_recv := (lk_recv s)(c := RcTest)\<rparr>)"
| recv_calls: "lk_recv s c = RcWork \<Longrightarrow> lk_running s \<Longrightarrow>
    recv_moves c s (s\<lparr>lk_recv := (lk_recv s)(c := RcWant)\<rparr>)"
| recv_locks: "lk_recv s c = RcWant \<Longrightarrow> lk_mutex s = None \<Longrightarrow>
    recv_moves c s (s\<lparr>lk_recv := (lk_recv s)(c := RcHold), lk_mutex := Some (ByRecv c)\<rparr>)"
| recv_adds: "lk_recv s c = RcHold \<Longrightarrow> lk_running s \<Longrightarrow> d \<notin> set (lk_conns s) \<Longrightarrow>
    recv_moves c s (s\<lparr>lk_conns := lk_conns s @ [d]\<rparr>)"
| recv_unlocks: "lk_recv s c = RcHold \<Longrightarrow>
    recv_moves c s (s\<lparr>lk_recv := (lk_recv s)(c := RcTest), lk_mutex := None\<rparr>)"

text \<open>
  The send cycle. It looks for relays only when the peer's address is not known, and it ends at the
  test of the status or when it takes the nil message of \<open>Terminate\<close> out of its queue.
\<close>

inductive send_moves :: "nat \<Rightarrow> locks \<Rightarrow> locks \<Rightarrow> bool" for c where
  send_enters: "c \<in> set (lk_conns s) \<Longrightarrow> lk_send s c = SnTest \<Longrightarrow> \<not> lk_terminated s c \<Longrightarrow>
    send_moves c s (s\<lparr>lk_send := (lk_send s)(c := SnWantStream)\<rparr>)"
| send_ends: "c \<in> set (lk_conns s) \<Longrightarrow> lk_send s c = SnTest \<Longrightarrow> lk_terminated s c \<Longrightarrow>
    send_moves c s (s\<lparr>lk_send := (lk_send s)(c := SnEnd)\<rparr>)"
| send_locks_stream: "lk_send s c = SnWantStream \<Longrightarrow> lk_stream s c = None \<Longrightarrow>
    send_moves c s (s\<lparr>lk_send := (lk_send s)(c := SnCheck), lk_stream := (lk_stream s)(c := Some (BySend c))\<rparr>)"
| send_fails: "lk_send s c = SnCheck \<Longrightarrow>
    send_moves c s (s\<lparr>lk_send := (lk_send s)(c := SnTest), lk_stream := (lk_stream s)(c := None)\<rparr>)"
| send_connected: "lk_send s c = SnCheck \<Longrightarrow>
    send_moves c s (s\<lparr>lk_send := (lk_send s)(c := SnWork), lk_stream := (lk_stream s)(c := None)\<rparr>)"
| send_asks_relays: "lk_send s c = SnCheck \<Longrightarrow> \<not> lk_address s c \<Longrightarrow>
    send_moves c s (s\<lparr>lk_send := (lk_send s)(c := SnWantMutex)\<rparr>)"
| send_locks: "lk_send s c = SnWantMutex \<Longrightarrow> lk_mutex s = None \<Longrightarrow>
    send_moves c s (s\<lparr>lk_send := (lk_send s)(c := SnRelays), lk_mutex := Some (BySend c)\<rparr>)"
| send_unlocks: "lk_send s c = SnRelays \<Longrightarrow>
    send_moves c s (s\<lparr>lk_send := (lk_send s)(c := SnCheck), lk_mutex := None\<rparr>)"
| send_nothing_to_write: "lk_send s c = SnWork \<Longrightarrow>
    send_moves c s (s\<lparr>lk_send := (lk_send s)(c := SnTest)\<rparr>)"
| send_takes_nil: "lk_send s c = SnWork \<Longrightarrow> lk_terminated s c \<Longrightarrow>
    send_moves c s (s\<lparr>lk_send := (lk_send s)(c := SnEnd)\<rparr>)"
| send_has_frame: "lk_send s c = SnWork \<Longrightarrow> send_moves c s (s\<lparr>lk_send := (lk_send s)(c := SnWantWrite)\<rparr>)"
| send_writes: "lk_send s c = SnWantWrite \<Longrightarrow> lk_stream s c = None \<Longrightarrow>
    send_moves c s (s\<lparr>lk_send := (lk_send s)(c := SnWriting), lk_stream := (lk_stream s)(c := Some (BySend c))\<rparr>)"
| send_wrote: "lk_send s c = SnWriting \<Longrightarrow>
    send_moves c s (s\<lparr>lk_send := (lk_send s)(c := SnTest), lk_stream := (lk_stream s)(c := None)\<rparr>)"

text \<open>The peer-list cycle.\<close>

inductive peers_moves :: "nat \<Rightarrow> locks \<Rightarrow> locks \<Rightarrow> bool" for c where
  peers_calls: "c \<in> set (lk_conns s) \<Longrightarrow> lk_peers s c = PrTest \<Longrightarrow> \<not> lk_terminated s c \<Longrightarrow>
    peers_moves c s (s\<lparr>lk_peers := (lk_peers s)(c := PrWant)\<rparr>)"
| peers_ends: "c \<in> set (lk_conns s) \<Longrightarrow> lk_peers s c = PrTest \<Longrightarrow> lk_terminated s c \<Longrightarrow>
    peers_moves c s (s\<lparr>lk_peers := (lk_peers s)(c := PrEnd)\<rparr>)"
| peers_locks: "lk_peers s c = PrWant \<Longrightarrow> lk_mutex s = None \<Longrightarrow>
    peers_moves c s (s\<lparr>lk_peers := (lk_peers s)(c := PrHold), lk_mutex := Some (ByPeers c)\<rparr>)"
| peers_none: "lk_peers s c = PrHold \<Longrightarrow>
    peers_moves c s (s\<lparr>lk_peers := (lk_peers s)(c := PrTest), lk_mutex := None\<rparr>)"
| peers_some: "lk_peers s c = PrHold \<Longrightarrow>
    peers_moves c s (s\<lparr>lk_peers := (lk_peers s)(c := PrWantWrite), lk_mutex := None\<rparr>)"
| peers_writes: "lk_peers s c = PrWantWrite \<Longrightarrow> lk_stream s c = None \<Longrightarrow>
    peers_moves c s (s\<lparr>lk_peers := (lk_peers s)(c := PrWriting), lk_stream := (lk_stream s)(c := Some (ByPeers c))\<rparr>)"
| peers_wrote: "lk_peers s c = PrWriting \<Longrightarrow>
    peers_moves c s (s\<lparr>lk_peers := (lk_peers s)(c := PrTest), lk_stream := (lk_stream s)(c := None)\<rparr>)"

text \<open>
  The handler of an inbound stream of peer \<open>c\<close>, which may be new: the mutex first, then, for a known
  peer, the connection's stream lock.
\<close>

inductive inbound_moves :: "nat \<Rightarrow> locks \<Rightarrow> locks \<Rightarrow> bool" for c where
  inbound_arrives: "lk_inbound s c = InIdle \<Longrightarrow>
    inbound_moves c s (s\<lparr>lk_inbound := (lk_inbound s)(c := InWant)\<rparr>)"
| inbound_locks: "lk_inbound s c = InWant \<Longrightarrow> lk_mutex s = None \<Longrightarrow>
    inbound_moves c s (s\<lparr>lk_inbound := (lk_inbound s)(c := InHold), lk_mutex := Some (ByInbound c)\<rparr>)"
| inbound_stopped: "lk_inbound s c = InHold \<Longrightarrow> \<not> lk_running s \<or> lk_terminated s c \<Longrightarrow>
    inbound_moves c s (s\<lparr>lk_inbound := (lk_inbound s)(c := InIdle), lk_mutex := None\<rparr>)"
| inbound_new: "lk_inbound s c = InHold \<Longrightarrow> lk_running s \<Longrightarrow> c \<notin> set (lk_conns s) \<Longrightarrow>
    inbound_moves c s (s\<lparr>lk_conns := lk_conns s @ [c], lk_inbound := (lk_inbound s)(c := InIdle), lk_mutex := None\<rparr>)"
| inbound_known: "lk_inbound s c = InHold \<Longrightarrow> lk_running s \<Longrightarrow> \<not> lk_terminated s c \<Longrightarrow> c \<in> set (lk_conns s) \<Longrightarrow>
    inbound_moves c s (s\<lparr>lk_inbound := (lk_inbound s)(c := InWantStream)\<rparr>)"
| inbound_locks_stream: "lk_inbound s c = InWantStream \<Longrightarrow> lk_stream s c = None \<Longrightarrow>
    inbound_moves c s (s\<lparr>lk_inbound := (lk_inbound s)(c := InBoth), lk_stream := (lk_stream s)(c := Some (ByInbound c))\<rparr>)"
| inbound_done: "lk_inbound s c = InBoth \<Longrightarrow>
    inbound_moves c s (s\<lparr>lk_inbound := (lk_inbound s)(c := InIdle), lk_stream := (lk_stream s)(c := None),
      lk_mutex := None\<rparr>)"

text \<open>
  \<open>Stop\<close>: under the mutex it terminates the connections in the order in which the map is ranged
  over, waiting for the receive and the send cycle of each before the next.
\<close>

inductive stop_moves :: "locks \<Rightarrow> locks \<Rightarrow> bool" where
  stop_called: "lk_stop s = StIdle \<Longrightarrow> stop_moves s (s\<lparr>lk_stop := StWant\<rparr>)"
| stop_locks: "lk_stop s = StWant \<Longrightarrow> lk_mutex s = None \<Longrightarrow> distinct order \<Longrightarrow> set order = set (lk_conns s) \<Longrightarrow>
    stop_moves s (s\<lparr>lk_stop := StAt order, lk_mutex := Some ByStop, lk_running := False\<rparr>)"
| stop_terminates: "lk_stop s = StAt (c # cs) \<Longrightarrow>
    stop_moves s (s\<lparr>lk_stop := StAwaits c cs, lk_terminated := (lk_terminated s)(c := True)\<rparr>)"
| stop_goes_on: "lk_stop s = StAwaits c cs \<Longrightarrow> lk_recv s c = RcEnd \<Longrightarrow> lk_send s c = SnEnd \<Longrightarrow>
    stop_moves s (s\<lparr>lk_stop := StAt cs\<rparr>)"
| stop_returns: "lk_stop s = StAt [] \<Longrightarrow> stop_moves s (s\<lparr>lk_stop := StDone, lk_mutex := None\<rparr>)"

inductive lk_step :: "locks \<Rightarrow> locks \<Rightarrow> bool" where
  by_recv: "recv_moves c s t \<Longrightarrow> lk_step s t"
| by_send: "send_moves c s t \<Longrightarrow> lk_step s t"
| by_peers: "peers_moves c s t \<Longrightarrow> lk_step s t"
| by_inbound: "inbound_moves c s t \<Longrightarrow> lk_step s t"
| by_stop: "stop_moves s t \<Longrightarrow> lk_step s t"

definition lk_steps :: "locks \<Rightarrow> locks \<Rightarrow> bool" where
  "lk_steps = rtranclp lk_step"

definition lk_reachable :: "(nat \<Rightarrow> bool) \<Rightarrow> locks \<Rightarrow> bool" where
  "lk_reachable addr s \<longleftrightarrow> lk_steps (lk_init addr) s"

lemmas recv_rules = recv_moves.intros [THEN by_recv]
lemmas send_rules = send_moves.intros [THEN by_send]
lemmas peers_rules = peers_moves.intros [THEN by_peers]
lemmas inbound_rules = inbound_moves.intros [THEN by_inbound]
lemmas stop_rules = stop_moves.intros [THEN by_stop]

lemma lk_stepE:
  assumes "lk_step s t"
  obtains c where "recv_moves c s t" | c where "send_moves c s t" | c where "peers_moves c s t"
    | c where "inbound_moves c s t" | "stop_moves s t"
  using assms by (auto elim: lk_step.cases)

section \<open>A lock\<close>

text \<open>
  What makes a variable a lock: a step takes it when it is free, gives it back from the inside, or
  leaves it and its critical sections alone. Then exactly its owner is inside.
\<close>

definition lock_moves :: "('s \<Rightarrow> 'h option) \<Rightarrow> ('s \<Rightarrow> 'h \<Rightarrow> bool) \<Rightarrow> 'h \<Rightarrow> 's \<Rightarrow> 's \<Rightarrow> bool" where
  "lock_moves owner inside w s t \<longleftrightarrow>
     owner t = owner s \<and> (\<forall>v. inside t v = inside s v) \<or>
     owner s = None \<and> owner t = Some w \<and> (\<forall>v. inside t v \<longleftrightarrow> inside s v \<or> v = w) \<or>
     inside s w \<and> owner t = None \<and> (\<forall>v. inside t v \<longleftrightarrow> inside s v \<and> v \<noteq> w)"

definition held_by_owner :: "('s \<Rightarrow> 'h option) \<Rightarrow> ('s \<Rightarrow> 'h \<Rightarrow> bool) \<Rightarrow> 's \<Rightarrow> bool" where
  "held_by_owner owner inside s \<longleftrightarrow> (\<forall>w. inside s w \<longleftrightarrow> owner s = Some w)"

locale lock =
  fixes step :: "'s \<Rightarrow> 's \<Rightarrow> bool" and owner :: "'s \<Rightarrow> 'h option" and inside :: "'s \<Rightarrow> 'h \<Rightarrow> bool"
  assumes moves: "step s t \<Longrightarrow> \<exists>w. lock_moves owner inside w s t"
begin

lemma held_step: "held_by_owner owner inside s \<Longrightarrow> step s t \<Longrightarrow> held_by_owner owner inside t"
  using moves [of s t] by (auto simp: held_by_owner_def lock_moves_def)

lemma held: "rtranclp step s t \<Longrightarrow> held_by_owner owner inside s \<Longrightarrow> held_by_owner owner inside t"
  by (induction rule: rtranclp_induct) (auto intro: held_step)

end

section \<open>Who holds the locks\<close>

fun in_mutex :: "locks \<Rightarrow> holder \<Rightarrow> bool" where
  "in_mutex s ByStop \<longleftrightarrow> (case lk_stop s of StAt _ \<Rightarrow> True | StAwaits _ _ \<Rightarrow> True | _ \<Rightarrow> False)"
| "in_mutex s (ByRecv c) \<longleftrightarrow> lk_recv s c = RcHold"
| "in_mutex s (BySend c) \<longleftrightarrow> lk_send s c = SnRelays"
| "in_mutex s (ByPeers c) \<longleftrightarrow> lk_peers s c = PrHold"
| "in_mutex s (ByInbound c) \<longleftrightarrow> lk_inbound s c \<in> {InHold, InWantStream, InBoth}"

fun in_stream :: "nat \<Rightarrow> locks \<Rightarrow> holder \<Rightarrow> bool" where
  "in_stream c s (BySend d) \<longleftrightarrow> d = c \<and> lk_send s c \<in> {SnCheck, SnWantMutex, SnRelays, SnWriting}"
| "in_stream c s (ByPeers d) \<longleftrightarrow> d = c \<and> lk_peers s c = PrWriting"
| "in_stream c s (ByInbound d) \<longleftrightarrow> d = c \<and> lk_inbound s c = InBoth"
| "in_stream c s _ \<longleftrightarrow> False"

lemma all_holders:
  "(\<forall>w. P w) \<longleftrightarrow> P ByStop \<and> (\<forall>c. P (ByRecv c)) \<and> (\<forall>c. P (BySend c)) \<and> (\<forall>c. P (ByPeers c)) \<and> (\<forall>c. P (ByInbound c))"
  by (metis holder.exhaust)

lemmas lock_simps = lock_moves_def all_holders

lemma mutex_moves: "lk_step s t \<Longrightarrow> \<exists>w. lock_moves lk_mutex in_mutex w s t"
proof (erule lk_stepE)
  fix c assume "recv_moves c s t"
  then have "lock_moves lk_mutex in_mutex (ByRecv c) s t" by cases (simp_all add: lock_simps)
  then show ?thesis ..
next
  fix c assume "send_moves c s t"
  then have "lock_moves lk_mutex in_mutex (BySend c) s t" by cases (simp_all add: lock_simps)
  then show ?thesis ..
next
  fix c assume "peers_moves c s t"
  then have "lock_moves lk_mutex in_mutex (ByPeers c) s t" by cases (simp_all add: lock_simps)
  then show ?thesis ..
next
  fix c assume "inbound_moves c s t"
  then have "lock_moves lk_mutex in_mutex (ByInbound c) s t" by cases (auto simp: lock_simps)
  then show ?thesis ..
next
  assume "stop_moves s t"
  then have "lock_moves lk_mutex in_mutex ByStop s t" by cases (simp_all add: lock_simps)
  then show ?thesis ..
qed

lemma stream_moves: "lk_step s t \<Longrightarrow> \<exists>w. lock_moves (\<lambda>s. lk_stream s c) (in_stream c) w s t"
proof (erule lk_stepE)
  fix d assume "recv_moves d s t"
  then have "lock_moves (\<lambda>s. lk_stream s c) (in_stream c) (ByRecv c) s t" by cases (simp_all add: lock_simps)
  then show ?thesis ..
next
  fix d assume "send_moves d s t"
  then have "lock_moves (\<lambda>s. lk_stream s c) (in_stream c) (BySend c) s t" by cases (auto simp: lock_simps)
  then show ?thesis ..
next
  fix d assume "peers_moves d s t"
  then have "lock_moves (\<lambda>s. lk_stream s c) (in_stream c) (ByPeers c) s t" by cases (auto simp: lock_simps)
  then show ?thesis ..
next
  fix d assume "inbound_moves d s t"
  then have "lock_moves (\<lambda>s. lk_stream s c) (in_stream c) (ByInbound c) s t" by cases (auto simp: lock_simps)
  then show ?thesis ..
next
  assume "stop_moves s t"
  then have "lock_moves (\<lambda>s. lk_stream s c) (in_stream c) ByStop s t" by cases (simp_all add: lock_simps)
  then show ?thesis ..
qed

interpretation mutex: lock lk_step lk_mutex in_mutex
  by unfold_locales (rule mutex_moves)

interpretation stream: lock lk_step "\<lambda>s. lk_stream s c" "in_stream c" for c
  by unfold_locales (rule stream_moves)

section \<open>How far each thread can be\<close>

text \<open>What is left of the map for \<open>Stop\<close>.\<close>

fun remaining :: "stop_at \<Rightarrow> nat list" where
  "remaining (StAt cs) = cs"
| "remaining (StAwaits c cs) = c # cs"
| "remaining _ = []"

text \<open>
  Cycles only run on connections that exist, a cycle asks for relays only without an address, and
  what \<open>Stop\<close> has behind it is terminated with its two cycles ended.
\<close>

definition started :: "locks \<Rightarrow> bool" where
  "started s \<longleftrightarrow>
     (\<forall>c. c \<notin> set (lk_conns s) \<longrightarrow> lk_recv s c = RcTest \<and> lk_send s c = SnTest \<and> lk_peers s c = PrTest) \<and>
     (\<forall>c. lk_send s c = SnWantMutex \<or> lk_send s c = SnRelays \<longrightarrow> \<not> lk_address s c)"

definition stopping :: "locks \<Rightarrow> bool" where
  "stopping s \<longleftrightarrow>
     (lk_running s \<longleftrightarrow> lk_stop s = StIdle \<or> lk_stop s = StWant) \<and>
     (\<forall>c. lk_terminated s c \<longrightarrow> \<not> lk_running s) \<and>
     (\<forall>c cs. lk_stop s = StAwaits c cs \<longrightarrow> lk_terminated s c) \<and>
     set (remaining (lk_stop s)) \<subseteq> set (lk_conns s) \<and>
     (\<not> lk_running s \<longrightarrow>
        (\<forall>c \<in> set (lk_conns s) - set (remaining (lk_stop s)). lk_recv s c = RcEnd \<and> lk_send s c = SnEnd))"

lemma started_step: "started s \<Longrightarrow> lk_step s t \<Longrightarrow> started t"
proof (erule lk_stepE)
  fix c assume "recv_moves c s t" "started s" then show "started t" by (cases rule: recv_moves.cases) (auto simp: started_def)
next
  fix c assume "send_moves c s t" "started s" then show "started t" by (cases rule: send_moves.cases) (auto simp: started_def)
next
  fix c assume "peers_moves c s t" "started s" then show "started t" by (cases rule: peers_moves.cases) (auto simp: started_def)
next
  fix c assume "inbound_moves c s t" "started s" then show "started t" by (cases rule: inbound_moves.cases) (auto simp: started_def)
next
  assume "stop_moves s t" "started s" then show "started t" by (cases rule: stop_moves.cases) (auto simp: started_def)
qed

lemma stopping_step: "stopping s \<Longrightarrow> lk_step s t \<Longrightarrow> stopping t"
proof (erule lk_stepE)
  fix c assume "recv_moves c s t" "stopping s" then show "stopping t"
    by (cases rule: recv_moves.cases) (auto simp: stopping_def)
next
  fix c assume "send_moves c s t" "stopping s" then show "stopping t"
    by (cases rule: send_moves.cases) (auto simp: stopping_def)
next
  fix c assume "peers_moves c s t" "stopping s" then show "stopping t"
    by (cases rule: peers_moves.cases) (auto simp: stopping_def)
next
  fix c assume "inbound_moves c s t" "stopping s" then show "stopping t"
    by (cases rule: inbound_moves.cases) (auto simp: stopping_def)
next
  assume "stop_moves s t" "stopping s" then show "stopping t"
    by (cases rule: stop_moves.cases) (auto simp: stopping_def)
qed

definition locks_ok :: "locks \<Rightarrow> bool" where
  "locks_ok s \<longleftrightarrow> held_by_owner lk_mutex in_mutex s \<and>
     (\<forall>c. held_by_owner (\<lambda>s. lk_stream s c) (in_stream c) s) \<and> started s \<and> stopping s"

lemma locks_ok_init: "locks_ok (lk_init addr)"
  by (simp add: locks_ok_def held_by_owner_def all_holders started_def stopping_def lk_init_def)

lemma locks_ok_step: "locks_ok s \<Longrightarrow> lk_step s t \<Longrightarrow> locks_ok t"
  by (auto simp: locks_ok_def intro: mutex.held_step stream.held_step started_step stopping_step)

lemma locks_ok_steps: "lk_steps s t \<Longrightarrow> locks_ok s \<Longrightarrow> locks_ok t"
  unfolding lk_steps_def by (induction rule: rtranclp_induct) (auto intro: locks_ok_step)

lemma reachable_ok: "lk_reachable addr s \<Longrightarrow> locks_ok s"
  unfolding lk_reachable_def using locks_ok_steps locks_ok_init by blast

lemma mutex_owner:
  assumes "locks_ok s"
  shows "lk_recv s c = RcHold \<longleftrightarrow> lk_mutex s = Some (ByRecv c)"
    "lk_send s c = SnRelays \<longleftrightarrow> lk_mutex s = Some (BySend c)"
    "lk_peers s c = PrHold \<longleftrightarrow> lk_mutex s = Some (ByPeers c)"
    "lk_inbound s c = InHold \<or> lk_inbound s c = InWantStream \<or> lk_inbound s c = InBoth \<longleftrightarrow>
      lk_mutex s = Some (ByInbound c)"
    "(case lk_stop s of StAt _ \<Rightarrow> True | StAwaits _ _ \<Rightarrow> True | _ \<Rightarrow> False) \<longleftrightarrow> lk_mutex s = Some ByStop"
  using assms by (simp_all add: locks_ok_def held_by_owner_def all_holders)

lemma stream_owner:
  assumes "locks_ok s"
  shows "lk_send s c = SnCheck \<or> lk_send s c = SnWantMutex \<or> lk_send s c = SnRelays \<or> lk_send s c = SnWriting \<longleftrightarrow>
      lk_stream s c = Some (BySend c)"
    "lk_peers s c = PrWriting \<longleftrightarrow> lk_stream s c = Some (ByPeers c)"
    "lk_inbound s c = InBoth \<longleftrightarrow> lk_stream s c = Some (ByInbound c)"
    "lk_stream s c \<in> {None, Some (BySend c), Some (ByPeers c), Some (ByInbound c)}"
proof -
  have h: "in_stream c s w \<longleftrightarrow> lk_stream s c = Some w" for w
    using assms by (auto simp: locks_ok_def held_by_owner_def)
  from h [of "BySend c"] h [of "ByPeers c"] h [of "ByInbound c"] show
    "lk_send s c = SnCheck \<or> lk_send s c = SnWantMutex \<or> lk_send s c = SnRelays \<or> lk_send s c = SnWriting \<longleftrightarrow>
      lk_stream s c = Some (BySend c)"
    "lk_peers s c = PrWriting \<longleftrightarrow> lk_stream s c = Some (ByPeers c)"
    "lk_inbound s c = InBoth \<longleftrightarrow> lk_stream s c = Some (ByInbound c)"
    by simp_all
  show "lk_stream s c \<in> {None, Some (BySend c), Some (ByPeers c), Some (ByInbound c)}"
  proof (cases "lk_stream s c")
    case (Some w)
    with h [of w] show ?thesis by (cases w) auto
  qed simp
qed

section \<open>The two ways to lose the mutex\<close>

text \<open>
  \<open>Stop\<close> has the mutex and a cycle it still has to wait for wants it; or the handler of an inbound
  stream has the mutex and will need the stream lock, which a send cycle that wants the mutex has.
\<close>

definition stop_waits_for_waiter :: "locks \<Rightarrow> bool" where
  "stop_waits_for_waiter s \<longleftrightarrow>
     (\<exists>c \<in> set (remaining (lk_stop s)). lk_recv s c = RcWant \<or> lk_send s c = SnWantMutex)"

definition locks_inverted :: "locks \<Rightarrow> bool" where
  "locks_inverted s \<longleftrightarrow>
     (\<exists>c. lk_send s c = SnWantMutex \<and> (lk_inbound s c = InWantStream \<or> lk_inbound s c = InHold \<and> lk_running s))"

definition wedged :: "locks \<Rightarrow> bool" where
  "wedged s \<longleftrightarrow> stop_waits_for_waiter s \<or> locks_inverted s"

lemma remaining_mutex: "locks_ok s \<Longrightarrow> c \<in> set (remaining (lk_stop s)) \<Longrightarrow> lk_mutex s = Some ByStop"
  using mutex_owner(5) [of s] by (cases "lk_stop s") auto

lemma wedged_mutex: "locks_ok s \<Longrightarrow> wedged s \<Longrightarrow> lk_mutex s \<noteq> None"
  using mutex_owner(4) [of s] remaining_mutex [of s]
  by (fastforce simp: wedged_def stop_waits_for_waiter_def locks_inverted_def)

lemma stop_waits_step:
  assumes "locks_ok s" and "stop_waits_for_waiter s" and "lk_step s t"
  shows "stop_waits_for_waiter t"
proof -
  from assms(2) obtain c where c: "c \<in> set (remaining (lk_stop s))" "lk_recv s c = RcWant \<or> lk_send s c = SnWantMutex"
    by (auto simp: stop_waits_for_waiter_def)
  note m = remaining_mutex [OF assms(1) c(1)]
  have "c \<in> set (remaining (lk_stop t)) \<and> (lk_recv t c = RcWant \<or> lk_send t c = SnWantMutex)"
    using assms(3)
  proof (cases rule: lk_stepE)
    fix d assume "recv_moves d s t" then show ?thesis using c m by (cases rule: recv_moves.cases) auto
  next
    fix d assume "send_moves d s t" then show ?thesis using c m by (cases rule: send_moves.cases) auto
  next
    fix d assume "peers_moves d s t" then show ?thesis using c by (cases rule: peers_moves.cases) auto
  next
    fix d assume "inbound_moves d s t" then show ?thesis using c by (cases rule: inbound_moves.cases) auto
  next
    assume "stop_moves s t" then show ?thesis using c by (cases rule: stop_moves.cases) auto
  qed
  then show ?thesis by (auto simp: stop_waits_for_waiter_def)
qed

lemma inverted_step:
  assumes "locks_ok s" and "locks_inverted s" and "lk_step s t"
  shows "locks_inverted t"
proof -
  from assms(2) obtain c where c: "lk_send s c = SnWantMutex"
    "lk_inbound s c = InWantStream \<or> lk_inbound s c = InHold \<and> lk_running s"
    by (auto simp: locks_inverted_def)
  have m: "lk_mutex s = Some (ByInbound c)" "lk_stream s c = Some (BySend c)"
    using c mutex_owner(4) [OF assms(1), of c] stream_owner(1) [OF assms(1), of c] by auto
  have old: "c \<in> set (lk_conns s)" using assms(1) c(1) by (force simp: locks_ok_def started_def)
  have live: "lk_running s \<Longrightarrow> \<not> lk_terminated s c" using assms(1) by (auto simp: locks_ok_def stopping_def)
  have "lk_send t c = SnWantMutex \<and> (lk_inbound t c = InWantStream \<or> lk_inbound t c = InHold \<and> lk_running t)"
    using assms(3)
  proof (cases rule: lk_stepE)
    fix d assume "recv_moves d s t" then show ?thesis using c m by (cases rule: recv_moves.cases) auto
  next
    fix d assume "send_moves d s t" then show ?thesis using c m by (cases rule: send_moves.cases) auto
  next
    fix d assume "peers_moves d s t" then show ?thesis using c m by (cases rule: peers_moves.cases) auto
  next
    fix d assume "inbound_moves d s t" then show ?thesis using c m old live
      by (cases rule: inbound_moves.cases) (auto split: if_splits)
  next
    assume "stop_moves s t" then show ?thesis using c m by (cases rule: stop_moves.cases) auto
  qed
  then show ?thesis by (auto simp: locks_inverted_def)
qed

lemma wedged_step: "locks_ok s \<Longrightarrow> wedged s \<Longrightarrow> lk_step s t \<Longrightarrow> wedged t"
  unfolding wedged_def using stop_waits_step inverted_step by blast

lemma wedged_steps: "lk_steps s t \<Longrightarrow> locks_ok s \<Longrightarrow> wedged s \<Longrightarrow> locks_ok t \<and> wedged t"
  unfolding lk_steps_def by (induction rule: rtranclp_induct) (auto intro: locks_ok_step wedged_step)

section \<open>Every other state can free the mutex\<close>

lemma steps_refl [simp]: "lk_steps s s"
  by (simp add: lk_steps_def)

lemma steps_then: "lk_step s t \<Longrightarrow> lk_steps t u \<Longrightarrow> lk_steps s u"
  unfolding lk_steps_def by (rule converse_rtranclp_into_rtranclp)

lemma steps_trans: "lk_steps s t \<Longrightarrow> lk_steps t u \<Longrightarrow> lk_steps s u"
  unfolding lk_steps_def by (rule rtranclp_trans)

text \<open>The cycles of \<open>c\<close> move while everything else stands still.\<close>

definition only_cycles :: "nat \<Rightarrow> locks \<Rightarrow> locks \<Rightarrow> bool" where
  "only_cycles c s t \<longleftrightarrow> lk_steps s t \<and>
     lk_conns t = lk_conns s \<and> lk_running t = lk_running s \<and> lk_mutex t = lk_mutex s \<and>
     lk_terminated t = lk_terminated s \<and> lk_inbound t = lk_inbound s \<and> lk_stop t = lk_stop s \<and>
     (\<forall>d. d \<noteq> c \<longrightarrow> lk_recv t d = lk_recv s d \<and> lk_send t d = lk_send s d)"

lemma only_cycles_refl [simp]: "only_cycles c s s"
  by (simp add: only_cycles_def)

lemma only_cycles_then: "lk_step s t \<Longrightarrow> only_cycles c t u \<Longrightarrow> only_cycles c s t \<Longrightarrow> only_cycles c s u"
  by (auto simp: only_cycles_def intro: steps_then)

lemma only_cycles_trans: "only_cycles c s t \<Longrightarrow> only_cycles c t u \<Longrightarrow> only_cycles c s u"
  by (auto simp: only_cycles_def intro: steps_trans)

lemma only_cycles_step:
  assumes "lk_step s t" and "lk_conns t = lk_conns s" and "lk_running t = lk_running s" and "lk_mutex t = lk_mutex s"
    and "lk_terminated t = lk_terminated s" and "lk_inbound t = lk_inbound s" and "lk_stop t = lk_stop s"
    and "\<And>d. d \<noteq> c \<Longrightarrow> lk_recv t d = lk_recv s d \<and> lk_send t d = lk_send s d"
  shows "only_cycles c s t"
  using assms steps_then [OF assms(1) steps_refl] by (simp add: only_cycles_def)

text \<open>A stream lock that the writer of a peer list or the send cycle has is given back.\<close>

lemma free_stream:
  assumes "locks_ok s" and "lk_send s c \<noteq> SnWantMutex" and "lk_send s c \<noteq> SnRelays" and "lk_inbound s c \<noteq> InBoth"
  shows "\<exists>t. only_cycles c s t \<and> lk_stream t c = None \<and> lk_recv t c = lk_recv s c \<and>
    (lk_send t c = lk_send s c \<or> lk_send t c = SnTest)"
proof -
  note own = stream_owner [OF assms(1), of c]
  consider "lk_stream s c = None" | "lk_peers s c = PrWriting" | "lk_send s c = SnCheck" | "lk_send s c = SnWriting"
    using own assms(2-4) by auto
  then show ?thesis
  proof cases
    case 2
    let ?t = "s\<lparr>lk_peers := (lk_peers s)(c := PrTest), lk_stream := (lk_stream s)(c := None)\<rparr>"
    have "only_cycles c s ?t" by (rule only_cycles_step) (use 2 in \<open>auto intro: peers_rules\<close>)
    then show ?thesis by (intro exI [of _ ?t]) simp
  next
    case 3
    let ?t = "s\<lparr>lk_send := (lk_send s)(c := SnTest), lk_stream := (lk_stream s)(c := None)\<rparr>"
    have "only_cycles c s ?t" by (rule only_cycles_step) (use 3 in \<open>auto intro: send_rules\<close>)
    then show ?thesis by (intro exI [of _ ?t]) simp
  next
    case 4
    let ?t = "s\<lparr>lk_send := (lk_send s)(c := SnTest), lk_stream := (lk_stream s)(c := None)\<rparr>"
    have "only_cycles c s ?t" by (rule only_cycles_step) (use 4 in \<open>auto intro: send_rules\<close>)
    then show ?thesis by (intro exI [of _ ?t]) simp
  qed (auto intro: exI [of _ s])
qed

text \<open>With the stream lock free, the send cycle of a terminated connection reaches its end.\<close>

lemma end_send_free:
  assumes "c \<in> set (lk_conns s)" and "lk_terminated s c" and "lk_stream s c = None"
    and "lk_send s c \<in> {SnTest, SnWork, SnWantStream, SnWantWrite, SnEnd}"
  shows "\<exists>t. only_cycles c s t \<and> lk_send t c = SnEnd \<and> lk_recv t c = lk_recv s c"
proof -
  have test: "\<exists>t. only_cycles c u t \<and> lk_send t c = SnEnd \<and> lk_recv t c = lk_recv u c"
    if "c \<in> set (lk_conns u)" "lk_terminated u c" "lk_send u c = SnTest" for u
  proof -
    let ?t = "u\<lparr>lk_send := (lk_send u)(c := SnEnd)\<rparr>"
    have "only_cycles c u ?t" by (rule only_cycles_step) (use that in \<open>auto intro: send_rules\<close>)
    then show ?thesis by (intro exI [of _ ?t]) simp
  qed
  have lock: "\<exists>t. only_cycles c s t \<and> lk_send t c = SnTest \<and> lk_recv t c = lk_recv s c"
    if "lk_send s c = SnWantStream \<or> lk_send s c = SnWantWrite"
  proof -
    let ?n = "if lk_send s c = SnWantStream then SnCheck else SnWriting"
    let ?u = "s\<lparr>lk_send := (lk_send s)(c := ?n), lk_stream := (lk_stream s)(c := Some (BySend c))\<rparr>"
    let ?t = "?u\<lparr>lk_send := (lk_send ?u)(c := SnTest), lk_stream := (lk_stream ?u)(c := None)\<rparr>"
    have "lk_step s ?u"
      using that assms(3) send_rules(3) [of s c] send_rules(12) [of s c] by auto
    then have 1: "only_cycles c s ?u" by (rule only_cycles_step) auto
    have "lk_step ?u ?t" using send_rules(4) [of ?u c] send_rules(13) [of ?u c] by auto
    then have "only_cycles c ?u ?t" by (rule only_cycles_step) auto
    with 1 show ?thesis by (intro exI [of _ ?t]) (auto intro: only_cycles_trans)
  qed
  show ?thesis
  proof (cases "lk_send s c = SnWork")
    case True
    let ?t = "s\<lparr>lk_send := (lk_send s)(c := SnEnd)\<rparr>"
    have "only_cycles c s ?t" by (rule only_cycles_step) (use True assms(2) in \<open>auto intro: send_rules\<close>)
    then show ?thesis by (intro exI [of _ ?t]) simp
  next
    case False
    with assms(4) consider "lk_send s c = SnTest" | "lk_send s c = SnEnd"
      | "lk_send s c = SnWantStream \<or> lk_send s c = SnWantWrite" by auto
    then show ?thesis
    proof cases
      case 3
      from lock [OF 3] obtain u where u: "only_cycles c s u" "lk_send u c = SnTest" "lk_recv u c = lk_recv s c" by blast
      then have "c \<in> set (lk_conns u)" "lk_terminated u c" using assms(1,2) by (auto simp: only_cycles_def)
      from test [OF this u(2)] u show ?thesis by (metis only_cycles_trans)
    qed (use test [OF assms(1,2)] in \<open>auto intro: exI [of _ s]\<close>)
  qed
qed

lemma end_recv:
  assumes "c \<in> set (lk_conns s)" and "lk_terminated s c" and "lk_recv s c \<in> {RcTest, RcWork, RcEnd}"
  shows "\<exists>t. only_cycles c s t \<and> lk_recv t c = RcEnd \<and> lk_send t c = lk_send s c"
proof -
  let ?u = "s\<lparr>lk_recv := (lk_recv s)(c := RcTest)\<rparr>"
  let ?t = "?u\<lparr>lk_recv := (lk_recv ?u)(c := RcEnd)\<rparr>"
  have "lk_step ?u ?t" using recv_rules(2) [of c ?u] assms(1,2) by simp
  then have fin: "only_cycles c ?u ?t" by (rule only_cycles_step) auto
  from assms(3) consider "lk_recv s c = RcTest" | "lk_recv s c = RcWork" | "lk_recv s c = RcEnd" by auto
  then show ?thesis
  proof cases
    case 1
    then have "?u = s" by (simp add: fun_upd_idem)
    with fin show ?thesis by (intro exI [of _ ?t]) simp
  next
    case 2
    then have "only_cycles c s ?u" by (intro only_cycles_step) (auto intro: recv_rules)
    with fin have "only_cycles c s ?t" by (blast intro: only_cycles_trans)
    then show ?thesis by (intro exI [of _ ?t]) simp
  next
    case 3
    then show ?thesis by (intro exI [of _ s]) simp
  qed
qed

text \<open>\<open>Stop\<close> gets past the connection it waits for, and to its end.\<close>

lemma await_cycles:
  assumes "locks_ok s" and "lk_stop s = StAwaits c cs" and "lk_recv s c \<noteq> RcWant" and "lk_send s c \<noteq> SnWantMutex"
  shows "\<exists>t. lk_steps s t \<and> lk_stop t = StAt cs \<and>
    (\<forall>d. lk_recv t d = RcEnd \<and> lk_send t d = SnEnd \<or> lk_recv t d = lk_recv s d \<and> lk_send t d = lk_send s d)"
proof -
  have m: "lk_mutex s = Some ByStop" using mutex_owner(5) [OF assms(1)] assms(2) by simp
  have c: "c \<in> set (lk_conns s)" "lk_terminated s c"
    using assms(1,2) by (auto simp: locks_ok_def stopping_def)
  have out: "lk_send s c \<noteq> SnRelays" "lk_inbound s c \<noteq> InBoth" "lk_recv s c \<noteq> RcHold"
    using mutex_owner(1,2,4) [OF assms(1), of c] m by auto
  from free_stream [OF assms(1,4) out(1,2)] obtain u where
    u: "only_cycles c s u" "lk_stream u c = None" "lk_recv u c = lk_recv s c"
    "lk_send u c = lk_send s c \<or> lk_send u c = SnTest" by blast
  have oku: "locks_ok u" using u(1) assms(1) locks_ok_steps by (auto simp: only_cycles_def)
  have cu: "c \<in> set (lk_conns u)" "lk_terminated u c" using u(1) c by (simp_all add: only_cycles_def)
  have "lk_send u c \<in> {SnTest, SnWork, SnWantStream, SnWantWrite, SnEnd}"
    using stream_owner(1) [OF oku, of c] u(2) by (cases "lk_send u c") auto
  from end_send_free [OF cu u(2) this] obtain v where
    v: "only_cycles c u v" "lk_send v c = SnEnd" "lk_recv v c = lk_recv u c" by blast
  have cv: "c \<in> set (lk_conns v)" "lk_terminated v c" using v(1) cu by (simp_all add: only_cycles_def)
  have "lk_recv v c \<in> {RcTest, RcWork, RcEnd}"
    using v(3) u(3) out(3) assms(3) by (cases "lk_recv s c") auto
  from end_recv [OF cv this] obtain w where
    w: "only_cycles c v w" "lk_recv w c = RcEnd" "lk_send w c = lk_send v c" by blast
  from u(1) v(1) w(1) have sw: "only_cycles c s w" by (blast intro: only_cycles_trans)
  then have "lk_stop w = StAwaits c cs" using assms(2) by (simp add: only_cycles_def)
  then have "lk_step w (w\<lparr>lk_stop := StAt cs\<rparr>)" using stop_rules(4) w(2,3) v(2) by simp
  with sw have "lk_steps s (w\<lparr>lk_stop := StAt cs\<rparr>)"
    by (auto simp: only_cycles_def intro: steps_trans steps_then [OF _ steps_refl])
  with sw w(2,3) v(2) show ?thesis
    by (intro exI [of _ "w\<lparr>lk_stop := StAt cs\<rparr>"]) (auto simp: only_cycles_def)
qed

definition no_waiter :: "nat list \<Rightarrow> locks \<Rightarrow> bool" where
  "no_waiter cs s \<longleftrightarrow> (\<forall>c \<in> set cs. lk_recv s c \<noteq> RcWant \<and> lk_send s c \<noteq> SnWantMutex)"

lemma finish_stop:
  assumes "locks_ok s" and "lk_stop s = StAt cs" and "no_waiter cs s"
  shows "\<exists>t. lk_steps s t \<and> lk_stop t = StDone \<and> lk_mutex t = None"
  using assms
proof (induction cs arbitrary: s)
  case Nil
  from steps_then [OF stop_rules(5) [OF Nil.prems(2)] steps_refl] show ?case
    by (intro exI [of _ "s\<lparr>lk_stop := StDone, lk_mutex := None\<rparr>"]) simp
next
  case (Cons c cs)
  let ?s1 = "s\<lparr>lk_stop := StAwaits c cs, lk_terminated := (lk_terminated s)(c := True)\<rparr>"
  have 1: "lk_step s ?s1" using stop_rules(3) [OF Cons.prems(2)] .
  with Cons.prems(1) have ok1: "locks_ok ?s1" by (rule locks_ok_step)
  have "lk_recv ?s1 c \<noteq> RcWant" "lk_send ?s1 c \<noteq> SnWantMutex" using Cons.prems(3) by (simp_all add: no_waiter_def)
  from await_cycles [OF ok1 _ this, of cs] obtain u where u: "lk_steps ?s1 u" "lk_stop u = StAt cs"
    "\<forall>d. lk_recv u d = RcEnd \<and> lk_send u d = SnEnd \<or> lk_recv u d = lk_recv s d \<and> lk_send u d = lk_send s d"
    by auto
  have "no_waiter cs u"
    unfolding no_waiter_def
  proof
    fix d assume "d \<in> set cs"
    then have "lk_recv s d \<noteq> RcWant \<and> lk_send s d \<noteq> SnWantMutex" using Cons.prems(3) by (simp add: no_waiter_def)
    with u(3) show "lk_recv u d \<noteq> RcWant \<and> lk_send u d \<noteq> SnWantMutex"
      by (metis recv_at.distinct send_at.distinct)
  qed
  from Cons.IH [OF locks_ok_steps [OF u(1) ok1] u(2) this] obtain t where
    "lk_steps u t" "lk_stop t = StDone" "lk_mutex t = None" by blast
  with steps_then [OF 1 u(1)] show ?case by (blast intro: steps_trans)
qed

lemma stop_frees_mutex:
  assumes "locks_ok s" and "lk_mutex s = Some ByStop" and "\<not> stop_waits_for_waiter s"
  shows "\<exists>t. lk_steps s t \<and> lk_stop t = StDone \<and> lk_mutex t = None"
proof (cases "lk_stop s")
  case (StAt cs)
  with assms(3) have "no_waiter cs s" by (auto simp: stop_waits_for_waiter_def no_waiter_def)
  from finish_stop [OF assms(1) StAt this] show ?thesis .
next
  case (StAwaits c cs)
  with assms(3) have c: "lk_recv s c \<noteq> RcWant" "lk_send s c \<noteq> SnWantMutex" and cs: "no_waiter cs s"
    by (auto simp: stop_waits_for_waiter_def no_waiter_def)
  from await_cycles [OF assms(1) StAwaits c] obtain u where u: "lk_steps s u" "lk_stop u = StAt cs"
    "\<forall>d. lk_recv u d = RcEnd \<and> lk_send u d = SnEnd \<or> lk_recv u d = lk_recv s d \<and> lk_send u d = lk_send s d"
    by blast
  have "no_waiter cs u"
    unfolding no_waiter_def
  proof
    fix d assume "d \<in> set cs"
    with cs have "lk_recv s d \<noteq> RcWant \<and> lk_send s d \<noteq> SnWantMutex" by (simp add: no_waiter_def)
    with u(3) show "lk_recv u d \<noteq> RcWant \<and> lk_send u d \<noteq> SnWantMutex"
      by (metis recv_at.distinct send_at.distinct)
  qed
  from finish_stop [OF locks_ok_steps [OF u(1) assms(1)] u(2) this] u(1) show ?thesis
    by (blast intro: steps_trans)
qed (use assms mutex_owner(5) [OF assms(1)] in auto)

lemma inbound_frees_mutex:
  assumes "locks_ok s" and "lk_mutex s = Some (ByInbound c)" and "\<not> locks_inverted s"
  shows "\<exists>t. lk_steps s t \<and> lk_mutex t = None"
proof -
  have both: "\<exists>t. lk_steps u t \<and> lk_mutex t = None" if "lk_inbound u c = InBoth" for u
    using steps_then [OF inbound_rules(7) [OF that] steps_refl]
    by (intro exI [of _ "u\<lparr>lk_inbound := (lk_inbound u)(c := InIdle), lk_stream := (lk_stream u)(c := None),
      lk_mutex := None\<rparr>"]) simp
  have want: "\<exists>t. lk_steps u t \<and> lk_mutex t = None"
    if "locks_ok u" "lk_inbound u c = InWantStream" "lk_send u c \<noteq> SnWantMutex" for u
  proof -
    have "lk_mutex u = Some (ByInbound c)" using mutex_owner(4) [OF that(1), of c] that(2) by simp
    then have "lk_send u c \<noteq> SnRelays" using mutex_owner(2) [OF that(1), of c] by auto
    from free_stream [OF that(1,3) this] that(2) obtain v where v: "only_cycles c u v" "lk_stream v c = None" by auto
    let ?w = "v\<lparr>lk_inbound := (lk_inbound v)(c := InBoth), lk_stream := (lk_stream v)(c := Some (ByInbound c))\<rparr>"
    have "lk_inbound v c = InWantStream" using v(1) that(2) by (simp add: only_cycles_def)
    then have "lk_step v ?w" using inbound_rules(6) v(2) by blast
    moreover have "lk_steps u v" using v(1) by (simp add: only_cycles_def)
    ultimately have uw: "lk_steps u ?w" by (blast intro: steps_trans steps_then steps_refl)
    have "lk_inbound ?w c = InBoth" by simp
    from both [OF this] uw show ?thesis by (blast intro: steps_trans)
  qed
  from assms(2) mutex_owner(4) [OF assms(1), of c] consider
    "lk_inbound s c = InHold" | "lk_inbound s c = InWantStream" | "lk_inbound s c = InBoth" by auto
  then show ?thesis
  proof cases
    case 1
    consider "\<not> lk_running s \<or> lk_terminated s c" | "lk_running s" "c \<notin> set (lk_conns s)"
      | "lk_running s" "\<not> lk_terminated s c" "c \<in> set (lk_conns s)" by blast
    then show ?thesis
    proof cases
      case a: 1
      from steps_then [OF inbound_rules(3) [OF 1 a] steps_refl] show ?thesis
        by (intro exI [of _ "s\<lparr>lk_inbound := (lk_inbound s)(c := InIdle), lk_mutex := None\<rparr>"]) simp
    next
      case a: 2
      from steps_then [OF inbound_rules(4) [OF 1 a] steps_refl] show ?thesis
        by (intro exI [of _ "s\<lparr>lk_conns := lk_conns s @ [c], lk_inbound := (lk_inbound s)(c := InIdle),
          lk_mutex := None\<rparr>"]) simp
    next
      case a: 3
      let ?u = "s\<lparr>lk_inbound := (lk_inbound s)(c := InWantStream)\<rparr>"
      have step: "lk_step s ?u" using inbound_rules(5) [OF 1 a] .
      moreover have "lk_send ?u c \<noteq> SnWantMutex" using assms(3) 1 a(1) by (auto simp: locks_inverted_def)
      ultimately show ?thesis using want [of ?u] locks_ok_step [OF assms(1)] by (auto intro: steps_then)
    qed
  next
    case 2
    with assms(3) have "lk_send s c \<noteq> SnWantMutex" by (auto simp: locks_inverted_def)
    with want [OF assms(1) 2] show ?thesis by blast
  next
    case 3
    then show ?thesis by (rule both)
  qed
qed

lemma mutex_can_be_freed:
  assumes "locks_ok s" and "\<not> wedged s"
  shows "\<exists>t. lk_steps s t \<and> lk_mutex t = None"
proof (cases "lk_mutex s")
  case (Some w)
  show ?thesis
  proof (cases w)
    case ByStop
    with Some assms stop_frees_mutex [of s] show ?thesis by (auto simp: wedged_def)
  next
    case (ByRecv c)
    with Some have "lk_recv s c = RcHold" using mutex_owner(1) [OF assms(1), of c] by simp
    from steps_then [OF recv_rules(7) [OF this] steps_refl] show ?thesis
      by (intro exI [of _ "s\<lparr>lk_recv := (lk_recv s)(c := RcTest), lk_mutex := None\<rparr>"]) simp
  next
    case (BySend c)
    with Some have "lk_send s c = SnRelays" using mutex_owner(2) [OF assms(1), of c] by simp
    from steps_then [OF send_rules(8) [OF this] steps_refl] show ?thesis
      by (intro exI [of _ "s\<lparr>lk_send := (lk_send s)(c := SnCheck), lk_mutex := None\<rparr>"]) simp
  next
    case (ByPeers c)
    with Some have "lk_peers s c = PrHold" using mutex_owner(3) [OF assms(1), of c] by simp
    from steps_then [OF peers_rules(4) [OF this] steps_refl] show ?thesis
      by (intro exI [of _ "s\<lparr>lk_peers := (lk_peers s)(c := PrTest), lk_mutex := None\<rparr>"]) simp
  next
    case (ByInbound c)
    with Some assms inbound_frees_mutex [of s c] show ?thesis by (auto simp: wedged_def)
  qed
qed (auto intro: exI [of _ s])

lemma freed_iff: "locks_ok s \<Longrightarrow> (\<exists>t. lk_steps s t \<and> lk_mutex t = None) \<longleftrightarrow> \<not> wedged s"
  using mutex_can_be_freed wedged_steps wedged_mutex by blast

section \<open>Reaching states\<close>

lemma reach_step: "lk_reachable addr s \<Longrightarrow> lk_step s t \<Longrightarrow> lk_reachable addr t"
  unfolding lk_reachable_def by (blast intro: steps_trans steps_then steps_refl)

lemma same_address: "lk_step s t \<Longrightarrow> lk_address t = lk_address s"
proof (erule lk_stepE)
  fix c assume "recv_moves c s t" then show ?thesis by cases simp_all
next
  fix c assume "send_moves c s t" then show ?thesis by cases simp_all
next
  fix c assume "peers_moves c s t" then show ?thesis by cases simp_all
next
  fix c assume "inbound_moves c s t" then show ?thesis by cases simp_all
next
  assume "stop_moves s t" then show ?thesis by cases simp_all
qed

lemma reachable_address: "lk_reachable addr s \<Longrightarrow> lk_address s = addr"
  unfolding lk_reachable_def lk_steps_def
  by (induction rule: rtranclp_induct) (simp_all add: same_address, simp add: lk_init_def)

text \<open>One inbound connection has been accepted.\<close>

definition one_conn :: "(nat \<Rightarrow> bool) \<Rightarrow> locks" where
  "one_conn addr = (lk_init addr)\<lparr>lk_conns := [0]\<rparr>"

lemma one_conn_fields [simp]:
  "lk_conns (one_conn addr) = [0]" "lk_running (one_conn addr)" "lk_mutex (one_conn addr) = None"
  "lk_stream (one_conn addr) c = None" "\<not> lk_terminated (one_conn addr) c" "lk_address (one_conn addr) = addr"
  "lk_recv (one_conn addr) c = RcTest" "lk_send (one_conn addr) c = SnTest" "lk_inbound (one_conn addr) c = InIdle"
  "lk_stop (one_conn addr) = StIdle"
  by (simp_all add: one_conn_def lk_init_def)

lemma one_conn_reachable: "lk_reachable addr (one_conn addr)"
proof -
  let ?s0 = "lk_init addr"
  let ?s1 = "?s0\<lparr>lk_inbound := (lk_inbound ?s0)(0 := InWant)\<rparr>"
  let ?s2 = "?s1\<lparr>lk_inbound := (lk_inbound ?s1)(0 := InHold), lk_mutex := Some (ByInbound 0)\<rparr>"
  let ?s3 = "?s2\<lparr>lk_conns := lk_conns ?s2 @ [0], lk_inbound := (lk_inbound ?s2)(0 := InIdle), lk_mutex := None\<rparr>"
  have "lk_reachable addr ?s0" by (simp add: lk_reachable_def)
  then have "lk_reachable addr ?s1" by (rule reach_step) (rule inbound_rules, simp add: lk_init_def)
  then have "lk_reachable addr ?s2" by (rule reach_step) (rule inbound_rules, simp_all add: lk_init_def)
  then have "lk_reachable addr ?s3" by (rule reach_step) (rule inbound_rules, simp_all add: lk_init_def)
  moreover have "?s3 = one_conn addr" by (simp add: one_conn_def lk_init_def fun_upd_idem)
  ultimately show ?thesis by simp
qed

text \<open>\<open>Stop\<close> takes the mutex while the receive cycle is on its way to it.\<close>

definition hung_stop :: "(nat \<Rightarrow> bool) \<Rightarrow> locks" where
  "hung_stop addr = (one_conn addr)\<lparr>lk_recv := (\<lambda>_. RcTest)(0 := RcWant), lk_stop := StAt [0],
     lk_mutex := Some ByStop, lk_running := False\<rparr>"

lemma hung_stop_reachable: "lk_reachable addr (hung_stop addr)"
proof -
  let ?s0 = "one_conn addr"
  let ?s1 = "?s0\<lparr>lk_recv := (lk_recv ?s0)(0 := RcWork)\<rparr>"
  let ?s2 = "?s1\<lparr>lk_recv := (lk_recv ?s1)(0 := RcWant)\<rparr>"
  let ?s3 = "?s2\<lparr>lk_stop := StWant\<rparr>"
  let ?s4 = "?s3\<lparr>lk_stop := StAt [0], lk_mutex := Some ByStop, lk_running := False\<rparr>"
  have "lk_reachable addr ?s1" by (rule reach_step [OF one_conn_reachable]) (rule recv_rules, simp_all)
  then have "lk_reachable addr ?s2" by (rule reach_step) (rule recv_rules, simp_all)
  then have "lk_reachable addr ?s3" by (rule reach_step) (rule stop_rules, simp)
  then have "lk_reachable addr ?s4" by (rule reach_step) (rule stop_rules, simp_all)
  moreover have "?s4 = hung_stop addr" by (simp add: hung_stop_def fun_eq_iff)
  ultimately show ?thesis by simp
qed

text \<open>The send cycle asks for relays under its stream lock while a new stream of the peer is accepted.\<close>

definition crossed :: "(nat \<Rightarrow> bool) \<Rightarrow> locks" where
  "crossed addr = (one_conn addr)\<lparr>lk_send := (\<lambda>_. SnTest)(0 := SnWantMutex),
     lk_stream := (\<lambda>_. None)(0 := Some (BySend 0)), lk_inbound := (\<lambda>_. InIdle)(0 := InHold),
     lk_mutex := Some (ByInbound 0)\<rparr>"

lemma crossed_reachable:
  assumes "\<not> addr 0"
  shows "lk_reachable addr (crossed addr)"
proof -
  let ?s0 = "one_conn addr"
  let ?s1 = "?s0\<lparr>lk_send := (lk_send ?s0)(0 := SnWantStream)\<rparr>"
  let ?s2 = "?s1\<lparr>lk_send := (lk_send ?s1)(0 := SnCheck), lk_stream := (lk_stream ?s1)(0 := Some (BySend 0))\<rparr>"
  let ?s3 = "?s2\<lparr>lk_send := (lk_send ?s2)(0 := SnWantMutex)\<rparr>"
  let ?s4 = "?s3\<lparr>lk_inbound := (lk_inbound ?s3)(0 := InWant)\<rparr>"
  let ?s5 = "?s4\<lparr>lk_inbound := (lk_inbound ?s4)(0 := InHold), lk_mutex := Some (ByInbound 0)\<rparr>"
  have "lk_reachable addr ?s1" by (rule reach_step [OF one_conn_reachable]) (rule send_rules, simp_all)
  then have "lk_reachable addr ?s2" by (rule reach_step) (rule send_rules, simp_all)
  then have "lk_reachable addr ?s3" by (rule reach_step) (rule send_rules(6), simp_all add: assms)
  then have "lk_reachable addr ?s4" by (rule reach_step) (rule inbound_rules, simp)
  then have "lk_reachable addr ?s5" by (rule reach_step) (rule inbound_rules, simp_all)
  moreover have "?s5 = crossed addr" by (simp add: crossed_def fun_eq_iff)
  ultimately show ?thesis by simp
qed

section \<open>Properties\<close>

text \<open>
  C4: when the service's mutex is lost for good. From every state the threads can reach, the mutex can become
  free again exactly unless \<open>Stop\<close> holds it and waits, now or later, for a receive or send cycle
  that itself waits for the mutex, or the handler of an inbound stream holds it and needs the
  stream lock of a send cycle that waits for the mutex. No other state is a deadlock, whatever the
  number of connections and the order in which \<open>Stop\<close> terminates them.
\<close>
theorem mutex_freed_unless_wedged:
  assumes "lk_reachable addr s"
  shows "(\<exists>t. lk_steps s t \<and> lk_mutex t = None) \<longleftrightarrow> \<not> wedged s"
  by (rule freed_iff [OF reachable_ok [OF assms]])

lemma mutex_freed_unless_wedged_witness:
  "\<not> (\<exists>t. lk_steps (hung_stop (\<lambda>_. True)) t \<and> lk_mutex t = None)"
  using mutex_freed_unless_wedged [OF hung_stop_reachable, of "\<lambda>_. True"]
  by (auto simp: wedged_def stop_waits_for_waiter_def hung_stop_def)

text \<open>
  C18: where every connection knows its peer's address, as they do, only \<open>Stop\<close> can hang: a reachable state loses the
  mutex exactly if \<open>Stop\<close> holds it while a receive cycle it still has to wait for has passed the
  test of \<open>running\<close> and waits for the mutex. Such a state can be reached with one connection, and
  while \<open>Stop\<close> has not got the mutex there is none.
\<close>
theorem only_Stop_can_hang:
  assumes "lk_reachable addr s" and "\<And>c. addr c"
  shows "((\<exists>t. lk_steps s t \<and> lk_mutex t = None) \<longleftrightarrow>
      \<not> (\<exists>c \<in> set (remaining (lk_stop s)). lk_recv s c = RcWant)) \<and>
    (lk_running s \<longrightarrow> (\<exists>t. lk_steps s t \<and> lk_mutex t = None)) \<and>
    (\<exists>s'. lk_reachable addr s' \<and> \<not> (\<exists>t. lk_steps s' t \<and> lk_mutex t = None))"
proof -
  have free: "(\<exists>t. lk_steps u t \<and> lk_mutex t = None) \<longleftrightarrow>
      \<not> (\<exists>c \<in> set (remaining (lk_stop u)). lk_recv u c = RcWant)" if "lk_reachable addr u" for u
  proof -
    note ok = reachable_ok [OF that]
    have "lk_send u c \<noteq> SnWantMutex" for c
      using ok reachable_address [OF that] assms(2) by (auto simp: locks_ok_def started_def)
    then have w: "wedged u \<longleftrightarrow> (\<exists>c \<in> set (remaining (lk_stop u)). lk_recv u c = RcWant)"
      by (simp add: wedged_def stop_waits_for_waiter_def locks_inverted_def)
    show ?thesis using freed_iff [OF ok] unfolding w [symmetric] .
  qed
  have "remaining (lk_stop s) = []" if "lk_running s"
    using that reachable_ok [OF assms(1)] by (auto simp: locks_ok_def stopping_def)
  then have "lk_running s \<longrightarrow> (\<exists>t. lk_steps s t \<and> lk_mutex t = None)"
    unfolding free [OF assms(1)] by simp
  moreover have "\<not> (\<exists>t. lk_steps (hung_stop addr) t \<and> lk_mutex t = None)"
    unfolding free [OF hung_stop_reachable] by (simp add: hung_stop_def)
  ultimately show ?thesis
    using free [OF assms(1)] hung_stop_reachable [of addr] by blast
qed

lemma only_Stop_can_hang_witness:
  "\<exists>t. lk_steps (one_conn (\<lambda>_. True)) t \<and> lk_mutex t = None"
  using only_Stop_can_hang [OF one_conn_reachable, of "\<lambda>_. True"] by simp

text \<open>
  The order of the locks is inverted: \<open>checkOutboundStream\<close> takes the stream lock and then, to look for relays, the
  mutex, while \<open>onConnect\<close> takes the mutex and then the stream lock. For a peer without a known
  address the two can wait for each other for ever, without any \<open>Stop\<close>.
\<close>
theorem lock_order_inverted:
  "\<exists>s. lk_reachable (\<lambda>_. False) s \<and> lk_stop s = StIdle \<and> \<not> (\<exists>t. lk_steps s t \<and> lk_mutex t = None)"
proof -
  let ?s = "crossed (\<lambda>_. False)"
  have r: "lk_reachable (\<lambda>_. False) ?s" by (rule crossed_reachable) simp
  have "wedged ?s" by (simp add: wedged_def locks_inverted_def crossed_def)
  then have "\<not> (\<exists>t. lk_steps ?s t \<and> lk_mutex t = None)"
    using freed_iff [OF reachable_ok [OF r]] by blast
  with r show ?thesis by (intro exI [of _ ?s]) (simp add: crossed_def)
qed

text \<open>
  C30: when \<open>Stop\<close> has returned, the receive and the send cycle of every connection there ever was have ended. Of the
  peer-list cycles, for which it does not wait, nothing is said: the witness is a state in which one
  of them is about to lock the service's mutex.
\<close>
theorem Stop_ends_cycles:
  assumes "lk_reachable addr s" and "lk_stop s = StDone" and "c \<in> set (lk_conns s)"
  shows "lk_recv s c = RcEnd \<and> lk_send s c = SnEnd \<and> \<not> lk_running s"
  using reachable_ok [OF assms(1)] assms(2,3) by (auto simp: locks_ok_def stopping_def)

text \<open>A stop with nothing in its way.\<close>

definition stopped :: locks where
  "stopped = (one_conn (\<lambda>_. True))\<lparr>lk_peers := (\<lambda>_. PrTest)(0 := PrWant), lk_stop := StDone, lk_running := False,
     lk_terminated := (\<lambda>_. False)(0 := True), lk_recv := (\<lambda>_. RcTest)(0 := RcEnd), lk_send := (\<lambda>_. SnTest)(0 := SnEnd)\<rparr>"

lemma stopped_reachable: "lk_reachable (\<lambda>_. True) stopped"
proof -
  let ?addr = "\<lambda>_. True"
  let ?s0 = "one_conn ?addr"
  let ?s1 = "?s0\<lparr>lk_peers := (lk_peers ?s0)(0 := PrWant)\<rparr>"
  let ?s2 = "?s1\<lparr>lk_stop := StWant\<rparr>"
  let ?s3 = "?s2\<lparr>lk_stop := StAt [0], lk_mutex := Some ByStop, lk_running := False\<rparr>"
  let ?s4 = "?s3\<lparr>lk_stop := StAwaits 0 [], lk_terminated := (lk_terminated ?s3)(0 := True)\<rparr>"
  let ?s5 = "?s4\<lparr>lk_recv := (lk_recv ?s4)(0 := RcEnd)\<rparr>"
  let ?s6 = "?s5\<lparr>lk_send := (lk_send ?s5)(0 := SnEnd)\<rparr>"
  let ?s7 = "?s6\<lparr>lk_stop := StAt []\<rparr>"
  let ?s8 = "?s7\<lparr>lk_stop := StDone, lk_mutex := None\<rparr>"
  have p: "lk_peers ?s0 = (\<lambda>_. PrTest)" by (simp add: one_conn_def lk_init_def)
  have "lk_reachable ?addr ?s1" by (rule reach_step [OF one_conn_reachable]) (rule peers_rules, simp_all add: p)
  then have "lk_reachable ?addr ?s2" by (rule reach_step) (rule stop_rules, simp)
  then have "lk_reachable ?addr ?s3" by (rule reach_step) (rule stop_rules, simp_all)
  then have "lk_reachable ?addr ?s4" by (rule reach_step) (rule stop_rules, simp)
  then have "lk_reachable ?addr ?s5" by (rule reach_step) (rule recv_rules, simp_all)
  then have "lk_reachable ?addr ?s6" by (rule reach_step) (rule send_rules, simp_all)
  then have "lk_reachable ?addr ?s7" by (rule reach_step) (rule stop_rules, simp_all)
  then have "lk_reachable ?addr ?s8" by (rule reach_step) (rule stop_rules, simp)
  moreover have "?s8 = stopped" by (simp add: stopped_def fun_eq_iff p)
  ultimately show ?thesis by simp
qed

lemma Stop_ends_cycles_witness:
  "lk_reachable (\<lambda>_. True) stopped \<and> lk_recv stopped 0 = RcEnd \<and> lk_send stopped 0 = SnEnd \<and>
   lk_peers stopped 0 = PrWant"
  using stopped_reachable Stop_ends_cycles [OF stopped_reachable, of 0] by (simp add: stopped_def)

end
