(* ===== verification/Link.thy ===== *)
theory Link
  imports Peer_Table
begin

text \<open>
  Two hubs and the network between their connections: every goroutine of both connections is
  interleaved, and a read returns any frame the other side has ever written, so frames may be lost,
  duplicated and reordered, but not made up. What each side's node submitted and received and what each
  side wrote is recorded.
\<close>

section \<open>What a step of a connection carries on\<close>

text \<open>The messages a connection still has: in its queue or in the send cycle's hand.\<close>

definition carried :: "conn_sys \<Rightarrow> (message_kind \<times> u64 \<times> bytes) set" where
  "carried s =
     {(env_kind m, env_msgId m, d) | m d. VEnvelop m \<in> set (mq_list (messageQueue (cs_conn s))) \<and> env_data m = Some d} \<union>
     {(msgKind (cs_send s), msgId (cs_send s), d) | d. msgToSend (cs_send s) = Some d}"

text \<open>The frame the send cycle makes of one.\<close>

definition frame_for :: "message_kind \<Rightarrow> u64 \<Rightarrow> bytes \<Rightarrow> message_frame" where
  "frame_for k i d =
     (if k = KMessage then NewFrameWithId FMessage d i
      else if k = KConfirmReply then NewFrameWithId FConfirmReply d i
      else if k = KConsensus then NewFrameWithId FMessageConfirmRequest d i
      else \<lparr>frm_kind = 0, frm_msgId = 0, frm_data = []\<rparr>)"

text \<open>The frame a step receives.\<close>

definition received :: "conn_sys \<Rightarrow> conn_event \<Rightarrow> message_frame option" where
  "received s e =
     (case e of EvRecv (Inr f) \<Rightarrow> (case cs_recv s of RReading _ \<Rightarrow> Some f | _ \<Rightarrow> None) | _ \<Rightarrow> None)"

definition acts_of :: "action list go \<Rightarrow> action list" where
  "acts_of r = (case r of Inl _ \<Rightarrow> [] | Inr acts \<Rightarrow> acts)"

lemma acts_of_simps [simp]: "acts_of (Inl x) = []" "acts_of (Inr acts) = acts"
  by (simp_all add: acts_of_def)

lemma carriedI:
  "VEnvelop m \<in> set (mq_list (messageQueue (cs_conn s))) \<Longrightarrow> env_data m = Some d \<Longrightarrow>
    (env_kind m, env_msgId m, d) \<in> carried s"
  "msgToSend (cs_send s) = Some d \<Longrightarrow> (msgKind (cs_send s), msgId (cs_send s), d) \<in> carried s"
  by (auto simp: carried_def)

lemma carried_cong:
  "messageQueue (cs_conn t) = messageQueue (cs_conn s) \<Longrightarrow> msgToSend (cs_send t) = msgToSend (cs_send s) \<Longrightarrow>
    msgKind (cs_send t) = msgKind (cs_send s) \<Longrightarrow> msgId (cs_send t) = msgId (cs_send s) \<Longrightarrow> carried t = carried s"
  by (simp add: carried_def)

subsection \<open>The send cycle\<close>

lemma checkOutboundStream_acts:
  "checkOutboundStream N h c = (c1, acts, err) \<Longrightarrow>
   WriteFrame st f \<notin> set acts \<and> OnMessage d \<notin> set acts"
  by (auto simp: checkOutboundStream_def resetInboundStream_def resetOutboundStream_def
      split: if_splits option.splits prod.splits)

lemma build_frame_for:
  "build_frame l c = Some (f, c1) \<Longrightarrow> msgToSend l = Some d \<Longrightarrow> f = frame_for (msgKind l) (msgId l) d"
  by (auto simp: build_frame_def frame_for_def Let_def split: if_splits prod.splits)

lemma checkOutboundStream_confirms:
  "confirmReceived (fst (checkOutboundStream N h c)) = confirmReceived c"
proof -
  have [simp]: "confirmReceived (fst (open_stream h d)) = confirmReceived d" for d
    by (simp add: open_stream_def cas_status_def split: sum.splits)
  have [simp]: "confirmReceived (fst (resetInboundStream d)) = confirmReceived d"
    "confirmReceived (fst (resetOutboundStream d)) = confirmReceived d" for d
    by (simp_all add: resetInboundStream_def resetOutboundStream_def split: option.splits)
  show ?thesis by (simp add: checkOutboundStream_def case_prod_unfold split: option.splits)
qed

definition confirms :: "connection \<Rightarrow> u64 set" where
  "confirms c = {i. confirmReceived c i = Some True}"

lemma build_frame_confirms: "build_frame l c = Some (f, c1) \<Longrightarrow> confirms c1 \<subseteq> confirms c"
  by (auto simp: build_frame_def Let_def addMsgIdToConfirm_def confirms_def split: if_splits prod.splits)

lemma send_write_effect:
  assumes "send_write h l c = (l', c', acts)" and "msgToSend l = Some d"
  shows "carried \<lparr>cs_conn = c', cs_recv = r, cs_send = l'\<rparr> \<subseteq> carried \<lparr>cs_conn = c, cs_recv = r, cs_send = l\<rparr>"
    and "WriteFrame st f \<in> set acts \<Longrightarrow> f = frame_for (msgKind l) (msgId l) d"
    and "OnMessage x \<notin> set acts" and "confirms c' \<subseteq> confirms c"
proof -
  let ?l1 = "l\<lparr>attempts := attempts l + 1\<rparr>"
  have reset: "confirms (fst (resetOutboundStream d)) = confirms d" for d
    by (simp add: resetOutboundStream_def confirms_def split: option.splits)
  have clear: "confirms (d\<lparr>messageQueue := q\<rparr>) = confirms d" for d q by (simp add: confirms_def)
  consider (no_stream) "outboundStream c = None"
    | (confirmed) s where "outboundStream c = Some s" "build_frame l c = None"
    | (written) s f c1 where "outboundStream c = Some s" "build_frame l c = Some (f, c1)" "he_write h = None"
    | (failed) s f c1 e where "outboundStream c = Some s" "build_frame l c = Some (f, c1)" "he_write h = Some e"
    by (metis option.exhaust prod.exhaust)
  then have "carried \<lparr>cs_conn = c', cs_recv = r, cs_send = l'\<rparr> \<subseteq> carried \<lparr>cs_conn = c, cs_recv = r, cs_send = l\<rparr> \<and>
    (WriteFrame st f \<in> set acts \<longrightarrow> f = frame_for (msgKind l) (msgId l) d) \<and>
    OnMessage x \<notin> set acts \<and> confirms c' \<subseteq> confirms c"
  proof cases
    case no_stream
    with assms show ?thesis
      by (auto simp: send_write_def send_failed_def clear_message_def carried_def MQ_Clear_def clear Let_def split: if_splits)
  next
    case confirmed
    with assms have "c' = removeMsgIdFromConfirm (msgId l) c \<and> msgToSend l' = None \<and> acts = []"
      by (auto simp: send_write_def Let_def clear_message_def)
    then show ?thesis by (auto simp: carried_def removeMsgIdFromConfirm_def confirms_def)
  next
    case written
    have "c' = (if msgKind l = KConsensus
        then addToQueue (NewEnvelopWithId (msgToSend l) (msgKind l) (msgId l)) c1 else c1) \<and> msgToSend l' = None \<and>
        acts = [WriteFrame s f, OutboundTPS (length (frm_data f))]"
      if "build_frame l c = Some (f, c1)" for f c1
      using written assms that by (auto simp: send_write_def Let_def clear_message_def)
    with written build_frame_custody [OF written(2)] build_frame_for [OF written(2) assms(2)]
      build_frame_confirms [OF written(2)] assms(2) show ?thesis
      by (auto simp: carried_def addToQueue_def MQ_Enqueue_def clear)
  next
    case failed
    obtain c2 a2 where c2: "resetOutboundStream c1 = (c2, a2)" by fastforce
    obtain l3 c3 where sf: "send_failed h ?l1 c2 = (l3, c3)" by fastforce
    have eq: "l' = l3" "c' = c3" "acts = WriteFrame s f # a2"
      using failed assms(1) c2 sf by (simp_all add: send_write_def Let_def)
    have "messageQueue c2 = messageQueue c"
      using reset_streams_fields(2) [of c1] c2 build_frame_custody [OF failed(2)] by simp
    moreover have "confirms c2 \<subseteq> confirms c"
      using reset [of c1] c2 build_frame_confirms [OF failed(2)] by simp
    moreover have "WriteFrame st g \<notin> set a2 \<and> OnMessage x \<notin> set a2" for g
      using c2 by (auto simp: resetOutboundStream_def split: option.splits)
    ultimately show ?thesis
      using sf build_frame_for [OF failed(2) assms(2)] unfolding eq
      by (auto simp: send_failed_def clear_message_def carried_def MQ_Clear_def clear split: if_splits)
  qed
  then show "carried \<lparr>cs_conn = c', cs_recv = r, cs_send = l'\<rparr> \<subseteq> carried \<lparr>cs_conn = c, cs_recv = r, cs_send = l\<rparr>"
    and "WriteFrame st f \<in> set acts \<Longrightarrow> f = frame_for (msgKind l) (msgId l) d"
    and "OnMessage x \<notin> set acts" and "confirms c' \<subseteq> confirms c" by blast+
qed

lemma send_step_effect:
  assumes "send_step N h (l, c) = ok (l', c', acts)" and "hand_ok l"
  shows "carried \<lparr>cs_conn = c', cs_recv = r, cs_send = l'\<rparr> \<subseteq> carried \<lparr>cs_conn = c, cs_recv = r, cs_send = l\<rparr>"
    and "WriteFrame st f \<in> set acts \<Longrightarrow>
      \<exists>(k, i, d) \<in> carried \<lparr>cs_conn = c, cs_recv = r, cs_send = l\<rparr>. f = frame_for k i d"
    and "OnMessage x \<notin> set acts" and "confirms c' \<subseteq> confirms c"
proof -
  have "carried \<lparr>cs_conn = c', cs_recv = r, cs_send = l'\<rparr> \<subseteq> carried \<lparr>cs_conn = c, cs_recv = r, cs_send = l\<rparr> \<and>
    (WriteFrame st f \<in> set acts \<longrightarrow>
      (\<exists>(k, i, d) \<in> carried \<lparr>cs_conn = c, cs_recv = r, cs_send = l\<rparr>. f = frame_for k i d)) \<and>
    OnMessage x \<notin> set acts \<and> confirms c' \<subseteq> confirms c"
  proof (cases "sl_pc l")
    case STop
    obtain c1 a1 err where chk: "checkOutboundStream N h c = (c1, a1, err)" by (metis prod_cases3)
    with checkOutboundStream_queue [of N h c] checkOutboundStream_confirms [of N h c]
    have "messageQueue c1 = messageQueue c" "confirms c1 = confirms c" by (simp_all add: confirms_def)
    moreover note checkOutboundStream_acts [OF chk]
    ultimately show ?thesis using STop chk assms(1)
      by (cases err) (auto simp: send_step_def send_top_def Let_def carried_def confirms_def split: if_splits)
  next
    case SDequeue
    with assms show ?thesis
      by (auto simp: send_step_def send_dequeue_def MQ_DequeueOrWait_def hand_ok_def carried_def confirms_def
          split: list.splits list_value.splits if_splits)
  next
    case SSend
    with assms(2) obtain d where d: "msgToSend l = Some d" by (auto simp: hand_ok_def)
    have w: "send_write h l c = (l', c', acts)" using SSend assms(1) by (simp add: send_step_def)
    have "(msgKind l, msgId l, d) \<in> carried \<lparr>cs_conn = c, cs_recv = r, cs_send = l\<rparr>"
      using d by (simp add: carried_def)
    with send_write_effect [OF w d] show ?thesis by blast
  qed (use assms in \<open>auto simp: send_step_def carried_def confirms_def\<close>)
  then show "carried \<lparr>cs_conn = c', cs_recv = r, cs_send = l'\<rparr> \<subseteq> carried \<lparr>cs_conn = c, cs_recv = r, cs_send = l\<rparr>"
    and "WriteFrame st f \<in> set acts \<Longrightarrow>
      \<exists>(k, i, d) \<in> carried \<lparr>cs_conn = c, cs_recv = r, cs_send = l\<rparr>. f = frame_for k i d"
    and "OnMessage x \<notin> set acts" and "confirms c' \<subseteq> confirms c" by blast+
qed

subsection \<open>The receive cycle\<close>

text \<open>
  What handling one frame does: it delivers what the frame carries, queues at most the reply to a
  request it has delivered, and records at most the confirmation it is.
\<close>

definition handled :: "message_frame \<Rightarrow> connection \<Rightarrow> connection \<Rightarrow> action list \<Rightarrow> bool" where
  "handled f c c' acts \<longleftrightarrow>
     (\<forall>m. VEnvelop m \<in> set (mq_list (messageQueue c')) \<longrightarrow>
        VEnvelop m \<in> set (mq_list (messageQueue c)) \<or>
        frm_kind f = FMessageConfirmRequest \<and> env_kind m = KConfirmReply \<and> env_msgId m = frm_msgId f \<and>
          OnMessage (frm_data f) \<in> set acts) \<and>
     (\<forall>i \<in> confirms c'. i \<in> confirms c \<or> frm_kind f = FConfirmReply \<and> i = frm_msgId f) \<and>
     (\<forall>x. OnMessage x \<in> set acts \<longrightarrow>
        frm_kind f = FMessageConfirmRequest \<and> x = frm_data f \<or>
        frm_kind f = FMessage \<and> x = PutUint32 (UniqId c) @ frm_data f) \<and>
     (\<forall>st g. WriteFrame st g \<notin> set acts)"

lemma handleSignature_handled:
  assumes "handleSignature C N chainId data c = ok (c', acts)"
  shows "messageQueue c' = messageQueue c" and "confirms c' = confirms c"
    and "OnMessage x \<notin> set acts" and "WriteFrame st g \<notin> set acts"
proof -
  have [simp]: "messageQueue (handshake_done d) = messageQueue d" "confirmReceived (handshake_done d) = confirmReceived d"
    for d by (simp_all add: handshake_done_def cas_status_def)
  from handleSignature_returns [OF assms]
  show "messageQueue c' = messageQueue c" and "confirms c' = confirms c"
    and "OnMessage x \<notin> set acts" and "WriteFrame st g \<notin> set acts"
    by (auto simp: confirms_def resetInboundStream_def split: option.splits)
qed

lemma handle_frame_handled:
  assumes "handle_frame C N chainId f c = ok (c', acts)"
  shows "handled f c c' acts"
proof (cases "frm_kind f = FSignature")
  case True
  with assms have "handleSignature C N chainId (frm_data f) c = ok (c', acts)"
    by (simp add: handle_frame_def frame_kind_defs)
  from handleSignature_handled [OF this] show ?thesis by (simp add: handled_def)
next
  case False
  with assms show ?thesis
    by (auto simp: handle_frame_def handled_def handlePeers_def confirmationReceived_def addToQueue_def
        MQ_Enqueue_def messageReceived_def confirms_def and_then_Inr_iff Let_def
        split: if_splits option.splits)
qed

lemma receive_frame_handled:
  assumes "receive_frame C N chainId f c = ok (c', acts)"
  shows "handled f c c' acts"
proof -
  from assms obtain c1 b acts' where 1: "spam_filter (frm_msgId f) c = ok (c1, b)"
    and acts: "acts = InboundTPS (length (frm_data f)) # acts'"
    and 2: "(if b then handle_frame C N chainId f c1 else ok (c1, [])) = ok (c', acts')"
    by (rule receive_frame_ok)
  have same: "messageQueue c1 = messageQueue c" "UniqId c1 = UniqId c" "confirms c1 = confirms c"
    using spam_filter_fields [OF 1] by (simp_all add: confirms_def) (subst spam_filter_effect [OF 1], simp)
  have "handled f c1 c' acts'"
    using 2 handle_frame_handled [of C N chainId f c1 c' acts'] by (cases b) (auto simp: handled_def)
  then show ?thesis by (simp add: handled_def same acts)
qed

lemma recv_step_handled:
  assumes "recv_step C N chainId res (pc, c) = ok (pc', c', acts)"
  shows "(case res of Inr f \<Rightarrow> (case pc of RReading _ \<Rightarrow> handled f c c' acts | _ \<Rightarrow> False) | _ \<Rightarrow> False) \<or>
    messageQueue c' = messageQueue c \<and> confirms c' = confirms c \<and> (\<forall>x. OnMessage x \<notin> set acts) \<and>
    (\<forall>st g. WriteFrame st g \<notin> set acts)"
  using assms receive_frame_handled [of C N chainId _ c]
  by (cases pc; cases res)
     (auto simp: recv_step_def resetInboundStream_def confirms_def and_then_Inr_iff
        split: if_splits option.splits fault.splits)

subsection \<open>A whole connection\<close>

text \<open>
  The four things a step may do with messages: keep or drop those it carries, or take one from the node,
  or the reply to a request it delivers; record a confirmation it receives; deliver what it receives;
  write a frame for a message it carries, or a signature or a peer list.
\<close>

definition step_effect :: "conn_sys \<Rightarrow> conn_event \<Rightarrow> conn_sys \<Rightarrow> action list \<Rightarrow> bool" where
  "step_effect s e s' acts \<longleftrightarrow>
     (\<forall>(k, i, d) \<in> carried s'. (k, i, d) \<in> carried s \<or>
        (\<exists>m. e = EvApiSend m \<and> env_kind m = k \<and> env_msgId m = i \<and> env_data m = Some d) \<or>
        (\<exists>f. received s e = Some f \<and> frm_kind f = FMessageConfirmRequest \<and> k = KConfirmReply \<and>
           i = frm_msgId f \<and> OnMessage (frm_data f) \<in> set acts)) \<and>
     (\<forall>i \<in> confirms (cs_conn s'). i \<in> confirms (cs_conn s) \<or>
        (\<exists>f. received s e = Some f \<and> frm_kind f = FConfirmReply \<and> i = frm_msgId f)) \<and>
     (\<forall>x. OnMessage x \<in> set acts \<longrightarrow> (\<exists>f. received s e = Some f \<and>
        (frm_kind f = FMessageConfirmRequest \<and> x = frm_data f \<or>
         frm_kind f = FMessage \<and> x = PutUint32 (UniqId (cs_conn s)) @ frm_data f))) \<and>
     (\<forall>st g. WriteFrame st g \<in> set acts \<longrightarrow>
        frm_kind g = FSignature \<or> frm_kind g = FGetPeersReply \<or>
        (\<exists>(k, i, d) \<in> carried s. g = frame_for k i d))"

lemma step_effect_silent:
  "messageQueue (cs_conn s') = messageQueue (cs_conn s) \<Longrightarrow> cs_send s' = cs_send s \<Longrightarrow>
   confirmReceived (cs_conn s') = confirmReceived (cs_conn s) \<Longrightarrow>
   (\<And>x. OnMessage x \<notin> set acts) \<Longrightarrow>
   (\<And>st g. WriteFrame st g \<in> set acts \<Longrightarrow> frm_kind g = FSignature \<or> frm_kind g = FGetPeersReply) \<Longrightarrow>
   step_effect s e s' acts"
  by (auto simp: step_effect_def confirms_def carried_def)

lemma step_effect_refl [simp]: "step_effect s e s []"
  by (rule step_effect_silent) simp_all

lemma sig_step_acts:
  "sig_step N chainId h r b c = ok (b', acts) \<Longrightarrow>
   OnMessage x \<notin> set acts \<and> (WriteFrame st g \<in> set acts \<longrightarrow> frm_kind g = FSignature)"
  by (auto simp: sig_step_def NewFrame_def Let_def split: if_splits option.splits)

lemma peers_step_acts:
  "peers_step N h r pcs c = ok (b', acts) \<Longrightarrow>
   OnMessage x \<notin> set acts \<and> (WriteFrame st g \<in> set acts \<longrightarrow> frm_kind g = FGetPeersReply)"
  by (auto simp: peers_step_def sendPeers_def NewFrame_def Let_def and_then_Inr_iff split: if_splits option.splits)

lemma Terminate_effect:
  "mq_list (messageQueue (fst (Terminate r c))) =
     mq_list (messageQueue c) @ [VEnvelop \<lparr>env_kind = KMessage, env_msgId = r, env_data = None\<rparr>]"
  "confirmReceived (fst (Terminate r c)) = confirmReceived c"
  "OnMessage x \<notin> set (snd (Terminate r c))" "WriteFrame st g \<notin> set (snd (Terminate r c))"
  by (auto simp: Terminate_def resetInboundStream_def resetOutboundStream_def MQ_Enqueue_def Let_def
      split: option.splits)

lemma conn_step_effect:
  assumes "hand_ok (cs_send s)"
  shows "step_effect s e (fst (conn_step C N chainId s e)) (acts_of (snd (conn_step C N chainId s e)))"
proof (cases e)
  case (EvRecv res)
  show ?thesis
  proof (cases "recv_step C N chainId res (cs_recv s, cs_conn s)")
    case (Inr p)
    then obtain pc c' acts where st: "recv_step C N chainId res (cs_recv s, cs_conn s) = ok (pc, c', acts)"
      by (cases p) auto
    have s': "conn_step C N chainId s e = (s\<lparr>cs_recv := pc, cs_conn := c'\<rparr>, ok acts)"
      using st EvRecv by (simp add: conn_step_def)
    from recv_step_handled [OF st] show ?thesis
    proof
      assume "case res of Inr f \<Rightarrow> (case cs_recv s of RReading _ \<Rightarrow> handled f (cs_conn s) c' acts | _ \<Rightarrow> False) | _ \<Rightarrow> False"
      then obtain f where f: "received s e = Some f" "handled f (cs_conn s) c' acts"
        by (auto simp: received_def EvRecv split: sum.splits recv_pc.splits)
      then show ?thesis unfolding s' step_effect_def handled_def carried_def by auto
    next
      assume "messageQueue c' = messageQueue (cs_conn s) \<and> confirms c' = confirms (cs_conn s) \<and>
        (\<forall>x. OnMessage x \<notin> set acts) \<and> (\<forall>st g. WriteFrame st g \<notin> set acts)"
      then show ?thesis unfolding s' step_effect_def carried_def by auto
    qed
  qed (simp add: EvRecv conn_step_def)
next
  case (EvSend h)
  show ?thesis
  proof (cases "send_step N h (cs_send s, cs_conn s)")
    case (Inr p)
    then obtain l' c' acts where st: "send_step N h (cs_send s, cs_conn s) = ok (l', c', acts)"
      by (cases p) auto
    have s': "conn_step C N chainId s e = (s\<lparr>cs_send := l', cs_conn := c'\<rparr>, ok acts)"
      using st EvSend by (simp add: conn_step_def)
    have eqs: "\<lparr>cs_conn = cs_conn s, cs_recv = cs_recv s, cs_send = cs_send s\<rparr> = s"
      "\<lparr>cs_conn = c', cs_recv = cs_recv s, cs_send = l'\<rparr> = s\<lparr>cs_send := l', cs_conn := c'\<rparr>" by simp_all
    from send_step_effect(1,2) [OF st assms, where r = "cs_recv s", unfolded eqs] send_step_effect(3,4) [OF st assms]
    show ?thesis
      unfolding s' step_effect_def by auto
  qed (simp add: EvSend conn_step_def)
next
  case (EvSignature h r b)
  then show ?thesis using sig_step_acts [of N chainId h r b "cs_conn s"]
    by (auto simp: conn_step_def Let_def intro!: step_effect_silent split: sum.splits)
next
  case (EvPeers h r pcs)
  then show ?thesis using peers_step_acts [of N h r pcs "cs_conn s"]
    by (auto simp: conn_step_def Let_def intro!: step_effect_silent split: sum.splits)
next
  case (EvApiSend m)
  then show ?thesis
    by (auto simp: conn_step_def Let_def step_effect_def carried_def Send_def addToQueue_def MQ_Enqueue_def confirms_def)
next
  case (EvTerminate r)
  then show ?thesis using Terminate_effect(1,2) [of r "cs_conn s"] Terminate_effect(3,4) [where r = r and c = "cs_conn s"]
    by (auto simp: conn_step_def Let_def step_effect_def carried_def confirms_def case_prod_unfold)
next
  case (EvTrySetKey key)
  then show ?thesis
    by (auto simp: conn_step_def TrySetPeerPublicKey_def resetInboundStream_def handshake_done_def cas_status_def Let_def
        intro!: step_effect_silent split: sum.splits if_splits option.splits fault.splits)
qed (auto simp: conn_step_def Let_def SetInboundStream_def cas_status_def SetSignature_conn_def SetPeerAddress_def
      BanPeer_conn_def RemoveFromBanList_conn_def Terminate_end_def intro!: step_effect_silent
      split: option.splits if_splits)

section \<open>Two ends\<close>

text \<open>
  One end: its connection, the frames it has written, the envelopes its node has submitted and the messages
  its node was given.
\<close>

record hub_end =
  en_sys :: conn_sys
  en_sent :: "message_frame list"
  en_submitted :: "message_envelop list"
  en_got :: "bytes list"

definition frames_in :: "action list \<Rightarrow> message_frame list" where
  "frames_in acts = concat (map (\<lambda>a. case a of WriteFrame _ f \<Rightarrow> [f] | _ \<Rightarrow> []) acts)"

definition messages_in :: "action list \<Rightarrow> bytes list" where
  "messages_in acts = concat (map (\<lambda>a. case a of OnMessage x \<Rightarrow> [x] | _ \<Rightarrow> []) acts)"

lemma frames_in_iff: "f \<in> set (frames_in acts) \<longleftrightarrow> (\<exists>st. WriteFrame st f \<in> set acts)"
  by (force simp: frames_in_def split: action.splits)

lemma messages_in_iff: "x \<in> set (messages_in acts) \<longleftrightarrow> OnMessage x \<in> set acts"
  by (force simp: messages_in_def split: action.splits)

text \<open>
  The network only hands over what the peer wrote, and the node's requests make no confirmation replies
  (\<open>SendMessage\<close> of the hub makes the two other kinds). What is not enabled does not happen.
\<close>

definition enabled :: "message_frame list \<Rightarrow> conn_event \<Rightarrow> bool" where
  "enabled peer_sent e \<longleftrightarrow>
     (case e of
        EvRecv (Inr f) \<Rightarrow> f \<in> set peer_sent
      | EvApiSend m \<Rightarrow> env_kind m = KMessage \<or> env_kind m = KConsensus
      | _ \<Rightarrow> True)"

definition end_step ::
    "crypto_lib \<Rightarrow> net_lib \<Rightarrow> byte \<Rightarrow> message_frame list \<Rightarrow> hub_end \<Rightarrow> conn_event \<Rightarrow> hub_end \<times> action list go" where
  "end_step C N chainId peer_sent u e =
     (if \<not> enabled peer_sent e then (u, ok [])
      else
        (case conn_step C N chainId (en_sys u) e of
           (s', r) \<Rightarrow>
             (\<lparr>en_sys = s', en_sent = en_sent u @ frames_in (acts_of r),
               en_submitted = en_submitted u @ (case e of EvApiSend m \<Rightarrow> [m] | _ \<Rightarrow> []),
               en_got = en_got u @ messages_in (acts_of r)\<rparr>, r)))"

datatype link_event = AtLeft conn_event | AtRight conn_event

definition link_step ::
    "crypto_lib \<Rightarrow> net_lib \<Rightarrow> byte \<Rightarrow> hub_end \<times> hub_end \<Rightarrow> link_event \<Rightarrow> (hub_end \<times> hub_end) \<times> action list go" where
  "link_step C N chainId w ev =
     (case w of (u, v) \<Rightarrow>
       (case ev of
          AtLeft e \<Rightarrow> (case end_step C N chainId (en_sent v) u e of (u', r) \<Rightarrow> ((u', v), r))
        | AtRight e \<Rightarrow> (case end_step C N chainId (en_sent u) v e of (v', r) \<Rightarrow> ((u, v'), r))))"

definition new_end :: "int \<Rightarrow> connection \<Rightarrow> hub_end" where
  "new_end now c = \<lparr>en_sys = conn_start now c, en_sent = [], en_submitted = [], en_got = []\<rparr>"

definition fresh_conn :: "connection \<Rightarrow> bool" where
  "fresh_conn c \<longleftrightarrow> mq_list (messageQueue c) = [] \<and> confirmReceived c = Map.empty"

lemma send_step_hand: "send_step N h (l, c) = ok (l', c', acts) \<Longrightarrow> hand_ok l \<Longrightarrow> hand_ok l'"
  by (auto simp: send_step_defs hand_ok_def
      split: send_pc.splits if_splits option.splits prod.splits sum.splits)

lemma end_step_effect:
  assumes "hand_ok (cs_send (en_sys u))" and "end_step C N chainId ps u e = (u', r)" and "enabled ps e"
  shows "step_effect (en_sys u) e (en_sys u') (acts_of r)" and "hand_ok (cs_send (en_sys u'))"
    and "en_sent u' = en_sent u @ frames_in (acts_of r)" and "en_got u' = en_got u @ messages_in (acts_of r)"
    and "en_submitted u' = en_submitted u @ (case e of EvApiSend m \<Rightarrow> [m] | _ \<Rightarrow> [])"
    and "UniqId (cs_conn (en_sys u')) = UniqId (cs_conn (en_sys u))"
proof -
  obtain s' where st: "conn_step C N chainId (en_sys u) e = (s', r)" and
    u': "u' = \<lparr>en_sys = s', en_sent = en_sent u @ frames_in (acts_of r),
               en_submitted = en_submitted u @ (case e of EvApiSend m \<Rightarrow> [m] | _ \<Rightarrow> []),
               en_got = en_got u @ messages_in (acts_of r)\<rparr>"
    using assms(2,3) by (auto simp: end_step_def split: prod.splits)
  from conn_step_effect [OF assms(1), of e C N chainId] st u'
  show "step_effect (en_sys u) e (en_sys u') (acts_of r)" by simp
  from conn_step_identity [of "en_sys u" C N chainId e] st u'
  show "UniqId (cs_conn (en_sys u')) = UniqId (cs_conn (en_sys u))" by (simp add: same_identity_def)
  show "hand_ok (cs_send (en_sys u'))"
  proof (cases "\<exists>h. e = EvSend h")
    case True
    then show ?thesis using assms(1) st u' send_step_hand [of N _ "cs_send (en_sys u)" "cs_conn (en_sys u)"]
      by (auto simp: conn_step_def split: sum.splits)
  next
    case False
    with other_step_send [of e C N chainId "en_sys u"] assms(1) st u' show ?thesis by simp
  qed
qed (use assms in \<open>auto simp: end_step_def split: prod.splits\<close>)

section \<open>Nothing is made up\<close>

text \<open>What the left end carries and writes comes from its node, and what the right node got comes from the left node.\<close>

definition submitted_as :: "hub_end \<Rightarrow> message_kind \<Rightarrow> u64 \<Rightarrow> bytes \<Rightarrow> bool" where
  "submitted_as u k i d \<longleftrightarrow>
     (\<exists>m \<in> set (en_submitted u). env_kind m = k \<and> env_msgId m = i \<and> env_data m = Some d) \<and>
     (k = KMessage \<or> k = KConsensus)"

definition shown_as :: "hub_end \<Rightarrow> hub_end \<Rightarrow> bytes \<Rightarrow> bool" where
  "shown_as u v x \<longleftrightarrow>
     (\<exists>i d. submitted_as u KConsensus i d \<and> x = d \<or>
            submitted_as u KMessage i d \<and> x = PutUint32 (UniqId (cs_conn (en_sys v))) @ d)"

definition genuine :: "hub_end \<Rightarrow> hub_end \<Rightarrow> bool" where
  "genuine u v \<longleftrightarrow>
     hand_ok (cs_send (en_sys u)) \<and>
     (\<forall>(k, i, d) \<in> carried (en_sys u). k = KConfirmReply \<or> submitted_as u k i d) \<and>
     (\<forall>f \<in> set (en_sent u).
        (frm_kind f = FMessageConfirmRequest \<longrightarrow> submitted_as u KConsensus (frm_msgId f) (frm_data f)) \<and>
        (frm_kind f = FMessage \<longrightarrow> submitted_as u KMessage (frm_msgId f) (frm_data f))) \<and>
     (\<forall>x \<in> set (en_got v). shown_as u v x)"

lemma frame_for_kind:
  assumes "k = KConfirmReply \<or> k = KMessage \<or> k = KConsensus"
  shows "frm_kind (frame_for k i d) = FMessageConfirmRequest \<longleftrightarrow> k = KConsensus"
    and "frm_kind (frame_for k i d) = FMessage \<longleftrightarrow> k = KMessage"
    and "frm_kind (frame_for k i d) = FConfirmReply \<longleftrightarrow> k = KConfirmReply"
    and "frm_msgId (frame_for k i d) = i" and "frm_data (frame_for k i d) = d"
  using assms by (auto simp: frame_for_def NewFrameWithId_def frame_kind_defs)

lemma submitted_as_mono:
  "set (en_submitted u) \<subseteq> set (en_submitted u') \<Longrightarrow> submitted_as u k i d \<Longrightarrow> submitted_as u' k i d"
  by (auto simp: submitted_as_def)

lemma genuine_sender:
  assumes g: "genuine u v" and st: "end_step C N chainId ps u e = (u', r)"
  shows "genuine u' v"
proof (cases "enabled ps e")
  case True
  from g have hand: "hand_ok (cs_send (en_sys u))" by (simp add: genuine_def)
  note eff = end_step_effect [OF hand st True]
  have mono: "submitted_as u' k i d" if "submitted_as u k i d" for k i d
    by (rule submitted_as_mono [OF _ that]) (simp add: eff(5))
  have carried': "k = KConfirmReply \<or> submitted_as u' k i d" if "(k, i, d) \<in> carried (en_sys u')" for k i d
    using eff(1) that g mono True
    by (fastforce simp: step_effect_def genuine_def submitted_as_def enabled_def eff(5))
  have old: "k = KConfirmReply \<or> submitted_as u' k i d" if "(k, i, d) \<in> carried (en_sys u)" for k i d
    using that g mono by (fastforce simp: genuine_def)
  have sent: "(frm_kind f = FMessageConfirmRequest \<longrightarrow> submitted_as u' KConsensus (frm_msgId f) (frm_data f)) \<and>
      (frm_kind f = FMessage \<longrightarrow> submitted_as u' KMessage (frm_msgId f) (frm_data f))"
    if "f \<in> set (en_sent u')" for f
  proof (cases "f \<in> set (en_sent u)")
    case False
    with that have "f \<in> set (frames_in (acts_of r))" by (simp add: eff(3))
    then obtain st' where "WriteFrame st' f \<in> set (acts_of r)" by (auto simp: frames_in_iff)
    with eff(1) consider "frm_kind f = FSignature \<or> frm_kind f = FGetPeersReply"
      | k i d where "(k, i, d) \<in> carried (en_sys u)" "f = frame_for k i d"
      unfolding step_effect_def by blast
    then show ?thesis
    proof cases
      case 2
      with old [OF 2(1)] have "k = KConfirmReply \<or> k = KMessage \<or> k = KConsensus" by (auto simp: submitted_as_def)
      with 2 old [OF 2(1)] frame_for_kind [of k i d] show ?thesis by auto
    qed (auto simp: frame_kind_defs)
  qed (use g mono in \<open>auto simp: genuine_def\<close>)
  show ?thesis
    using g eff(2) carried' sent mono by (fastforce simp: genuine_def shown_as_def)
qed (use g st in \<open>simp add: end_step_def\<close>)

lemma genuine_receiver:
  assumes g: "genuine u v" and hand: "hand_ok (cs_send (en_sys v))"
    and st: "end_step C N chainId (en_sent u) v e = (v', r)"
  shows "genuine u v'"
proof (cases "enabled (en_sent u) e")
  case True
  note eff = end_step_effect [OF hand st True]
  have "shown_as u v' x" if "x \<in> set (en_got v')" for x
  proof (cases "x \<in> set (en_got v)")
    case False
    with that have "OnMessage x \<in> set (acts_of r)" by (simp add: eff(4) messages_in_iff)
    with eff(1) obtain f where f: "received (en_sys v) e = Some f"
      "frm_kind f = FMessageConfirmRequest \<and> x = frm_data f \<or>
       frm_kind f = FMessage \<and> x = PutUint32 (UniqId (cs_conn (en_sys v))) @ frm_data f"
      by (auto simp: step_effect_def)
    from f(1) True have "f \<in> set (en_sent u)"
      by (auto simp: received_def enabled_def split: conn_event.splits sum.splits recv_pc.splits)
    with f(2) g show ?thesis by (auto simp: genuine_def shown_as_def eff(6))
  qed (use g in \<open>auto simp: genuine_def shown_as_def eff(6)\<close>)
  with g show ?thesis by (simp add: genuine_def)
qed (use g st in \<open>simp add: end_step_def\<close>)

interpretation genuine_link: invariant_machine "link_step C N chainId" "\<lambda>(u, v). genuine u v \<and> genuine v u"
  for C N chainId
proof
  fix w :: "hub_end \<times> hub_end" and ev
  assume "case w of (u, v) \<Rightarrow> genuine u v \<and> genuine v u"
  then obtain u v where w: "w = (u, v)" and g: "genuine u v" "genuine v u" by auto
  then have hand: "hand_ok (cs_send (en_sys u))" "hand_ok (cs_send (en_sys v))" by (simp_all add: genuine_def)
  show "case fst (link_step C N chainId w ev) of (u, v) \<Rightarrow> genuine u v \<and> genuine v u"
    using g hand w
    by (cases ev) (auto simp: link_step_def split: prod.splits intro: genuine_sender genuine_receiver)
qed

lemma genuine_start: "fresh_conn c1 \<Longrightarrow> genuine (new_end n1 c1) (new_end n2 c2)"
  by (simp add: genuine_def new_end_def conn_start_def fresh_conn_def carried_def send_init_ok)
     (simp add: send_init_def)

text \<open>
  C11: messages are not made up or misattributed: whatever the two goroutine pairs and the network do, with
  loss, repetition and reordering, a message a node is given was submitted by the other node to this
  connection: a consensus message unchanged, a plain one behind the number of the connection.
\<close>
theorem delivered_messages_genuine:
  assumes "fresh_conn c1" and "fresh_conn c2"
  shows "let (u, v) = fst (run (link_step C N chainId) (new_end n1 c1, new_end n2 c2) es) in
    \<forall>x \<in> set (en_got v). \<exists>m \<in> set (en_submitted u).
      env_kind m = KConsensus \<and> env_data m = Some x \<or>
      env_kind m = KMessage \<and> (\<exists>d. env_data m = Some d \<and> x = PutUint32 (UniqId (cs_conn (en_sys v))) @ d)"
proof -
  obtain u v where w: "fst (run (link_step C N chainId) (new_end n1 c1, new_end n2 c2) es) = (u, v)" by fastforce
  have "case (u, v) of (u, v) \<Rightarrow> genuine u v \<and> genuine v u"
    unfolding w [symmetric] by (rule genuine_link.run_inv) (simp add: assms genuine_start)
  then show ?thesis unfolding w by (fastforce simp: genuine_def shown_as_def submitted_as_def)
qed

section \<open>Confirmations are truthful\<close>

text \<open>
  A consensus message that the left node submitted under the id \<open>i\<close> has been given to the right node. Ids
  may repeat, as two messages of one clock tick have the same; then this is some message with the id.
\<close>

definition delivered_under :: "u64 \<Rightarrow> hub_end \<Rightarrow> hub_end \<Rightarrow> bool" where
  "delivered_under i u v \<longleftrightarrow>
     (\<exists>m \<in> set (en_submitted u). env_kind m = KConsensus \<and> env_msgId m = i \<and>
        (case env_data m of None \<Rightarrow> False | Some d \<Rightarrow> d \<in> set (en_got v)))"

lemma delivered_under_mono:
  "delivered_under i u v \<Longrightarrow> set (en_submitted u) \<subseteq> set (en_submitted u') \<Longrightarrow> set (en_got v) \<subseteq> set (en_got v') \<Longrightarrow>
   delivered_under i u' v'"
  by (fastforce simp: delivered_under_def split: option.splits)

text \<open>
  Every trace of a confirmation of \<open>i\<close>, from the reply queued at the receiver to the sender's table, is
  preceded by a delivery under that id.
\<close>

definition confirmation_traced :: "u64 \<Rightarrow> hub_end \<Rightarrow> hub_end \<Rightarrow> bool" where
  "confirmation_traced i u v \<longleftrightarrow>
     (\<exists>d'. (KConfirmReply, i, d') \<in> carried (en_sys v)) \<or>
     (\<exists>f \<in> set (en_sent v). frm_kind f = FConfirmReply \<and> frm_msgId f = i) \<or>
     i \<in> confirms (cs_conn (en_sys u))"

definition confirmed_after_delivery :: "u64 \<Rightarrow> hub_end \<Rightarrow> hub_end \<Rightarrow> bool" where
  "confirmed_after_delivery i u v \<longleftrightarrow> (confirmation_traced i u v \<longrightarrow> delivered_under i u v)"

lemma confirmed_sender:
  assumes g: "genuine u v" and c: "confirmed_after_delivery i u v"
    and st: "end_step C N chainId (en_sent v) u e = (u', r)"
  shows "confirmed_after_delivery i u' v"
proof (cases "enabled (en_sent v) e")
  case True
  from g have hand: "hand_ok (cs_send (en_sys u))" by (simp add: genuine_def)
  note eff = end_step_effect [OF hand st True]
  have "confirmation_traced i u v" if "confirmation_traced i u' v"
    using that eff(1) True
    by (fastforce simp: confirmation_traced_def step_effect_def received_def enabled_def
        split: conn_event.splits sum.splits recv_pc.splits)
  with c delivered_under_mono [of i u v u' v] show ?thesis
    by (auto simp: confirmed_after_delivery_def eff(5))
qed (use c st in \<open>simp add: end_step_def\<close>)

lemma confirmed_receiver:
  assumes g: "genuine u v" "genuine v u" and c: "confirmed_after_delivery i u v"
    and st: "end_step C N chainId (en_sent u) v e = (v', r)"
  shows "confirmed_after_delivery i u v'"
proof (cases "enabled (en_sent u) e")
  case True
  from g(2) have hand: "hand_ok (cs_send (en_sys v))" by (simp add: genuine_def)
  note eff = end_step_effect [OF hand st True]
  have reply: "(KConfirmReply, i, d') \<in> carried (en_sys v) \<or> delivered_under i u v'"
    if c': "(KConfirmReply, i, d') \<in> carried (en_sys v')" for d'
  proof -
    from eff(1) c' True consider "(KConfirmReply, i, d') \<in> carried (en_sys v)"
      | f where "received (en_sys v) e = Some f" "frm_kind f = FMessageConfirmRequest" "i = frm_msgId f"
          "OnMessage (frm_data f) \<in> set (acts_of r)"
      by (fastforce simp: step_effect_def enabled_def)
    then show ?thesis
    proof cases
      case 2
      from 2(1) True have "f \<in> set (en_sent u)"
        by (auto simp: received_def enabled_def split: conn_event.splits sum.splits recv_pc.splits)
      with 2(2,3) g(1) have "submitted_as u KConsensus i (frm_data f)" by (auto simp: genuine_def)
      moreover have "frm_data f \<in> set (en_got v')" using 2(4) by (simp add: eff(4) messages_in_iff)
      ultimately show ?thesis by (auto simp: delivered_under_def submitted_as_def split: option.splits)
    qed blast
  qed
  have frame: "(\<exists>g \<in> set (en_sent v). frm_kind g = FConfirmReply \<and> frm_msgId g = i) \<or>
      (\<exists>d'. (KConfirmReply, i, d') \<in> carried (en_sys v))"
    if "f \<in> set (en_sent v')" "frm_kind f = FConfirmReply" "frm_msgId f = i" for f
  proof (cases "f \<in> set (en_sent v)")
    case False
    with that(1) obtain st' where "WriteFrame st' f \<in> set (acts_of r)" by (auto simp: eff(3) frames_in_iff)
    have kinds: "frm_kind f \<noteq> FSignature" "frm_kind f \<noteq> FGetPeersReply" using that(2) by (simp_all add: frame_kind_defs)
    from eff(1) \<open>WriteFrame st' f \<in> set (acts_of r)\<close> obtain k j d' where k: "(k, j, d') \<in> carried (en_sys v)" "f = frame_for k j d'"
      unfolding step_effect_def using kinds by blast
    with g(2) have "k = KConfirmReply \<or> k = KMessage \<or> k = KConsensus" by (auto simp: genuine_def submitted_as_def)
    with k that frame_for_kind [of k j d'] show ?thesis by auto
  qed (use that in blast)
  have "confirmation_traced i u v \<or> delivered_under i u v'" if "confirmation_traced i u v'"
    using that reply frame unfolding confirmation_traced_def by blast
  moreover have "delivered_under i u v'" if "delivered_under i u v"
    using delivered_under_mono [OF that] by (auto simp: eff(4))
  ultimately show ?thesis using c by (auto simp: confirmed_after_delivery_def)
qed (use c st in \<open>simp add: end_step_def\<close>)

definition link_ok :: "u64 \<Rightarrow> hub_end \<times> hub_end \<Rightarrow> bool" where
  "link_ok i w \<longleftrightarrow>
     genuine (fst w) (snd w) \<and> genuine (snd w) (fst w) \<and> confirmed_after_delivery i (fst w) (snd w)"

interpretation confirmed_link: invariant_machine "link_step C N chainId" "link_ok i" for C N chainId i
proof
  fix w :: "hub_end \<times> hub_end" and ev assume ok: "link_ok i w"
  obtain u v where w: "w = (u, v)" by fastforce
  with ok have g: "genuine u v" "genuine v u" and c: "confirmed_after_delivery i u v" by (simp_all add: link_ok_def)
  have "genuine (fst (fst (link_step C N chainId w ev))) (snd (fst (link_step C N chainId w ev))) \<and>
      genuine (snd (fst (link_step C N chainId w ev))) (fst (fst (link_step C N chainId w ev)))"
    using genuine_link.step_inv [of w C N chainId ev] g w by (simp add: case_prod_unfold)
  moreover have "confirmed_after_delivery i (fst (fst (link_step C N chainId w ev))) (snd (fst (link_step C N chainId w ev)))"
    using confirmed_sender [OF g(1) c] confirmed_receiver [OF g c] w
    by (cases ev) (auto simp: link_step_def split: prod.splits)
  ultimately show "link_ok i (fst (link_step C N chainId w ev))" by (simp add: link_ok_def)
qed

lemma link_ok_start: "fresh_conn c1 \<Longrightarrow> fresh_conn c2 \<Longrightarrow> link_ok i (new_end n1 c1, new_end n2 c2)"
  using genuine_start [of c1 n1 n2 c2] genuine_start [of c2 n2 n1 c1]
  by (simp add: link_ok_def confirmed_after_delivery_def confirmation_traced_def new_end_def conn_start_def
        fresh_conn_def confirms_def carried_def)
     (simp add: send_init_def)

lemma confirmed_delivered:
  assumes "fresh_conn c1" and "fresh_conn c2"
    and "fst (run (link_step C N chainId) (new_end n1 c1, new_end n2 c2) es) = (u, v)"
    and "confirmReceived (cs_conn (en_sys u)) i = Some True"
  shows "delivered_under i u v"
proof -
  have "link_ok i (u, v)"
    unfolding assms(3) [symmetric] by (rule confirmed_link.run_inv) (rule link_ok_start [OF assms(1,2)])
  with assms(4) show ?thesis
    by (simp add: link_ok_def confirmed_after_delivery_def confirmation_traced_def confirms_def)
qed

text \<open>
  C5: a confirmation is truthful up to the id: when a hub has recorded the id \<open>i\<close> as confirmed, then its
  node has submitted a consensus message with that id to this connection which the other node has been
  given, whatever the network lost, repeated or reordered. Ids are what is confirmed: when the node used
  one for several messages, which the id generator does within a clock tick, this is one of them, and
  when it used it for one message only, it is that message.
\<close>
theorem confirmed_means_delivered:
  assumes "fresh_conn c1" and "fresh_conn c2"
    and "fst (run (link_step C N chainId) (new_end n1 c1, new_end n2 c2) es) = (u, v)"
    and "confirmReceived (cs_conn (en_sys u)) i = Some True"
  shows "\<exists>m \<in> set (en_submitted u). \<exists>d.
    env_kind m = KConsensus \<and> env_msgId m = i \<and> env_data m = Some d \<and> d \<in> set (en_got v)"
  using confirmed_delivered [OF assms] by (auto simp: delivered_under_def split: option.splits)

section \<open>No consensus message is lost silently\<close>

text \<open>The left send cycle gives up on everything it holds: an attempt fails past the time limit.\<close>

definition gives_up :: "hub_end \<times> hub_end \<Rightarrow> link_event \<Rightarrow> bool" where
  "gives_up w ev \<longleftrightarrow> (case ev of AtLeft e \<Rightarrow> gives_up_at (en_sys (fst w)) e | AtRight e \<Rightarrow> False)"

definition left_sends_ok :: "hub_end \<times> hub_end \<Rightarrow> bool" where
  "left_sends_ok w \<longleftrightarrow> backoffs_ok (cs_send (en_sys (fst w))) \<and> hand_ok (cs_send (en_sys (fst w)))"

lemma link_step_left:
  "en_sys (fst (fst (link_step C N chainId w ev))) = en_sys (fst w) \<or>
   (\<exists>e. ev = AtLeft e \<and> en_sys (fst (fst (link_step C N chainId w ev))) = fst (conn_step C N chainId (en_sys (fst w)) e))"
  by (cases ev) (auto simp: link_step_def end_step_def split: prod.splits)

interpretation link_custody: unless_machine "link_step C N chainId" left_sends_ok
    "\<lambda>w. in_custody m (en_sys (fst w))"
    "\<lambda>w ev. confirmReceived (cs_conn (en_sys (fst w))) (env_msgId m) = Some True \<or> gives_up w ev"
  for C N chainId m
proof
  fix w :: "hub_end \<times> hub_end" and ev assume ok: "left_sends_ok w"
  show "left_sends_ok (fst (link_step C N chainId w ev))"
    using link_step_left [of C N chainId w ev] custody.step_inv [of "en_sys (fst w)" C N chainId] ok
    by (auto simp: left_sends_ok_def)
  assume keeps: "in_custody m (en_sys (fst w))"
  show "in_custody m (en_sys (fst (fst (link_step C N chainId w ev)))) \<or>
      confirmReceived (cs_conn (en_sys (fst w))) (env_msgId m) = Some True \<or> gives_up w ev"
    using link_step_left [of C N chainId w ev] custody.step_unless [of "en_sys (fst w)" m C N chainId] ok keeps
    by (fastforce simp: left_sends_ok_def may_release_def gives_up_def)
qed

text \<open>The records only grow.\<close>

interpretation got_grows: invariant_machine "link_step C N chainId" "\<lambda>w. x \<in> set (en_got (snd w))" for C N chainId x
  by unfold_locales (auto simp: link_step_def end_step_def split: link_event.splits prod.splits)

interpretation submitted_grows: invariant_machine "link_step C N chainId" "\<lambda>w. m \<in> set (en_submitted (fst w))"
  for C N chainId m
  by unfold_locales (auto simp: link_step_def end_step_def split: link_event.splits prod.splits)

lemma run_split: "fst (run step st es) = fst (run step (fst (run step st (take k es))) (drop k es))"
  by (simp flip: run_append(1))

lemma submit_custody:
  assumes "env_kind m = KConsensus" and "env_data m \<noteq> None" and "\<not> isBanned (cs_conn (en_sys (fst w)))"
  shows "in_custody m (en_sys (fst (fst (link_step C N chainId w (AtLeft (EvApiSend m))))))"
  using assms
  by (auto simp: link_step_def end_step_def enabled_def conn_step_def Send_def addToQueue_def MQ_Enqueue_def
      in_custody_def queued_def Let_def split: prod.splits)

text \<open>
  C2: no consensus message disappears between two hubs: once a node has submitted it to a connection that is
  not banned, then whatever the goroutines and the network do afterwards, the connection still has it, or
  the other node has been given a consensus message submitted under its id, or at some step an attempt to
  send failed, without a stream or with a write error, past the two-minute limit. The id is what the
  protocol goes by: when the node gave it to no other message, the one delivered is this one; two messages
  of one clock tick share an id, and then the delivery of either counts for both.
\<close>
theorem consensus_arrives_or_is_kept:
  fixes n1 n2 :: int
  assumes "fresh_conn c1" and "fresh_conn c2"
    and "env_kind m = KConsensus" and "env_data m \<noteq> None"
  defines "w0 \<equiv> (new_end n1 c1, new_end n2 c2)"
  assumes "\<not> isBanned (cs_conn (en_sys (fst (fst (run (link_step C N chainId) w0 before)))))"
    and "fst (run (link_step C N chainId) w0 (before @ AtLeft (EvApiSend m) # after)) = (u, v)"
  shows "in_custody m (en_sys u) \<or>
    (\<exists>m' \<in> set (en_submitted u). \<exists>d.
       env_kind m' = KConsensus \<and> env_msgId m' = env_msgId m \<and> env_data m' = Some d \<and> d \<in> set (en_got v)) \<or>
    (\<exists>k < length after. gives_up
       (fst (run (link_step C N chainId) w0 (before @ AtLeft (EvApiSend m) # take k after))) (after ! k))"
proof -
  let ?run = "\<lambda>w es. fst (run (link_step C N chainId) w es)"
  let ?w1 = "?run w0 (before @ [AtLeft (EvApiSend m)])"
  have split: "?run w0 (before @ AtLeft (EvApiSend m) # es) = ?run ?w1 es" for es
    using run_append [of "link_step C N chainId" w0 "before @ [AtLeft (EvApiSend m)]" es] by simp
  have "left_sends_ok w0"
    by (simp add: w0_def left_sends_ok_def new_end_def conn_start_def send_init_ok)
  then have "left_sends_ok ?w1" by (rule link_custody.run_inv)
  moreover have "in_custody m (en_sys (fst ?w1))"
    using submit_custody [OF assms(3), of "?run w0 before" C N chainId] assms(4,6)
    by (simp add: run_append run_Cons)
  ultimately consider "in_custody m (en_sys (fst (?run ?w1 after)))"
    | k where "k < length after" "gives_up (?run ?w1 (take k after)) (after ! k)"
    | k where "k < length after" "confirmReceived (cs_conn (en_sys (fst (?run ?w1 (take k after))))) (env_msgId m) = Some True"
    using link_custody.run_unless [of ?w1 m C N chainId after] by blast
  then show ?thesis
  proof cases
    case (3 k)
    obtain uk vk where k: "?run ?w1 (take k after) = (uk, vk)" by fastforce
    have "?run ?w1 after = (u, v)" by (rule trans [OF split [symmetric] assms(7)])
    then have last: "?run (uk, vk) (drop k after) = (u, v)"
      by (subst (asm) run_split [of _ _ _ k]) (simp only: k)
    have sub: "set (en_submitted uk) \<subseteq> set (en_submitted u)"
      using submitted_grows.run_inv [of _ "(uk, vk)" C N chainId "drop k after"] last by auto
    have got: "set (en_got vk) \<subseteq> set (en_got v)"
      using got_grows.run_inv [of _ "(uk, vk)" C N chainId "drop k after"] last by auto
    have "?run (new_end n1 c1, new_end n2 c2) (before @ AtLeft (EvApiSend m) # take k after) = (uk, vk)"
      unfolding w0_def [symmetric] by (rule trans [OF split k])
    moreover have "confirmReceived (cs_conn (en_sys uk)) (env_msgId m) = Some True" using 3(2) unfolding k by simp
    ultimately have "delivered_under (env_msgId m) uk vk" by (rule confirmed_delivered [OF assms(1,2)])
    from delivered_under_mono [OF this sub got] show ?thesis
      by (auto simp: delivered_under_def split: option.splits)
  next
    case 1
    with trans [OF split [symmetric] assms(7)] show ?thesis by simp
  next
    case (2 k)
    then show ?thesis unfolding split [of "take k after", symmetric] by blast
  qed
qed

section \<open>One exchange\<close>

text \<open>The left node submits a message, the right side delivers and confirms it.\<close>

definition exchange :: "link_event list" where
  "exchange =
     AtLeft (EvApiSend (NewEnvelopWithId (Some [7]) KConsensus 5)) # replicate 4 (AtLeft (EvSend sample_host)) @
     [AtRight (EvSetInbound sample_stream), AtRight (EvRecv (fail EOF)),
      AtRight (EvRecv (ok (NewFrameWithId FMessageConfirmRequest [7] 5)))] @
     replicate 4 (AtRight (EvSend sample_host)) @
     [AtLeft (EvSetInbound sample_stream), AtLeft (EvRecv (fail EOF)),
      AtLeft (EvRecv (ok (NewFrameWithId FConfirmReply [0] 5)))]"

lemma exchange_confirms:
  "map_prod (\<lambda>u. (confirmReceived (cs_conn (en_sys u)) 5, en_submitted u)) en_got
     (fst (run (link_step toy_crypto toy_net 200)
        (new_end 0 (conn_init [1] ''p'' None 0), new_end 0 (conn_init [2] ''p'' None 0)) exchange)) =
   ((Some True, [NewEnvelopWithId (Some [7]) KConsensus 5]), [[7]])"
  by code_simp

lemma fresh_conn_init: "fresh_conn (conn_init pid protocol my uid)"
  by (simp add: fresh_conn_def NewMessageQueue_def) (simp add: conn_init_def)

lemma delivered_messages_genuine_witness:
  "let (u, v) = fst (run (link_step toy_crypto toy_net 200)
      (new_end 0 (conn_init [1] ''p'' None 0), new_end 0 (conn_init [2] ''p'' None 0)) exchange) in
    \<forall>x \<in> set (en_got v). \<exists>m \<in> set (en_submitted u).
      env_kind m = KConsensus \<and> env_data m = Some x \<or>
      env_kind m = KMessage \<and> (\<exists>d. env_data m = Some d \<and> x = PutUint32 (UniqId (cs_conn (en_sys v))) @ d)"
  by (rule delivered_messages_genuine [OF fresh_conn_init fresh_conn_init])

lemma confirmed_means_delivered_witness:
  "\<exists>u v. fst (run (link_step toy_crypto toy_net 200)
      (new_end 0 (conn_init [1] ''p'' None 0), new_end 0 (conn_init [2] ''p'' None 0)) exchange) = (u, v) \<and>
    confirmReceived (cs_conn (en_sys u)) 5 = Some True \<and> [7] \<in> set (en_got v)"
proof -
  obtain u v where w: "fst (run (link_step toy_crypto toy_net 200)
      (new_end 0 (conn_init [1] ''p'' None 0), new_end 0 (conn_init [2] ''p'' None 0)) exchange) = (u, v)" by fastforce
  with exchange_confirms have c: "confirmReceived (cs_conn (en_sys u)) 5 = Some True"
    "en_submitted u = [NewEnvelopWithId (Some [7]) KConsensus 5]" by simp_all
  have "[7] \<in> set (en_got v)"
    using confirmed_means_delivered [OF fresh_conn_init fresh_conn_init w c(1)] by (simp add: c(2))
  with w c(1) show ?thesis by blast
qed

lemma consensus_arrives_or_is_kept_witness:
  "\<exists>u v. fst (run (link_step toy_crypto toy_net 200)
      (new_end 0 (conn_init [1] ''p'' None 0), new_end 0 (conn_init [2] ''p'' None 0)) exchange) = (u, v) \<and>
    (in_custody (NewEnvelopWithId (Some [7]) KConsensus 5) (en_sys u) \<or>
     (\<exists>m' \<in> set (en_submitted u). \<exists>d. env_kind m' = KConsensus \<and>
        env_msgId m' = env_msgId (NewEnvelopWithId (Some [7]) KConsensus 5) \<and> env_data m' = Some d \<and> d \<in> set (en_got v)) \<or>
     (\<exists>k < length (tl exchange). gives_up
       (fst (run (link_step toy_crypto toy_net 200)
          (new_end 0 (conn_init [1] ''p'' None 0), new_end 0 (conn_init [2] ''p'' None 0))
          ([] @ AtLeft (EvApiSend (NewEnvelopWithId (Some [7]) KConsensus 5)) # take k (tl exchange))))
       (tl exchange ! k)))"
proof -
  obtain u v where w: "fst (run (link_step toy_crypto toy_net 200)
      (new_end 0 (conn_init [1] ''p'' None 0), new_end 0 (conn_init [2] ''p'' None 0)) exchange) = (u, v)" by fastforce
  have e: "[] @ AtLeft (EvApiSend (NewEnvelopWithId (Some [7]) KConsensus 5)) # tl exchange = exchange"
    by (simp add: exchange_def)
  have w': "fst (run (link_step toy_crypto toy_net 200)
      (new_end 0 (conn_init [1] ''p'' None 0), new_end 0 (conn_init [2] ''p'' None 0))
      ([] @ AtLeft (EvApiSend (NewEnvelopWithId (Some [7]) KConsensus 5)) # tl exchange)) = (u, v)"
    unfolding e by (rule w)
  show ?thesis
    by (intro exI conjI, rule w, rule consensus_arrives_or_is_kept [OF fresh_conn_init fresh_conn_init _ _ _ w'])
       (simp_all add: new_end_def conn_start_def)
qed
end
