(* ===== verification/Progress.thy ===== *)
theory Progress
  imports Link
begin

text \<open>
  Liveness of the send cycle: from any point of its loop, when the network works, every message it holds
  is written within a number of steps that depends on its place in the queue only.
\<close>

section \<open>One step at a time\<close>

text \<open>The peer is connected, a stream can be opened and writes succeed.\<close>

definition good :: "host_env \<Rightarrow> bool" where
  "good h \<longleftrightarrow> he_connected h \<and> he_write h = None \<and> (\<exists>s. he_newStream h = Inr s)"

lemma top_step:
  assumes "good h" and "sl_pc l = STop" and "status c \<noteq> Terminated"
  obtains l' c' acts s where "send_machine N (l, c) h = ((l', c'), ok acts)"
    and "sl_pc l' = (if msgToSend l = None then SDequeue else SSend)"
    and "msgToSend l' = msgToSend l" "msgKind l' = msgKind l" "msgId l' = msgId l"
    and "outboundStream c' = Some s" "messageQueue c' = messageQueue c" "status c' \<noteq> Terminated"
    and "confirmReceived c' = confirmReceived c"
proof -
  from assms(1) obtain s where h: "he_connected h" "he_newStream h = Inr s" by (auto simp: good_def)
  obtain c1 err where o: "open_stream h c = (c1, err)" by fastforce
  have c1: "err = None" "\<exists>s. outboundStream c1 = Some s" "messageQueue c1 = messageQueue c"
    "status c1 \<noteq> Terminated" "confirmReceived c1 = confirmReceived c"
    using o h assms(3) by (auto simp: open_stream_def cas_status_def split: if_splits)
  show thesis
    using that o c1 h assms
    by (fastforce simp: send_machine_def send_step_def send_top_def checkOutboundStream_def Let_def split: if_splits)
qed

lemma dequeue_step:
  assumes "sl_pc l = SDequeue" and "mq_list (messageQueue c) = VEnvelop x # q" and "env_data x = Some d"
  shows "send_machine N (l, c) h =
    ((l\<lparr>sl_pc := SSend, msgToSend := Some d, msgKind := env_kind x, msgId := env_msgId x, lastSuccess := he_now h\<rparr>,
      c\<lparr>messageQueue := (messageQueue c)\<lparr>mq_list := q\<rparr>\<rparr>), ok [])"
  using assms by (simp add: send_machine_def send_step_def send_dequeue_def MQ_DequeueOrWait_def)

text \<open>The message is written, unless it is a consensus message that is confirmed.\<close>

lemma write_step:
  assumes "he_write h = None" and "sl_pc l = SSend" and "msgToSend l = Some d" and "outboundStream c = Some s"
  obtains l' c' acts where "send_machine N (l, c) h = ((l', c'), ok acts)"
    and "sl_pc l' = STop" "msgToSend l' = None" "status c' = status c" "confirms c' \<subseteq> confirms c"
    and "mq_list (messageQueue c') = mq_list (messageQueue c) @
      (if msgKind l = KConsensus \<and> msgId l \<notin> confirms c
       then [VEnvelop (NewEnvelopWithId (Some d) KConsensus (msgId l))] else [])"
    and "(s, frame_for (msgKind l) (msgId l) d) \<in> set (writes [ok acts]) \<or>
      msgKind l = KConsensus \<and> msgId l \<in> confirms c"
proof (cases "build_frame l c")
  case None
  then have "msgKind l = KConsensus" "msgId l \<in> confirms c"
    using build_frame_confirmed [OF None] by (simp_all add: confirms_def)
  moreover from None assms have "send_machine N (l, c) h =
      ((clear_message (l\<lparr>attempts := 0, sl_pc := STop, sendBackoff := Millisecond, lastSuccess := he_now h\<rparr>),
        removeMsgIdFromConfirm (msgId l) c), ok [])"
    by (simp add: send_machine_def send_step_def send_write_def clear_message_def Let_def)
  ultimately show thesis
    by (intro that [of "clear_message _" "removeMsgIdFromConfirm (msgId l) c" "[]"])
       (auto simp: clear_message_def removeMsgIdFromConfirm_def confirms_def)
next
  case (Some p)
  then obtain f c1 where f: "build_frame l c = Some (f, c1)" by (cases p) auto
  have c1: "confirms c1 \<subseteq> confirms c" "messageQueue c1 = messageQueue c" "status c1 = status c"
    using build_frame_confirms [OF f] build_frame_custody [OF f] f
    by (auto simp: build_frame_def Let_def addMsgIdToConfirm_def split: if_splits prod.splits)
  have not: "msgKind l = KConsensus \<Longrightarrow> msgId l \<notin> confirms c"
    using f by (auto simp: build_frame_def checkConfirmation_def confirms_def Let_def split: if_splits option.splits)
  let ?l = "clear_message (l\<lparr>attempts := 0, sl_pc := STop, sendBackoff := Millisecond, lastSuccess := he_now h\<rparr>)"
  let ?c = "if msgKind l = KConsensus then addToQueue (NewEnvelopWithId (Some d) KConsensus (msgId l)) c1 else c1"
  have st: "send_machine N (l, c) h = ((?l, ?c), ok [WriteFrame s f, OutboundTPS (length (frm_data f))])"
    using f assms by (simp add: send_machine_def send_step_def send_write_def clear_message_def Let_def)
  have q: "mq_list (messageQueue ?c) = mq_list (messageQueue c) @
      (if msgKind l = KConsensus \<and> msgId l \<notin> confirms c
       then [VEnvelop (NewEnvelopWithId (Some d) KConsensus (msgId l))] else [])"
    using c1 not by (auto simp: addToQueue_def MQ_Enqueue_def)
  have "confirms ?c \<subseteq> confirms c" "status ?c = status c"
    using c1 by (auto simp: addToQueue_def confirms_def)
  with st q build_frame_for [OF f assms(3)] show thesis
    by (intro that [OF st]) (auto simp: clear_message_def)
qed

section \<open>Rounds\<close>

definition queue_is :: "message_envelop list \<Rightarrow> connection \<Rightarrow> bool" where
  "queue_is xs c \<longleftrightarrow> mq_list (messageQueue c) = map VEnvelop xs \<and> (\<forall>x \<in> set xs. env_data x \<noteq> None)"

text \<open>At the top of the loop with nothing in hand.\<close>

definition ready :: "message_envelop list \<Rightarrow> send_local \<times> connection \<Rightarrow> bool" where
  "ready xs st \<longleftrightarrow> sl_pc (fst st) = STop \<and> msgToSend (fst st) = None \<and> status (snd st) \<noteq> Terminated \<and> queue_is xs (snd st)"

text \<open>A message has been dealt with: its frame was written, or it is known to be confirmed.\<close>

definition dealt_with :: "message_envelop \<Rightarrow> u64 set \<Rightarrow> action list go list \<Rightarrow> bool" where
  "dealt_with m confirmed outs \<longleftrightarrow>
     (\<exists>s d. env_data m = Some d \<and> (s, frame_for (env_kind m) (env_msgId m) d) \<in> set (writes outs)) \<or>
     env_kind m = KConsensus \<and> env_msgId m \<in> confirmed"

lemma dealt_with_mono:
  "dealt_with m A outs \<Longrightarrow> A \<subseteq> B \<Longrightarrow> dealt_with m B (pre @ outs @ post)"
  by (auto simp: dealt_with_def writes_append)

lemma send_round:
  assumes "good h" and "sl_pc l = SSend" "msgToSend l = Some d" "outboundStream c = Some s"
    and "status c \<noteq> Terminated" and "queue_is xs c"
  obtains st outs rest where "run (send_machine N) (l, c) [h] = (st, outs)" and "ready (xs @ rest) st"
    and "confirms (snd st) \<subseteq> confirms c"
    and "dealt_with \<lparr>env_kind = msgKind l, env_msgId = msgId l, env_data = Some d\<rparr> (confirms c) outs"
proof -
  have w: "he_write h = None" using assms(1) by (simp add: good_def)
  obtain l2 c2 a2 where 2: "send_machine N (l, c) h = ((l2, c2), ok a2)"
    "sl_pc l2 = STop" "msgToSend l2 = None" "status c2 = status c" "confirms c2 \<subseteq> confirms c"
    "mq_list (messageQueue c2) = mq_list (messageQueue c) @ (if msgKind l = KConsensus \<and> msgId l \<notin> confirms c
       then [VEnvelop (NewEnvelopWithId (Some d) KConsensus (msgId l))] else [])"
    "(s, frame_for (msgKind l) (msgId l) d) \<in> set (writes [ok a2]) \<or> msgKind l = KConsensus \<and> msgId l \<in> confirms c"
    by (rule write_step [where N = N, OF w assms(2-4)])
  have r: "run (send_machine N) (l, c) [h] = ((l2, c2), [ok a2])" using 2(1) by (simp add: run.simps)
  have d: "dealt_with \<lparr>env_kind = msgKind l, env_msgId = msgId l, env_data = Some d\<rparr> (confirms c) [ok a2]"
    using 2(7) by (auto simp: dealt_with_def)
  show thesis
    by (rule that [OF r, where rest = "if msgKind l = KConsensus \<and> msgId l \<notin> confirms c
        then [NewEnvelopWithId (Some d) KConsensus (msgId l)] else []"])
       (use d 2 assms(5,6) in \<open>auto simp: ready_def queue_is_def\<close>)
qed

text \<open>Earlier steps that write nothing can be put in front.\<close>

lemma run_one_more:
  assumes "send_machine N st h = (st', ok a)" and "run (send_machine N) st' hs = (st2, outs)"
  shows "run (send_machine N) st (h # hs) = (st2, ok a # outs)"
  using assms by (simp add: run.simps)

lemma retry_round:
  assumes "good h1" "good h2" and "sl_pc l = STop" "msgToSend l = Some d" and "status c \<noteq> Terminated"
    and "queue_is xs c"
  obtains st outs rest where "run (send_machine N) (l, c) [h1, h2] = (st, outs)" and "ready (xs @ rest) st"
    and "confirms (snd st) \<subseteq> confirms c"
    and "dealt_with \<lparr>env_kind = msgKind l, env_msgId = msgId l, env_data = Some d\<rparr> (confirms c) outs"
proof -
  obtain l1 c1 a1 s where 1: "send_machine N (l, c) h1 = ((l1, c1), ok a1)" "sl_pc l1 = SSend"
    "msgToSend l1 = Some d" "msgKind l1 = msgKind l" "msgId l1 = msgId l" "outboundStream c1 = Some s"
    "messageQueue c1 = messageQueue c" "status c1 \<noteq> Terminated" "confirms c1 = confirms c"
    by (rule top_step [where N = N, OF assms(1,3,5)]) (use assms(4) in \<open>simp add: confirms_def\<close>)
  have "queue_is xs c1" using assms(6) 1(7) by (simp add: queue_is_def)
  from send_round [where N = N, OF assms(2) 1(2,3,6,8) this] obtain st outs rest where
    2: "run (send_machine N) (l1, c1) [h2] = (st, outs)" "ready (xs @ rest) st" "confirms (snd st) \<subseteq> confirms c1"
    "dealt_with \<lparr>env_kind = msgKind l1, env_msgId = msgId l1, env_data = Some d\<rparr> (confirms c1) outs" by blast
  show thesis
    by (rule that [OF run_one_more [OF 1(1) 2(1)] 2(2)])
       (use 2(3) dealt_with_mono [OF 2(4) subset_refl, of "[ok a1]" "[]"] in \<open>simp_all add: 1\<close>)
qed

lemma dequeue_round:
  assumes "good h2" and "sl_pc l = SDequeue" and "outboundStream c = Some s"
    and "status c \<noteq> Terminated" and "queue_is (x # xs) c"
  obtains st outs rest where "run (send_machine N) (l, c) [h1, h2] = (st, outs)" and "ready (xs @ rest) st"
    and "confirms (snd st) \<subseteq> confirms c" and "dealt_with x (confirms c) outs"
proof -
  from assms(5) obtain d where x: "mq_list (messageQueue c) = VEnvelop x # map VEnvelop xs" "env_data x = Some d"
    by (auto simp: queue_is_def)
  let ?l = "l\<lparr>sl_pc := SSend, msgToSend := Some d, msgKind := env_kind x, msgId := env_msgId x, lastSuccess := he_now h1\<rparr>"
  let ?c = "c\<lparr>messageQueue := (messageQueue c)\<lparr>mq_list := map VEnvelop xs\<rparr>\<rparr>"
  have conf: "confirms ?c = confirms c" by (simp add: confirms_def)
  have "queue_is xs ?c" using assms(5) by (simp add: queue_is_def)
  moreover have "sl_pc ?l = SSend" "msgToSend ?l = Some d" "outboundStream ?c = Some s" "status ?c \<noteq> Terminated"
    using assms(3,4) by simp_all
  ultimately obtain st outs rest where
    2: "run (send_machine N) (?l, ?c) [h2] = (st, outs)" "ready (xs @ rest) st" "confirms (snd st) \<subseteq> confirms ?c"
    "dealt_with \<lparr>env_kind = msgKind ?l, env_msgId = msgId ?l, env_data = Some d\<rparr> (confirms ?c) outs"
    using send_round [where N = N and l = ?l and c = ?c, OF assms(1)] by blast
  have "dealt_with x (confirms c) outs" using 2(4) x(2) unfolding conf by (simp add: dealt_with_def)
  from dealt_with_mono [OF this subset_refl, of "[ok []]" "[]"]
  show thesis
    by (intro that [OF run_one_more [OF dequeue_step [OF assms(2) x] 2(1)] 2(2)])
       (use 2(3) in \<open>simp_all add: conf\<close>)
qed

lemma ready_round:
  assumes "good h1" "good h3" and "ready (x # xs) (l, c)"
  obtains st outs rest where "run (send_machine N) (l, c) [h1, h2, h3] = (st, outs)" and "ready (xs @ rest) st"
    and "confirms (snd st) \<subseteq> confirms c" and "dealt_with x (confirms c) outs"
proof -
  have pre: "sl_pc l = STop" "status c \<noteq> Terminated" "msgToSend l = None" "queue_is (x # xs) c"
    using assms(3) by (simp_all add: ready_def)
  obtain l1 c1 a1 s where 1: "send_machine N (l, c) h1 = ((l1, c1), ok a1)" "sl_pc l1 = SDequeue"
    "outboundStream c1 = Some s" "messageQueue c1 = messageQueue c" "status c1 \<noteq> Terminated" "confirms c1 = confirms c"
    by (rule top_step [where N = N, OF assms(1) pre(1,2)]) (use pre(3) in \<open>simp add: confirms_def\<close>)
  have "queue_is (x # xs) c1" using pre(4) 1(4) by (simp add: queue_is_def)
  from dequeue_round [where N = N and ?h1.0 = h2, OF assms(2) 1(2,3,5) this] obtain st outs rest where
    2: "run (send_machine N) (l1, c1) [h2, h3] = (st, outs)" "ready (xs @ rest) st" "confirms (snd st) \<subseteq> confirms c1"
    "dealt_with x (confirms c1) outs" by blast
  show thesis
    by (rule that [OF run_one_more [OF 1(1) 2(1)] 2(2)])
       (use 2(3) dealt_with_mono [OF 2(4) subset_refl, of "[ok a1]" "[]"] in \<open>simp_all add: 1\<close>)
qed

text \<open>The message at place \<open>n\<close> is dealt with in round \<open>n\<close>.\<close>

lemma rounds:
  "ready xs (l, c) \<Longrightarrow> n < length xs \<Longrightarrow> list_all good hs \<Longrightarrow> 3 * Suc n \<le> length hs \<Longrightarrow>
   dealt_with (xs ! n) (confirms c) (snd (run (send_machine N) (l, c) hs))"
proof (induction n arbitrary: xs l c hs)
  case 0
  then obtain x ys where xs: "xs = x # ys" by (cases xs) auto
  from 0(4) obtain h1 h2 h3 hs' where hs: "hs = [h1, h2, h3] @ hs'"
    by (auto simp: Suc_le_length_iff numeral_3_eq_3)
  with 0 xs have g: "good h1" "good h3" "ready (x # ys) (l, c)" by simp_all
  from ready_round [where N = N and ?h2.0 = h2, OF g] obtain st outs where
    "run (send_machine N) (l, c) [h1, h2, h3] = (st, outs)" "dealt_with x (confirms c) outs" by blast
  then show ?case unfolding hs xs run_append using dealt_with_mono [of x "confirms c" outs "confirms c" "[]"] by simp
next
  case (Suc n)
  then obtain x ys where xs: "xs = x # ys" by (cases xs) auto
  from Suc.prems(4) obtain h1 h2 h3 hs' where hs: "hs = [h1, h2, h3] @ hs'"
    by (auto simp: Suc_le_length_iff numeral_3_eq_3)
  with Suc.prems xs have g: "good h1" "good h3" "ready (x # ys) (l, c)" by simp_all
  obtain st outs rest where
    "run (send_machine N) (l, c) [h1, h2, h3] = (st, outs)" "ready (ys @ rest) st" "confirms (snd st) \<subseteq> confirms c"
    by (rule ready_round [where N = N and ?h2.0 = h2, OF g])
  then obtain l' c' where
    r: "run (send_machine N) (l, c) [h1, h2, h3] = ((l', c'), outs)" "ready (ys @ rest) (l', c')" "confirms c' \<subseteq> confirms c"
    by (cases st) auto
  have "n < length (ys @ rest)" "list_all good hs'" "3 * Suc n \<le> length hs'"
    using Suc.prems(2-4) hs xs by simp_all
  from dealt_with_mono [OF Suc.IH [OF r(2) this] r(3), of outs "[]"]
  have "dealt_with ((ys @ rest) ! n) (confirms c) (snd (run (send_machine N) (l, c) hs))"
    unfolding hs run_append r(1) by simp
  moreover have "(ys @ rest) ! n = xs ! Suc n" using Suc.prems(2) xs by (simp add: nth_append)
  ultimately show ?case by simp
qed

section \<open>From any point of the loop\<close>

text \<open>Past the check of the stream the send cycle has one.\<close>

definition stream_ok :: "send_local \<Rightarrow> connection \<Rightarrow> bool" where
  "stream_ok l c \<longleftrightarrow> (sl_pc l = SDequeue \<or> sl_pc l = SSend \<longrightarrow> outboundStream c \<noteq> None)"

text \<open>What is left after a first round, and how much of it has been dealt with.\<close>

lemma after_round:
  assumes "run (send_machine N) (l, c) hs1 = (st, outs)" and "ready (ys @ rest) st" and "confirms (snd st) \<subseteq> confirms c"
    and "n < length ys" and "list_all good hs2" and "3 * Suc n \<le> length hs2"
  shows "dealt_with (ys ! n) (confirms c) (snd (run (send_machine N) (l, c) (hs1 @ hs2)))"
proof -
  obtain l' c' where st: "st = (l', c')" by fastforce
  have "n < length (ys @ rest)" using assms(4) by simp
  from dealt_with_mono [OF rounds [OF assms(2) [unfolded st] this assms(5,6)] assms(3) [unfolded st snd_conv], where pre = outs and post = "[]"]
  show ?thesis using assms(1,4) by (simp add: run_append(2) st nth_append)
qed

lemma first_round:
  assumes "run (send_machine N) st hs1 = (st', outs)" and "dealt_with x A outs"
  shows "dealt_with x A (snd (run (send_machine N) st (hs1 @ hs2)))"
  using dealt_with_mono [OF assms(2) subset_refl, of "[]"] assms(1) by (simp add: run_append(2))

lemma hand_message:
  assumes "queue_is xs c" and "hand_ok l" and "status c \<noteq> Terminated" and "stream_ok l c"
    and "msgToSend l = Some d" and "sl_pc l \<noteq> SDone" and "good h1" "good h2" and "list_all good hs"
  shows "dealt_with \<lparr>env_kind = msgKind l, env_msgId = msgId l, env_data = Some d\<rparr> (confirms c)
      (snd (run (send_machine N) (l, c) (h1 # h2 # hs))) \<and>
    (\<forall>n < length xs. 3 * Suc n \<le> length hs \<longrightarrow>
       dealt_with (xs ! n) (confirms c) (snd (run (send_machine N) (l, c) (h1 # h2 # hs))))"
proof -
  consider "sl_pc l = STop" | s where "sl_pc l = SSend" "outboundStream c = Some s"
    using assms(2,4-6) by (cases "sl_pc l") (auto simp: hand_ok_def stream_ok_def)
  then show ?thesis
  proof cases
    case 1
    obtain st outs rest where r: "run (send_machine N) (l, c) [h1, h2] = (st, outs)" "ready (xs @ rest) st"
      "confirms (snd st) \<subseteq> confirms c"
      "dealt_with \<lparr>env_kind = msgKind l, env_msgId = msgId l, env_data = Some d\<rparr> (confirms c) outs"
      by (rule retry_round [where N = N, OF assms(7,8) 1 assms(5,3,1)])
    show ?thesis
      using first_round [OF r(1,4), of hs] after_round [OF r(1-3) _ assms(9)] by simp
  next
    case (2 s)
    obtain st outs rest where r: "run (send_machine N) (l, c) [h1] = (st, outs)" "ready (xs @ rest) st"
      "confirms (snd st) \<subseteq> confirms c"
      "dealt_with \<lparr>env_kind = msgKind l, env_msgId = msgId l, env_data = Some d\<rparr> (confirms c) outs"
      by (rule send_round [where N = N, OF assms(7) 2(1) assms(5) 2(2) assms(3,1)])
    show ?thesis
      using first_round [OF r(1,4), of "h2 # hs"] after_round [OF r(1-3), of _ "h2 # hs"] assms(8,9) by simp
  qed
qed

lemma queued_message:
  assumes "queue_is xs c" and "hand_ok l" and "status c \<noteq> Terminated" and "stream_ok l c"
    and "msgToSend l = None" and "sl_pc l \<noteq> SDone" and "good h1" "good h2" and "list_all good hs"
    and "n < length xs" and "3 * Suc n \<le> length hs"
  shows "dealt_with (xs ! n) (confirms c) (snd (run (send_machine N) (l, c) (h1 # h2 # hs)))"
proof (cases "sl_pc l")
  case SStart
  let ?st = "(l\<lparr>sl_pc := STop\<rparr>, c\<lparr>signatureSent := False\<rparr>)"
  have "send_machine N (l, c) h1 = (?st, ok [])" using SStart by (simp add: send_machine_def send_step_def)
  then have "run (send_machine N) (l, c) [h1] = (?st, [ok []])" by (simp add: run.simps)
  moreover have "ready (xs @ []) ?st" using assms(1,3,5) by (simp add: ready_def queue_is_def)
  ultimately have "dealt_with (xs ! n) (confirms c) (snd (run (send_machine N) (l, c) ([h1] @ h2 # hs)))"
    by (rule after_round) (use assms(8-11) in \<open>simp_all add: confirms_def\<close>)
  then show ?thesis by simp
next
  case STop
  have "ready xs (l, c)" using STop assms(1,3,5) by (simp add: ready_def)
  then show ?thesis by (rule rounds) (use assms(7-11) in simp_all)
next
  case SDequeue
  then obtain s where s: "outboundStream c = Some s" using assms(4) by (auto simp: stream_ok_def)
  obtain x ys where xs: "xs = x # ys" using assms(10) by (cases xs) auto
  obtain st outs rest where r: "run (send_machine N) (l, c) [h1, h2] = (st, outs)" "ready (ys @ rest) st"
    "confirms (snd st) \<subseteq> confirms c" "dealt_with x (confirms c) outs"
    by (rule dequeue_round [where N = N and ?h1.0 = h1, OF assms(8) SDequeue s assms(3) assms(1) [unfolded xs]])
  show ?thesis
  proof (cases n)
    case 0
    then show ?thesis using first_round [OF r(1,4), of hs] xs by simp
  next
    case (Suc k)
    then show ?thesis using after_round [OF r(1-3) _ assms(9), of k] assms(10,11) xs by simp
  qed
qed (use assms in \<open>auto simp: hand_ok_def\<close>)

text \<open>
  C6: the send cycle makes progress: from any point of its loop on a connection that is not terminated, as
  soon as the peer is reachable and writes succeed, the message in hand is written within two steps and
  the message at place \<open>n\<close> of the queue within \<open>3 * n + 5\<close>, however many there are; a consensus message
  is left out only if its confirmation is recorded.
\<close>
theorem held_messages_go_out:
  assumes "queue_is xs c" and "hand_ok l" and "status c \<noteq> Terminated" and "stream_ok l c" and "sl_pc l \<noteq> SDone"
    and "list_all good hs"
  shows "(\<forall>d. msgToSend l = Some d \<and> 2 \<le> length hs \<longrightarrow>
      dealt_with \<lparr>env_kind = msgKind l, env_msgId = msgId l, env_data = Some d\<rparr> (confirms c)
        (snd (run (send_machine N) (l, c) hs))) \<and>
    (\<forall>n < length xs. 3 * n + 5 \<le> length hs \<longrightarrow>
      dealt_with (xs ! n) (confirms c) (snd (run (send_machine N) (l, c) hs)))"
proof (cases "2 \<le> length hs")
  case True
  then obtain h1 h2 hs' where hs: "hs = h1 # h2 # hs'"
    by (cases hs; cases "tl hs") auto
  with assms(6) have g: "good h1" "good h2" "list_all good hs'" by simp_all
  show ?thesis
    using hand_message [OF assms(1-4) _ assms(5) g] queued_message [OF assms(1-4) _ assms(5) g] hs
    by (cases "msgToSend l") simp_all
qed simp

definition stuck_retry :: "send_local \<times> connection" where
  "stuck_retry =
     ((send_init 0)\<lparr>sl_pc := STop, msgToSend := Some [7], msgKind := KConsensus, msgId := 5\<rparr>,
      Send (NewEnvelopWithId (Some [8]) KMessage 6) (conn_init [1] ''p'' None 0))"

lemma held_messages_go_out_witness:
  "dealt_with \<lparr>env_kind = KConsensus, env_msgId = 5, env_data = Some [7]\<rparr> {}
     (snd (run (send_machine toy_net) stuck_retry (replicate 5 sample_host))) \<and>
   dealt_with (NewEnvelopWithId (Some [8]) KMessage 6) {}
     (snd (run (send_machine toy_net) stuck_retry (replicate 5 sample_host)))"
proof -
  let ?c = "Send (NewEnvelopWithId (Some [8]) KMessage 6) (conn_init [1] ''p'' None 0)"
  let ?l = "(send_init 0)\<lparr>sl_pc := STop, msgToSend := Some [7], msgKind := KConsensus, msgId := 5\<rparr>"
  have c: "queue_is [NewEnvelopWithId (Some [8]) KMessage 6] ?c" "status ?c \<noteq> Terminated" "confirms ?c = {}"
    by (simp_all add: queue_is_def confirms_def Send_def addToQueue_def MQ_Enqueue_def NewMessageQueue_def)
       (simp_all add: conn_init_def)
  have l: "hand_ok ?l" "stream_ok ?l ?c" "sl_pc ?l \<noteq> SDone" by (simp_all add: hand_ok_def stream_ok_def send_init_def)
  have "list_all good (replicate 5 sample_host)" by (simp add: list_all_iff good_def sample_host_def)
  from held_messages_go_out [OF c(1) l(1) c(2) l(2,3) this, of toy_net] show ?thesis
    by (simp add: c(3) stuck_retry_def)
qed
end
