(* ===== verification/Status.thy ===== *)
theory Status
  imports Connection
begin

text \<open>
  The status word of \<^verbatim>\<open>peer_service/connection/connection.go\<close> at the grain of its atomic accesses.
  \<open>conn_step\<close> takes a method's test of the status and its two \<open>CAS\<close> calls as one step; here any
  number of method calls run side by side and every load, \<open>CAS\<close> and store is a step of its own, so
  that a \<open>Terminate\<close> may fall between the test of a method and its \<open>CAS\<close>. The properties: the status
  still follows its graph, and a method that is not interrupted does what the connection model says.
\<close>

section \<open>The accesses of the methods\<close>

text \<open>A load that makes the method return on \<open>Terminated\<close>, a compare-and-swap, a store.\<close>

datatype access = ReturnIfTerminated | Cas status status | Put status

definition SetInboundStream_accesses :: "access list" where
  "SetInboundStream_accesses =
     [ReturnIfTerminated, Cas NotConnected JustConnected, Cas HandshakeComplete JustConnected]"

text \<open>Where \<open>checkOutboundStream\<close> has opened a stream.\<close>

definition checkOutboundStream_accesses :: "access list" where
  "checkOutboundStream_accesses = [Cas NotConnected JustConnected, Cas HandshakeComplete JustConnected]"

definition handleSignature_accesses :: "access list" where
  "handleSignature_accesses =
     [ReturnIfTerminated, Cas NotConnected HandshakeComplete, Cas JustConnected HandshakeComplete]"

definition TrySetPeerPublicKey_accesses :: "access list" where
  "TrySetPeerPublicKey_accesses =
     [ReturnIfTerminated, Cas NotConnected HandshakeComplete, Cas JustConnected HandshakeComplete]"

definition Terminate_accesses :: "access list" where
  "Terminate_accesses = [Put Terminated]"

lemmas accesses_defs =
  SetInboundStream_accesses_def checkOutboundStream_accesses_def handleSignature_accesses_def
  TrySetPeerPublicKey_accesses_def Terminate_accesses_def

datatype caller = InSetInboundStream | InCheckOutboundStream | InHandleSignature | InTrySetPeerPublicKey | InTerminate

fun accesses :: "caller \<Rightarrow> access list" where
  "accesses InSetInboundStream = SetInboundStream_accesses"
| "accesses InCheckOutboundStream = checkOutboundStream_accesses"
| "accesses InHandleSignature = handleSignature_accesses"
| "accesses InTrySetPeerPublicKey = TrySetPeerPublicKey_accesses"
| "accesses InTerminate = Terminate_accesses"

text \<open>One access: the status and what is left of the method.\<close>

fun do_access :: "access \<Rightarrow> access list \<Rightarrow> status \<Rightarrow> status \<times> access list" where
  "do_access ReturnIfTerminated rest s = (s, if s = Terminated then [] else rest)"
| "do_access (Cas old new) rest s = (if s = old then new else s, rest)"
| "do_access (Put new) rest s = (new, rest)"

text \<open>A method alone.\<close>

fun alone :: "access list \<Rightarrow> status \<Rightarrow> status" where
  "alone [] s = s"
| "alone (ReturnIfTerminated # rest) s = (if s = Terminated then s else alone rest s)"
| "alone (Cas old new # rest) s = alone rest (if s = old then new else s)"
| "alone (Put new # rest) s = alone rest new"

section \<open>Calls side by side\<close>

text \<open>
  A method is called, a call makes its next access, or it returns early, as the methods do on every
  error between their test and their \<open>CAS\<close>. The calls under way are a list of remaining accesses.
\<close>

datatype status_event = Call caller | Access nat | ReturnEarly nat

type_synonym status_calls = "status \<times> access list list"

definition status_step :: "status_calls \<Rightarrow> status_event \<Rightarrow> status_calls \<times> unit" where
  "status_step w e =
     (case w of (s, calls) \<Rightarrow>
       ((case e of
           Call m \<Rightarrow> (s, calls @ [accesses m])
         | Access i \<Rightarrow>
             (if i < length calls
              then (case calls ! i of
                      [] \<Rightarrow> (s, calls)
                    | a # rest \<Rightarrow> (case do_access a rest s of (s', rest') \<Rightarrow> (s', calls[i := rest'])))
              else (s, calls))
         | ReturnEarly i \<Rightarrow> (s, (if i < length calls then calls[i := []] else calls))), ()))"

text \<open>What a call has left is the end of some method.\<close>

definition method_part :: "access list \<Rightarrow> bool" where
  "method_part as \<longleftrightarrow> (\<exists>m k. as = drop k (accesses m))"

definition parts_of_methods :: "status_calls \<Rightarrow> bool" where
  "parts_of_methods w \<longleftrightarrow> (\<forall>as \<in> set (snd w). method_part as)"

lemma method_part_Nil [simp]: "method_part []"
  unfolding method_part_def by (metis drop_all order_refl)

lemma method_part_whole [simp]: "method_part (accesses m)"
  unfolding method_part_def by (metis drop_0)

lemma method_part_Cons:
  assumes "method_part (a # rest)"
  shows "method_part rest" and "\<exists>m. a \<in> set (accesses m)"
proof -
  from assms obtain m k where mk: "drop k (accesses m) = a # rest" by (auto simp: method_part_def)
  then have "rest = drop (Suc k) (accesses m)" by (metis drop_Suc list.sel(3) tl_drop)
  then show "method_part rest" by (auto simp: method_part_def)
  show "\<exists>m. a \<in> set (accesses m)" using mk by (metis in_set_dropD list.set_intros(1))
qed

lemma access_next:
  assumes "method_part (a # rest)"
  shows "fst (do_access a rest s) = s \<or> status_next s (fst (do_access a rest s))"
proof -
  from method_part_Cons(2) [OF assms] obtain m where "a \<in> set (accesses m)" by blast
  then show ?thesis by (cases m; cases s) (auto simp: accesses_defs status_next_iff)
qed

lemma access_part: "method_part (a # rest) \<Longrightarrow> method_part (snd (do_access a rest s))"
  by (cases a) (auto dest: method_part_Cons(1))

lemma parts_update: "parts_of_methods (s, calls) \<Longrightarrow> method_part as \<Longrightarrow> parts_of_methods (s', calls[i := as])"
  by (auto simp: parts_of_methods_def dest!: set_update_subset_insert [THEN subsetD])

lemma parts_at: "parts_of_methods (s, calls) \<Longrightarrow> i < length calls \<Longrightarrow> method_part (calls ! i)"
  by (simp add: parts_of_methods_def)

interpretation methods_run: invariant_machine status_step parts_of_methods
proof
  fix w :: status_calls and e assume ok: "parts_of_methods w"
  obtain s calls where w: "w = (s, calls)" by fastforce
  show "parts_of_methods (fst (status_step w e))"
  proof (cases e)
    case (Call m)
    with ok w show ?thesis by (auto simp: parts_of_methods_def status_step_def)
  next
    case (Access i)
    show ?thesis
    proof (cases "i < length calls \<and> calls ! i \<noteq> []")
      case True
      then obtain a rest where hd: "calls ! i = a # rest" by (cases "calls ! i") auto
      with True parts_at [of s calls i] ok w have "method_part (a # rest)" by simp
      from parts_update [OF ok [unfolded w] access_part [OF this]] True hd w Access show ?thesis
        by (simp add: status_step_def case_prod_unfold)
    qed (use ok w Access in \<open>auto simp: status_step_def split: list.splits\<close>)
  next
    case (ReturnEarly i)
    with ok w parts_update [OF ok [unfolded w] method_part_Nil] show ?thesis
      by (auto simp: status_step_def)
  qed
qed

lemma status_step_next:
  assumes "parts_of_methods w"
  shows "fst (fst (status_step w e)) = fst w \<or> status_next (fst w) (fst (fst (status_step w e)))"
proof (cases e)
  case (Access i)
  obtain s calls where w: "w = (s, calls)" by fastforce
  show ?thesis
  proof (cases "i < length calls \<and> calls ! i \<noteq> []")
    case True
    then obtain a rest where hd: "calls ! i = a # rest" by (cases "calls ! i") auto
    with True parts_at [of s calls i] assms w have "method_part (a # rest)" by simp
    from access_next [OF this, of s] True hd w Access show ?thesis
      by (simp add: status_step_def case_prod_unfold)
  qed (use w Access in \<open>auto simp: status_step_def split: list.splits\<close>)
qed (auto simp: status_step_def split: prod.splits)

interpretation ended_status: invariant_machine status_step "\<lambda>w. parts_of_methods w \<and> fst w = Terminated"
proof
  fix w :: status_calls and e assume ok: "parts_of_methods w \<and> fst w = Terminated"
  with methods_run.step_inv [of w e] status_step_next [of w e]
  show "parts_of_methods (fst (status_step w e)) \<and> fst (fst (status_step w e)) = Terminated"
    by (auto simp: status_next_iff)
qed

text \<open>An uninterrupted call in the machine is the method alone.\<close>

lemma alone_steps:
  "i < length calls \<Longrightarrow> calls ! i = as \<Longrightarrow>
   fst (fst (run status_step (s, calls) (replicate (length as) (Access i)))) = alone as s"
proof (induction as arbitrary: s calls)
  case (Cons a as)
  obtain s' rest where d: "do_access a as s = (s', rest)" by fastforce
  with Cons.prems have step: "fst (status_step (s, calls) (Access i)) = (s', calls[i := rest])"
    by (simp add: status_step_def)
  show ?case
  proof (cases "rest = as")
    case True
    with Cons.IH [of "calls[i := rest]" s'] Cons.prems step d show ?thesis
      by (cases a) (auto simp: run_Cons split: if_splits)
  next
    case False
    with d have t: "s' = s" "rest = []" "s = Terminated" "a = ReturnIfTerminated"
      by (cases a; auto split: if_splits)+
    have idle: "fst (run status_step (s, calls[i := []]) (replicate n (Access i))) = (s, calls[i := []])" for n
      by (induction n) (simp_all add: run_Cons status_step_def)
    from t step idle show ?thesis by (simp add: run_Cons)
  qed
qed simp

section \<open>Properties\<close>

text \<open>
  C29: the status follows its graph at the grain of its atomic accesses: however the loads, \<open>CAS\<close> calls and
  stores of any number of method calls are interleaved, and wherever calls return early, every single
  access leaves the status or takes one transition of \<open>status_next\<close> (a stream opens or is renewed, a key
  becomes known, the connection is terminated), and a terminated connection stays so, although a call
  that tested the status before \<open>Terminate\<close> may still reach its \<open>CAS\<close>. A call that nothing interrupts
  changes the status as the method of the connection model does.
\<close>
theorem status_accesses_follow_graph:
  fixes es :: "status_event list" and s :: status
  defines "status_after \<equiv> \<lambda>n. fst (fst (run status_step (s, []) (take n es)))"
  shows "(\<forall>n < length es. status_after (Suc n) = status_after n \<or> status_next (status_after n) (status_after (Suc n))) \<and>
    (\<forall>n k. status_after n = Terminated \<longrightarrow> status_after (n + k) = Terminated) \<and>
    status (fst (SetInboundStream st c)) = alone SetInboundStream_accesses (status c) \<and>
    status (fst (open_stream (h\<lparr>he_newStream := Inr st\<rparr>) (c\<lparr>outboundStream := None\<rparr>))) =
      alone checkOutboundStream_accesses (status c) \<and>
    status (handshake_done c) = alone handleSignature_accesses (status c) \<and>
    status (handshake_done c) = alone TrySetPeerPublicKey_accesses (status c) \<and>
    status (fst (Terminate r c)) = alone Terminate_accesses (status c)"
proof -
  have ok: "parts_of_methods (fst (run status_step (s, []) es'))" for es'
    by (rule methods_run.run_inv) (simp add: parts_of_methods_def)
  have step: "status_after (Suc n) = status_after n \<or> status_next (status_after n) (status_after (Suc n))"
    if "n < length es" for n
    using status_step_next [OF ok, of "take n es" "es ! n"] that
    by (simp add: status_after_def take_Suc_conv_app_nth run_append run_Cons)
  have "status_after (n + k) = Terminated" if "status_after n = Terminated" for n k
  proof -
    have "take (n + k) es = take n es @ take k (drop n es)" by (rule take_add)
    with ended_status.run_inv [of "fst (run status_step (s, []) (take n es))" "take k (drop n es)"] ok that show ?thesis
      by (simp add: status_after_def run_append)
  qed
  moreover have "status (fst (SetInboundStream st c)) = alone SetInboundStream_accesses (status c)"
    by (cases "status c") (simp_all add: SetInboundStream_def cas_status_def accesses_defs)
  moreover have "status (fst (open_stream (h\<lparr>he_newStream := Inr st\<rparr>) (c\<lparr>outboundStream := None\<rparr>))) =
      alone checkOutboundStream_accesses (status c)"
    by (cases "status c") (simp_all add: open_stream_def cas_status_def accesses_defs)
  moreover have "status (handshake_done c) = alone handleSignature_accesses (status c)"
    "status (handshake_done c) = alone TrySetPeerPublicKey_accesses (status c)"
    by (cases "status c"; simp add: handshake_done_def cas_status_def accesses_defs)+
  ultimately show ?thesis using step by (simp add: accesses_defs)
qed

text \<open>A \<open>Terminate\<close> between the test of \<open>handleSignature\<close> and its two \<open>CAS\<close> calls: they fail.\<close>

lemma status_accesses_follow_graph_witness:
  "let es = [Call InHandleSignature, Access 0, Call InTerminate, Access 1, Access 0, Access 0];
       status_after = (\<lambda>n. fst (fst (run status_step (JustConnected, []) (take n es)))) in
   status_after 2 = JustConnected \<and> status_after 4 = Terminated \<and> status_after 6 = Terminated"
proof -
  let ?es = "[Call InHandleSignature, Access 0, Call InTerminate, Access 1, Access 0, Access 0]"
  have 4: "fst (fst (run status_step (JustConnected, []) (take 4 ?es))) = Terminated"
    and 2: "fst (fst (run status_step (JustConnected, []) (take 2 ?es))) = JustConnected"
    by code_simp+
  have "fst (fst (run status_step (JustConnected, []) (take (4 + 2) ?es))) = Terminated"
    using status_accesses_follow_graph [where es = ?es and s = JustConnected] 4 by blast
  with 2 4 show ?thesis by simp
qed

end
