(* ===== verification/Grpc_Gen.thy ===== *)
theory Grpc_Gen
  imports Protocol_Match "HOL-Library.Multiset"
begin

text \<open>
  The code generator of \<^verbatim>\<open>cmd/protoc-gen-go-grpc\<close>: \<^verbatim>\<open>grpc.go\<close> and the loop of \<^verbatim>\<open>main.go\<close>. It walks over
  the services of a protobuf file and prints a Go file with the client stubs, the server interface,
  the handlers and the service descriptor.

  The package \<open>protogen\<close> is a parameter: how an identifier of another package is written and how a
  leading comment is printed. A call of \<open>g.P\<close> or \<open>g.Annotate\<close> is an element of the list a function
  returns, in the order of the calls; \<open>g.P\<close> prints its arguments one after the other and a newline.
\<close>

section \<open>Descriptors and output\<close>

record go_ident =
  gi_GoName :: string
  gi_GoImportPath :: string

type_synonym location = "string \<times> int list"

record proto_method =
  pm_GoName :: string
  pm_Name :: string
  pm_Input :: go_ident
  pm_Output :: go_ident
  pm_StreamingClient :: bool
  pm_StreamingServer :: bool
  pm_Deprecated :: bool
  pm_Leading :: string
  pm_Location :: location

record proto_service =
  sv_GoName :: string
  sv_FullName :: string
  sv_Deprecated :: bool
  sv_Methods :: "proto_method list"
  sv_Location :: location

record proto_file =
  pf_Generate :: bool
  pf_Prefix :: string
  pf_ImportPath :: string
  pf_PackageName :: string
  pf_Path :: string
  pf_Services :: "proto_service list"

datatype piece = Txt string | Ident go_ident | Num nat | Comments string

datatype emit = Line "piece list" | Annotate string location

record protogen =
  pg_QualifiedGoIdent :: "go_ident \<Rightarrow> string"
  pg_CommentText :: "string \<Rightarrow> string"

text \<open>What is in the file afterwards; an annotation is metadata beside the text.\<close>

definition piece_text :: "protogen \<Rightarrow> piece \<Rightarrow> string" where
  "piece_text G p =
     (case p of Txt s \<Rightarrow> s | Ident i \<Rightarrow> pg_QualifiedGoIdent G i | Num n \<Rightarrow> show_nat n
      | Comments c \<Rightarrow> pg_CommentText G c)"

definition emit_text :: "protogen \<Rightarrow> emit \<Rightarrow> string" where
  "emit_text G e =
     (case e of Line ps \<Rightarrow> concat (map (piece_text G) ps) @ [newline] | Annotate _ _ \<Rightarrow> [])"

definition file_text :: "protogen \<Rightarrow> emit list \<Rightarrow> string" where
  "file_text G es = concat (map (emit_text G) es)"

section \<open>Helpers\<close>

definition contextPackage :: "string \<Rightarrow> go_ident" where
  "contextPackage n = \<lparr>gi_GoName = n, gi_GoImportPath = ''context''\<rparr>"

definition grpcPackage :: "string \<Rightarrow> go_ident" where
  "grpcPackage n = \<lparr>gi_GoName = n, gi_GoImportPath = ''google.golang.org/grpc''\<rparr>"

definition codesPackage :: "string \<Rightarrow> go_ident" where
  "codesPackage n = \<lparr>gi_GoName = n, gi_GoImportPath = ''google.golang.org/grpc/codes''\<rparr>"

definition statusPackage :: "string \<Rightarrow> go_ident" where
  "statusPackage n = \<lparr>gi_GoName = n, gi_GoImportPath = ''google.golang.org/grpc/status''\<rparr>"

definition deprecationComment :: string where
  "deprecationComment = ''// Deprecated: Do not use.''"

text \<open>
  \<open>strings.ToLower\<close> of a string of one byte; a byte that is no ASCII character is no valid text and
  becomes the replacement character.
\<close>

definition lower_byte :: "char \<Rightarrow> string" where
  "lower_byte c =
     (let n = (of_char c :: nat) in
      if 128 \<le> n then [CHR 0xEF, CHR 0xBF, CHR 0xBD]
      else if 65 \<le> n \<and> n \<le> 90 then [char_of (n + 32)] else [c])"

text \<open>\<open>unexport\<close>: \<open>s[:1]\<close> of an empty string panics.\<close>

definition unexport :: "string \<Rightarrow> string go" where
  "unexport s =
     and_then (go_slice s 0 1) (\<lambda>first. ok (concat (map lower_byte first) @ drop 1 s))"

text \<open>\<open>strings.Join\<close>, and \<open>strconv.Quote\<close> of ASCII text (protobuf names are).\<close>

fun join_strings :: "string \<Rightarrow> string list \<Rightarrow> string" where
  "join_strings sep [] = ''''"
| "join_strings sep [s] = s"
| "join_strings sep (s # t # ss) = s @ sep @ join_strings sep (t # ss)"

definition hex_digit :: "nat \<Rightarrow> char" where
  "hex_digit d = (if d < 10 then char_of (48 + d) else char_of (87 + d))"

definition quote_char :: "char \<Rightarrow> string" where
  "quote_char c =
     (let n = (of_char c :: nat) in
      if n = 34 \<or> n = 92 then [CHR 0x5C, c]
      else if n = 7 then [CHR 0x5C, CHR ''a''] else if n = 8 then [CHR 0x5C, CHR ''b'']
      else if n = 9 then [CHR 0x5C, CHR ''t''] else if n = 10 then [CHR 0x5C, CHR ''n'']
      else if n = 11 then [CHR 0x5C, CHR ''v''] else if n = 12 then [CHR 0x5C, CHR ''f'']
      else if n = 13 then [CHR 0x5C, CHR ''r'']
      else if n < 32 \<or> 127 \<le> n then [CHR 0x5C, CHR ''x'', hex_digit (n div 16), hex_digit (n mod 16)]
      else [c])"

definition Quote :: "string \<Rightarrow> string" where
  "Quote s = [CHR 0x22] @ concat (map quote_char s) @ [CHR 0x22]"

abbreviation dquote :: string where "dquote \<equiv> [CHR 0x22]"

abbreviation unary :: "proto_method \<Rightarrow> bool" where
  "unary m \<equiv> \<not> pm_StreamingClient m \<and> \<not> pm_StreamingServer m"

abbreviation gP :: "piece list \<Rightarrow> emit list" where "gP ps \<equiv> [Line ps]"

abbreviation gT :: "string \<Rightarrow> emit list" where "gT s \<equiv> [Line [Txt s]]"

abbreviation if_out :: "bool \<Rightarrow> emit list \<Rightarrow> emit list" where "if_out b es \<equiv> (if b then es else [])"

definition serviceDescVar :: "proto_service \<Rightarrow> string" where
  "serviceDescVar service = ''_'' @ sv_GoName service @ ''_serviceDesc''"

definition sname :: "proto_service \<Rightarrow> proto_method \<Rightarrow> string" where
  "sname service method = ''/'' @ sv_FullName service @ ''/'' @ pm_Name method"

definition hname :: "proto_service \<Rightarrow> proto_method \<Rightarrow> string" where
  "hname service method = ''_'' @ sv_GoName service @ ''_'' @ pm_GoName method @ ''_Handler''"

section \<open>Signatures\<close>

text \<open>\<open>method.Parent\<close> is the service that declares the method: the argument \<open>service\<close>.\<close>

definition clientSignature :: "protogen \<Rightarrow> proto_service \<Rightarrow> proto_method \<Rightarrow> string" where
  "clientSignature G service method =
     (let Q = pg_QualifiedGoIdent G;
          s = pm_GoName method @ ''(ctx '' @ Q (contextPackage ''Context'');
          s = (if \<not> pm_StreamingClient method then s @ '', in *'' @ Q (pm_Input method) else s);
          s = s @ '', opts ...'' @ Q (grpcPackage ''CallOption'') @ '') ('';
          s = (if unary method then s @ ''*'' @ Q (pm_Output method)
               else s @ sv_GoName service @ ''_'' @ pm_GoName method @ ''Client'')
      in s @ '', error)'')"

definition serverSignature :: "protogen \<Rightarrow> proto_service \<Rightarrow> proto_method \<Rightarrow> string" where
  "serverSignature G service method =
     (let Q = pg_QualifiedGoIdent G;
          reqArgs = (if unary method then [Q (contextPackage ''Context'')] else []);
          ret = (if unary method then ''(*'' @ Q (pm_Output method) @ '', error)'' else ''error'');
          reqArgs = (if \<not> pm_StreamingClient method then reqArgs @ [''*'' @ Q (pm_Input method)] else reqArgs);
          reqArgs = (if pm_StreamingClient method \<or> pm_StreamingServer method
                     then reqArgs @ [sv_GoName service @ ''_'' @ pm_GoName method @ ''Server''] else reqArgs)
      in pm_GoName method @ ''('' @ join_strings '', '' reqArgs @ '') '' @ ret)"

section \<open>Client stubs\<close>

text \<open>The interface, the struct and the \<open>Send\<close>, \<open>Recv\<close> and \<open>CloseAndRecv\<close> of a client stream.\<close>

definition client_stream_types :: "proto_service \<Rightarrow> proto_method \<Rightarrow> string \<Rightarrow> emit list" where
  "client_stream_types service method streamType =
     (let genSend = pm_StreamingClient method; genRecv = pm_StreamingServer method;
          genCloseAndRecv = (\<not> pm_StreamingServer method)
      in gP [Txt ''type '', Txt (sv_GoName service), Txt ''_'', Txt (pm_GoName method), Txt ''Client interface {'']
       @ if_out genSend (gP [Txt ''Send(*'', Ident (pm_Input method), Txt '') error''])
       @ if_out genRecv (gP [Txt ''Recv() (*'', Ident (pm_Output method), Txt '', error)''])
       @ if_out genCloseAndRecv (gP [Txt ''CloseAndRecv() (*'', Ident (pm_Output method), Txt '', error)''])
       @ gP [Ident (grpcPackage ''ClientStream'')] @ gT ''}'' @ gP []
       @ gP [Txt ''type '', Txt streamType, Txt '' struct {''] @ gP [Ident (grpcPackage ''ClientStream'')] @ gT ''}'' @ gP []
       @ if_out genSend
           (gP [Txt ''func (x *'', Txt streamType, Txt '') Send(m *'', Ident (pm_Input method), Txt '') error {'']
          @ gT ''return x.ClientStream.SendMsg(m)'' @ gT ''}'' @ gP [])
       @ if_out genRecv
           (gP [Txt ''func (x *'', Txt streamType, Txt '') Recv() (*'', Ident (pm_Output method), Txt '', error) {'']
          @ gP [Txt ''m := new('', Ident (pm_Output method), Txt '')'']
          @ gT ''if err := x.ClientStream.RecvMsg(m); err != nil { return nil, err }''
          @ gT ''return m, nil'' @ gT ''}'' @ gP [])
       @ if_out genCloseAndRecv
           (gP [Txt ''func (x *'', Txt streamType, Txt '') CloseAndRecv() (*'', Ident (pm_Output method), Txt '', error) {'']
          @ gT ''if err := x.ClientStream.CloseSend(); err != nil { return nil, err }''
          @ gP [Txt ''m := new('', Ident (pm_Output method), Txt '')'']
          @ gT ''if err := x.ClientStream.RecvMsg(m); err != nil { return nil, err }''
          @ gT ''return m, nil'' @ gT ''}'' @ gP []))"

definition genClientMethod :: "protogen \<Rightarrow> proto_service \<Rightarrow> proto_method \<Rightarrow> nat \<Rightarrow> emit list go" where
  "genClientMethod G service method index =
     and_then (unexport (sv_GoName service)) (\<lambda>lower.
       let start = if_out (pm_Deprecated method) (gT deprecationComment)
             @ gP [Txt ''func (c *'', Txt lower, Txt ''Client) '', Txt (clientSignature G service method), Txt ''{'']
       in if unary method
          then ok (start
             @ gP [Txt ''out := new('', Ident (pm_Output method), Txt '')'']
             @ gP [Txt (''err := c.cc.Invoke(ctx, '' @ dquote), Txt (sname service method),
                  Txt (dquote @ '', in, out, opts...)'')]
             @ gT ''if err != nil { return nil, err }'' @ gT ''return out, nil'' @ gT ''}'' @ gP [])
          else
            let streamType = lower @ pm_GoName method @ ''Client''
            in ok (start
             @ gP [Txt ''stream, err := c.cc.NewStream(ctx, &'', Txt (serviceDescVar service), Txt ''.Streams['',
                  Num index, Txt (''], '' @ dquote), Txt (sname service method), Txt (dquote @ '', opts...)'')]
             @ gT ''if err != nil { return nil, err }''
             @ gP [Txt ''x := &'', Txt streamType, Txt ''{stream}'']
             @ if_out (\<not> pm_StreamingClient method)
                 (gT ''if err := x.ClientStream.SendMsg(in); err != nil { return nil, err }''
                @ gT ''if err := x.ClientStream.CloseSend(); err != nil { return nil, err }'')
             @ gT ''return x, nil'' @ gT ''}'' @ gP []
             @ client_stream_types service method streamType))"

text \<open>The loop over the methods with its two counters.\<close>

primrec client_methods :: "protogen \<Rightarrow> proto_service \<Rightarrow> nat \<Rightarrow> nat \<Rightarrow> proto_method list \<Rightarrow> emit list go" where
  "client_methods G service methodIndex streamIndex [] = ok []"
| "client_methods G service methodIndex streamIndex (method # methods) =
     (if unary method
      then and_then (genClientMethod G service method methodIndex) (\<lambda>es.
             and_then (client_methods G service (methodIndex + 1) streamIndex methods) (\<lambda>rest. ok (es @ rest)))
      else and_then (genClientMethod G service method streamIndex) (\<lambda>es.
             and_then (client_methods G service methodIndex (streamIndex + 1) methods) (\<lambda>rest. ok (es @ rest))))"

section \<open>Server handlers\<close>

definition server_stream_types :: "proto_service \<Rightarrow> proto_method \<Rightarrow> string \<Rightarrow> emit list" where
  "server_stream_types service method streamType =
     (let genSend = pm_StreamingServer method; genSendAndClose = (\<not> pm_StreamingServer method);
          genRecv = pm_StreamingClient method
      in gP [Txt ''type '', Txt (sv_GoName service), Txt ''_'', Txt (pm_GoName method), Txt ''Server interface {'']
       @ if_out genSend (gP [Txt ''Send(*'', Ident (pm_Output method), Txt '') error''])
       @ if_out genSendAndClose (gP [Txt ''SendAndClose(*'', Ident (pm_Output method), Txt '') error''])
       @ if_out genRecv (gP [Txt ''Recv() (*'', Ident (pm_Input method), Txt '', error)''])
       @ gP [Ident (grpcPackage ''ServerStream'')] @ gT ''}'' @ gP []
       @ gP [Txt ''type '', Txt streamType, Txt '' struct {''] @ gP [Ident (grpcPackage ''ServerStream'')] @ gT ''}'' @ gP []
       @ if_out genSend
           (gP [Txt ''func (x *'', Txt streamType, Txt '') Send(m *'', Ident (pm_Output method), Txt '') error {'']
          @ gT ''return x.ServerStream.SendMsg(m)'' @ gT ''}'' @ gP [])
       @ if_out genSendAndClose
           (gP [Txt ''func (x *'', Txt streamType, Txt '') SendAndClose(m *'', Ident (pm_Output method), Txt '') error {'']
          @ gT ''return x.ServerStream.SendMsg(m)'' @ gT ''}'' @ gP [])
       @ if_out genRecv
           (gP [Txt ''func (x *'', Txt streamType, Txt '') Recv() (*'', Ident (pm_Input method), Txt '', error) {'']
          @ gP [Txt ''m := new('', Ident (pm_Input method), Txt '')'']
          @ gT ''if err := x.ServerStream.RecvMsg(m); err != nil { return nil, err }''
          @ gT ''return m, nil'' @ gT ''}'' @ gP []))"

definition genServerMethod :: "proto_service \<Rightarrow> proto_method \<Rightarrow> (string \<times> emit list) go" where
  "genServerMethod service method =
     (let h = hname service method in
      if unary method
      then ok (h,
           gP [Txt ''func '', Txt h, Txt ''(srv interface{}, ctx '', Ident (contextPackage ''Context''),
               Txt '', dec func(interface{}) error, interceptor '', Ident (grpcPackage ''UnaryServerInterceptor''),
               Txt '') (interface{}, error) {'']
         @ gP [Txt ''in := new('', Ident (pm_Input method), Txt '')'']
         @ gT ''if err := dec(in); err != nil { return nil, err }''
         @ gP [Txt ''if interceptor == nil { return srv.('', Txt (sv_GoName service), Txt ''Server).'',
               Txt (pm_GoName method), Txt ''(ctx, in) }'']
         @ gP [Txt ''info := &'', Ident (grpcPackage ''UnaryServerInfo''), Txt ''{'']
         @ gT ''Server: srv,''
         @ gP [Txt ''FullMethod: '', Txt (Quote (''/'' @ sv_FullName service @ ''/'' @ pm_GoName method)), Txt '','']
         @ gT ''}''
         @ gP [Txt ''handler := func(ctx '', Ident (contextPackage ''Context''), Txt '', req interface{}) (interface{}, error) {'']
         @ gP [Txt ''return srv.('', Txt (sv_GoName service), Txt ''Server).'', Txt (pm_GoName method),
               Txt ''(ctx, req.(*'', Ident (pm_Input method), Txt ''))'']
         @ gT ''}'' @ gT ''return interceptor(ctx, in, info, handler)'' @ gT ''}'' @ gP [])
      else
        and_then (unexport (sv_GoName service)) (\<lambda>lower.
          let streamType = lower @ pm_GoName method @ ''Server''
          in ok (h,
             gP [Txt ''func '', Txt h, Txt ''(srv interface{}, stream '', Ident (grpcPackage ''ServerStream''), Txt '') error {'']
           @ (if \<not> pm_StreamingClient method
              then gP [Txt ''m := new('', Ident (pm_Input method), Txt '')'']
                 @ gT ''if err := stream.RecvMsg(m); err != nil { return err }''
                 @ gP [Txt ''return srv.('', Txt (sv_GoName service), Txt ''Server).'', Txt (pm_GoName method),
                       Txt ''(m, &'', Txt streamType, Txt ''{stream})'']
              else gP [Txt ''return srv.('', Txt (sv_GoName service), Txt ''Server).'', Txt (pm_GoName method),
                       Txt ''(&'', Txt streamType, Txt ''{stream})''])
           @ gT ''}'' @ gP []
           @ server_stream_types service method streamType)))"

primrec server_methods :: "proto_service \<Rightarrow> proto_method list \<Rightarrow> (string list \<times> emit list) go" where
  "server_methods service [] = ok ([], [])"
| "server_methods service (method # methods) =
     and_then (genServerMethod service method) (\<lambda>(h, es).
     and_then (server_methods service methods) (\<lambda>(hs, rest). ok (h # hs, es @ rest)))"

section \<open>One service\<close>

definition deprecated_note :: "bool \<Rightarrow> emit list" where
  "deprecated_note b = if_out b (gT ''//'' @ gT deprecationComment)"

text \<open>The client interface, its struct and the constructor.\<close>

definition client_interface :: "protogen \<Rightarrow> proto_service \<Rightarrow> emit list" where
  "client_interface G service =
     (let clientName = sv_GoName service @ ''Client'' in
      gP [Txt ''// '', Txt clientName, Txt '' is the client API for '', Txt (sv_GoName service), Txt '' service.'']
      @ gT ''//''
      @ gT ''// For semantics around ctx use and closing/ending streaming RPCs, please refer to https://pkg.go.dev/google.golang.org/grpc/?tab=doc#ClientConn.NewStream.''
      @ deprecated_note (sv_Deprecated service)
      @ [Annotate clientName (sv_Location service)]
      @ gP [Txt ''type '', Txt clientName, Txt '' interface {'']
      @ concat (map (\<lambda>method.
           [Annotate (clientName @ ''.'' @ pm_GoName method) (pm_Location method)]
         @ if_out (pm_Deprecated method) (gT deprecationComment)
         @ gP [Comments (pm_Leading method), Txt (clientSignature G service method)]) (sv_Methods service))
      @ gT ''}'' @ gP [])"

definition client_factory :: "proto_service \<Rightarrow> emit list go" where
  "client_factory service =
     (let clientName = sv_GoName service @ ''Client'' in
      and_then (unexport clientName) (\<lambda>lower. ok
       (gP [Txt ''type '', Txt lower, Txt '' struct {'']
      @ gP [Txt ''cc '', Ident (grpcPackage ''ClientConnInterface'')] @ gT ''}'' @ gP []
      @ if_out (sv_Deprecated service) (gT deprecationComment)
      @ gP [Txt ''func New'', Txt clientName, Txt '' (cc '', Ident (grpcPackage ''ClientConnInterface''), Txt '') '',
            Txt clientName, Txt '' {'']
      @ gP [Txt ''return &'', Txt lower, Txt ''{cc}''] @ gT ''}'' @ gP [])))"

definition server_interface :: "protogen \<Rightarrow> bool \<Rightarrow> proto_service \<Rightarrow> emit list" where
  "server_interface G requireUnimplemented service =
     (let mustOrShould = (if \<not> requireUnimplemented then ''should'' else ''must'');
          serverType = sv_GoName service @ ''Server''
      in gP [Txt ''// '', Txt serverType, Txt '' is the server API for '', Txt (sv_GoName service), Txt '' service.'']
       @ gP [Txt ''// All implementations '', Txt mustOrShould, Txt '' embed Unimplemented'', Txt serverType]
       @ gT ''// for forward compatibility''
       @ deprecated_note (sv_Deprecated service)
       @ [Annotate serverType (sv_Location service)]
       @ gP [Txt ''type '', Txt serverType, Txt '' interface {'']
       @ concat (map (\<lambda>method.
            [Annotate (serverType @ ''.'' @ pm_GoName method) (pm_Location method)]
          @ if_out (pm_Deprecated method) (gT deprecationComment)
          @ gP [Comments (pm_Leading method), Txt (serverSignature G service method)]) (sv_Methods service))
       @ if_out requireUnimplemented (gP [Txt ''mustEmbedUnimplemented'', Txt serverType, Txt ''()''])
       @ gT ''}'' @ gP [])"

definition unimplemented_server :: "protogen \<Rightarrow> bool \<Rightarrow> proto_service \<Rightarrow> emit list" where
  "unimplemented_server G requireUnimplemented service =
     (let mustOrShould = (if \<not> requireUnimplemented then ''should'' else ''must'');
          serverType = sv_GoName service @ ''Server''
      in gP [Txt ''// Unimplemented'', Txt serverType, Txt '' '', Txt mustOrShould,
             Txt '' be embedded to have forward compatible implementations.'']
       @ gP [Txt ''type Unimplemented'', Txt serverType, Txt '' struct {''] @ gT ''}'' @ gP []
       @ concat (map (\<lambda>method.
            gP [Txt ''func (*Unimplemented'', Txt serverType, Txt '') '', Txt (serverSignature G service method), Txt ''{'']
          @ gP [Txt ''return '', Txt (if unary method then ''nil,'' else ''''), Ident (statusPackage ''Errorf''), Txt ''('',
                Ident (codesPackage ''Unimplemented''), Txt ('', '' @ dquote @ ''method ''), Txt (pm_GoName method),
                Txt ('' not implemented'' @ dquote @ '')'')]
          @ gT ''}'') (sv_Methods service))
       @ if_out requireUnimplemented
           (gP [Txt ''func (*Unimplemented'', Txt serverType, Txt '') mustEmbedUnimplemented'', Txt serverType, Txt ''() {}''])
       @ gP [])"

definition registration :: "proto_service \<Rightarrow> emit list" where
  "registration service =
     if_out (sv_Deprecated service) (gT deprecationComment)
     @ gP [Txt ''func Register'', Txt (sv_GoName service), Txt ''Server(s *'', Ident (grpcPackage ''Server''),
           Txt '', srv '', Txt (sv_GoName service @ ''Server''), Txt '') {'']
     @ gP [Txt ''s.RegisterService(&'', Txt (serviceDescVar service), Txt '', srv)''] @ gT ''}'' @ gP []"

text \<open>
  The descriptor: \<open>handlerNames[i]\<close> is the handler of method \<open>i\<close>; the names were collected in the
  same order, so the index is in range.
\<close>

definition method_entry :: "string \<Rightarrow> proto_method \<Rightarrow> emit list" where
  "method_entry handler method =
     gT ''{'' @ gP [Txt ''MethodName: '', Txt (Quote (pm_Name method)), Txt '','']
     @ gP [Txt ''Handler: '', Txt handler, Txt '',''] @ gT ''},''"

definition stream_entry :: "string \<Rightarrow> proto_method \<Rightarrow> emit list" where
  "stream_entry handler method =
     gT ''{'' @ gP [Txt ''StreamName: '', Txt (Quote (pm_Name method)), Txt '','']
     @ gP [Txt ''Handler: '', Txt handler, Txt '','']
     @ if_out (pm_StreamingServer method) (gT ''ServerStreams: true,'')
     @ if_out (pm_StreamingClient method) (gT ''ClientStreams: true,'') @ gT ''},''"

definition service_descriptor :: "proto_file \<Rightarrow> proto_service \<Rightarrow> string list \<Rightarrow> emit list" where
  "service_descriptor file service handlerNames =
     gP [Txt ''var '', Txt (serviceDescVar service), Txt '' = '', Ident (grpcPackage ''ServiceDesc''), Txt '' {'']
     @ gP [Txt ''ServiceName: '', Txt (Quote (sv_FullName service)), Txt '','']
     @ gP [Txt ''HandlerType: (*'', Txt (sv_GoName service @ ''Server''), Txt '')(nil),'']
     @ gP [Txt ''Methods: []'', Ident (grpcPackage ''MethodDesc''), Txt ''{'']
     @ concat (map (\<lambda>(i, method). if unary method then method_entry (handlerNames ! i) method else [])
         (enumerate 0 (sv_Methods service)))
     @ gT ''},''
     @ gP [Txt ''Streams: []'', Ident (grpcPackage ''StreamDesc''), Txt ''{'']
     @ concat (map (\<lambda>(i, method). if unary method then [] else stream_entry (handlerNames ! i) method)
         (enumerate 0 (sv_Methods service)))
     @ gT ''},''
     @ gP [Txt (''Metadata: '' @ dquote), Txt (pf_Path file), Txt (dquote @ '','')] @ gT ''}'' @ gP []"

definition genService :: "protogen \<Rightarrow> bool \<Rightarrow> proto_file \<Rightarrow> proto_service \<Rightarrow> emit list go" where
  "genService G requireUnimplemented file service =
     and_then (client_factory service) (\<lambda>factory.
     and_then (client_methods G service 0 0 (sv_Methods service)) (\<lambda>stubs.
     and_then (server_methods service (sv_Methods service)) (\<lambda>(handlerNames, handlers).
       ok (client_interface G service @ factory @ stubs
         @ server_interface G requireUnimplemented service
         @ unimplemented_server G requireUnimplemented service
         @ registration service @ handlers
         @ service_descriptor file service handlerNames))))"

section \<open>A file\<close>

primrec gen_services :: "protogen \<Rightarrow> bool \<Rightarrow> proto_file \<Rightarrow> proto_service list \<Rightarrow> emit list go" where
  "gen_services G requireUnimplemented file [] = ok []"
| "gen_services G requireUnimplemented file (service # services) =
     and_then (genService G requireUnimplemented file service) (\<lambda>es.
     and_then (gen_services G requireUnimplemented file services) (\<lambda>rest. ok (es @ rest)))"

definition generateFileContent :: "protogen \<Rightarrow> bool \<Rightarrow> proto_file \<Rightarrow> emit list go" where
  "generateFileContent G requireUnimplemented file =
     (if pf_Services file = [] then ok []
      else and_then (gen_services G requireUnimplemented file (pf_Services file)) (\<lambda>es.
        ok (gT ''// This is a compile-time assertion to ensure that this generated file''
          @ gT ''// is compatible with the grpc package it is being compiled against.''
          @ gP [Txt ''const _ = '', Ident (grpcPackage ''SupportPackageIsVersion6'')] @ gP [] @ es)))"

text \<open>The name of the new file and its contents; \<open>None\<close> when there is nothing to generate.\<close>

definition generateFile :: "protogen \<Rightarrow> bool \<Rightarrow> proto_file \<Rightarrow> (string \<times> emit list) option go" where
  "generateFile G requireUnimplemented file =
     (if pf_Services file = [] then ok None
      else and_then (generateFileContent G requireUnimplemented file) (\<lambda>es.
        ok (Some (pf_Prefix file @ ''_grpc.pb.go'',
          gT ''// Code generated by protoc-gen-go-grpc. DO NOT EDIT.'' @ gP []
          @ gP [Txt ''package '', Txt (pf_PackageName file)] @ gP [] @ es))))"

text \<open>The callback of \<open>main\<close>: the files that were asked for, in order.\<close>

primrec generate_all :: "protogen \<Rightarrow> bool \<Rightarrow> proto_file list \<Rightarrow> (string \<times> emit list) list go" where
  "generate_all G requireUnimplemented [] = ok []"
| "generate_all G requireUnimplemented (f # files) =
     (if \<not> pf_Generate f then generate_all G requireUnimplemented files
      else and_then (generateFile G requireUnimplemented f) (\<lambda>out.
           and_then (generate_all G requireUnimplemented files) (\<lambda>rest.
             ok ((case out of None \<Rightarrow> [] | Some x \<Rightarrow> [x]) @ rest))))"

section \<open>Reading the generated text\<close>

text \<open>
  What a reader of the generated file sees: the stream calls of the stubs (descriptor variable,
  index, path), the paths of the unary calls, the names in the descriptor's two tables, the handlers
  the tables refer to, the handler functions, and the paths told to interceptors.
\<close>

definition stream_call :: "emit \<Rightarrow> (string \<times> nat \<times> string) list" where
  "stream_call e =
     (case e of
        Line [Txt a, Txt v, Txt b, Num i, Txt c, Txt path, Txt d] \<Rightarrow>
          if a = ''stream, err := c.cc.NewStream(ctx, &'' then [(v, i, path)] else []
      | _ \<Rightarrow> [])"

definition field :: "string \<Rightarrow> emit \<Rightarrow> string list" where
  "field label e =
     (case e of Line [Txt a, Txt s, Txt b] \<Rightarrow> if a = label then [s] else [] | _ \<Rightarrow> [])"

definition handler_def :: "emit \<Rightarrow> string list" where
  "handler_def e =
     (case e of Line (Txt a # Txt h # _) \<Rightarrow> if a = ''func '' then [h] else [] | _ \<Rightarrow> [])"

text \<open>
  The package variable that is declared as a service descriptor, and what a row of the table of
  streams says of its stream: the name and the two flags.
\<close>

definition desc_variable :: "emit \<Rightarrow> string list" where
  "desc_variable e =
     (case e of
        Line (Txt a # Txt v # Txt b # Ident i # _) \<Rightarrow>
          if a = ''var '' \<and> gi_GoName i = ''ServiceDesc'' then [v] else []
      | _ \<Rightarrow> [])"

definition stream_flag :: "emit \<Rightarrow> string list" where
  "stream_flag e =
     (case e of
        Line [Txt a] \<Rightarrow> if a \<in> {''ServerStreams: true,'', ''ClientStreams: true,''} then [a] else []
      | _ \<Rightarrow> field ''StreamName: '' e)"

definition collect :: "(emit \<Rightarrow> 'a list) \<Rightarrow> emit list \<Rightarrow> 'a list" where
  "collect f es = concat (map f es)"

abbreviation stream_calls :: "emit list \<Rightarrow> (string \<times> nat \<times> string) list" where
  "stream_calls \<equiv> collect stream_call"
abbreviation invoke_paths :: "emit list \<Rightarrow> string list" where
  "invoke_paths \<equiv> collect (field (''err := c.cc.Invoke(ctx, '' @ dquote))"
abbreviation stream_names :: "emit list \<Rightarrow> string list" where
  "stream_names \<equiv> collect (field ''StreamName: '')"
abbreviation method_names :: "emit list \<Rightarrow> string list" where
  "method_names \<equiv> collect (field ''MethodName: '')"
abbreviation handler_refs :: "emit list \<Rightarrow> string list" where
  "handler_refs \<equiv> collect (field ''Handler: '')"
abbreviation handler_defs :: "emit list \<Rightarrow> string list" where
  "handler_defs \<equiv> collect handler_def"
abbreviation full_methods :: "emit list \<Rightarrow> string list" where
  "full_methods \<equiv> collect (field ''FullMethod: '')"

abbreviation service_names :: "emit list \<Rightarrow> string list" where
  "service_names \<equiv> collect (field ''ServiceName: '')"
abbreviation registered :: "emit list \<Rightarrow> string list" where
  "registered \<equiv> collect (field ''s.RegisterService(&'')"
abbreviation desc_variables :: "emit list \<Rightarrow> string list" where
  "desc_variables \<equiv> collect desc_variable"
abbreviation stream_rows :: "emit list \<Rightarrow> string list" where
  "stream_rows \<equiv> collect stream_flag"

text \<open>The row of the table of streams that a streaming method has to have.\<close>

definition stream_row :: "proto_method \<Rightarrow> string list" where
  "stream_row m = [Quote (pm_Name m)]
     @ (if pm_StreamingServer m then [''ServerStreams: true,''] else [])
     @ (if pm_StreamingClient m then [''ClientStreams: true,''] else [])"

lemma collect_append [simp]: "collect f (es @ fs) = collect f es @ collect f fs"
  by (simp add: collect_def)

lemma collect_simps [simp]: "collect f [] = []" "collect f (e # es) = f e @ collect f es"
  by (simp_all add: collect_def)

lemma collect_if [simp]: "collect f (if b then es else fs) = (if b then collect f es else collect f fs)"
  by simp

lemma collect_concat_map: "collect f (concat (map g xs)) = concat (map (\<lambda>x. collect f (g x)) xs)"
  by (induction xs) simp_all

lemma concat_map_Nil [simp]: "concat (map (\<lambda>x. []) xs) = []"
  by (induction xs) simp_all

named_theorems gen_defs \<open>the generator's functions and the readers of its output\<close>

lemmas [gen_defs] = stream_call_def field_def handler_def_def deprecated_note_def Let_def

definition readers :: "(emit \<Rightarrow> string list) list" where
  "readers = [field (''err := c.cc.Invoke(ctx, '' @ dquote), field ''StreamName: '', field ''MethodName: '',
     field ''Handler: '', field ''FullMethod: '', handler_def]"

definition desc_readers :: "(emit \<Rightarrow> string list) list" where
  "desc_readers = [field ''ServiceName: '', field ''s.RegisterService(&'', desc_variable, stream_flag]"

text \<open>The parts of the file in which the readers find nothing.\<close>

lemma stream_types_reads [simp]:
  "map (\<lambda>f. collect f (client_stream_types service method t)) readers = [[], [], [], [], [], []]"
  "map (\<lambda>f. collect f (server_stream_types service method t)) readers = [[], [], [], [], [], []]"
  "stream_calls (client_stream_types service method t) = []"
  "stream_calls (server_stream_types service method t) = []"
  unfolding client_stream_types_def server_stream_types_def Let_def readers_def
  by (simp_all add: gen_defs)

lemma interface_reads [simp]:
  "map (\<lambda>f. collect f (client_interface G service)) readers = [[], [], [], [], [], []]"
  "map (\<lambda>f. collect f (server_interface G r service)) readers = [[], [], [], [], [], []]"
  "map (\<lambda>f. collect f (unimplemented_server G r service)) readers = [[], [], [], [], [], []]"
  "map (\<lambda>f. collect f (registration service)) readers = [[], [], [], [], [], []]"
  "stream_calls (client_interface G service) = []"
  "stream_calls (server_interface G r service) = []"
  "stream_calls (unimplemented_server G r service) = []"
  "stream_calls (registration service) = []"
  unfolding client_interface_def server_interface_def unimplemented_server_def registration_def readers_def
  by (simp_all add: gen_defs collect_concat_map) auto

lemma factory_reads:
  assumes "client_factory service = ok es"
  shows "map (\<lambda>f. collect f es) readers = [[], [], [], [], [], []]" and "stream_calls es = []"
  using assms by (auto simp: client_factory_def readers_def gen_defs and_then_Inr_iff)

lemma client_method_reads:
  assumes "genClientMethod G service method i = ok es"
  shows "map (\<lambda>f. collect f es) readers =
      [(if unary method then [sname service method] else []), [], [], [], [], []]"
    and "stream_calls es = (if unary method then [] else [(serviceDescVar service, i, sname service method)])"
proof -
  from assms obtain lower where "genClientMethod G service method i = ok es" "unexport (sv_GoName service) = ok lower"
    by (auto simp: genClientMethod_def and_then_Inr_iff)
  note es = this(1) [unfolded genClientMethod_def this(2) and_then_simps Let_def]
  show "map (\<lambda>f. collect f es) readers =
      [(if unary method then [sname service method] else []), [], [], [], [], []]"
    using es stream_types_reads(1) [of service "method" "lower @ pm_GoName method @ ''Client''", unfolded readers_def]
    unfolding readers_def by (cases "unary method") (auto simp: gen_defs split: if_splits)
  show "stream_calls es = (if unary method then [] else [(serviceDescVar service, i, sname service method)])"
    using es by (cases "unary method") (auto simp: gen_defs split: if_splits)
qed

lemma server_method_reads:
  assumes "genServerMethod service method = ok (h, es)"
  shows "h = hname service method"
    and "map (\<lambda>f. collect f es) readers =
      [[], [], [], [], (if unary method then [Quote (''/'' @ sv_FullName service @ ''/'' @ pm_GoName method)] else []),
       [hname service method]]"
    and "stream_calls es = []"
proof -
  note d = assms [unfolded genServerMethod_def Let_def]
  show "h = hname service method" "stream_calls es = []"
    using d by (auto simp: gen_defs and_then_Inr_iff split: if_splits)
  show "map (\<lambda>f. collect f es) readers =
      [[], [], [], [], (if unary method then [Quote (''/'' @ sv_FullName service @ ''/'' @ pm_GoName method)] else []),
       [hname service method]]"
  proof (cases "unary method")
    case True
    with d show ?thesis by (auto simp: readers_def gen_defs)
  next
    case False
    with d obtain lower where
      "es = drop (length es) es @ es" "unexport (sv_GoName service) = ok lower" by (auto simp: and_then_Inr_iff)
    with d False stream_types_reads(2) [of service "method" "lower @ pm_GoName method @ ''Server''", unfolded readers_def]
    show ?thesis unfolding readers_def by (auto simp: gen_defs)
  qed
qed

text \<open>The loops: what is read is collected over the methods.\<close>

lemma client_methods_reads:
  assumes "client_methods G service u i methods = ok es"
  shows "map (\<lambda>f. collect f es) readers = [map (sname service) (filter (\<lambda>m. unary m) methods), [], [], [], [], []]"
    and "stream_calls es =
      map (\<lambda>(j, m). (serviceDescVar service, j, sname service m)) (enumerate i (filter (\<lambda>m. \<not> unary m) methods))"
proof -
  have "map (\<lambda>f. collect f es) readers = [map (sname service) (filter (\<lambda>m. unary m) methods), [], [], [], [], []] \<and>
     stream_calls es =
      map (\<lambda>(j, m). (serviceDescVar service, j, sname service m)) (enumerate i (filter (\<lambda>m. \<not> unary m) methods))"
    using assms
  proof (induction methods arbitrary: u i es)
    case (Cons m ms)
    let ?k = "if unary m then u else i"
    from Cons.prems obtain es1 es2 where es: "es = es1 @ es2" and 1: "genClientMethod G service m ?k = ok es1"
      and 2: "client_methods G service (if unary m then u + 1 else u) (if unary m then i else i + 1) ms = ok es2"
      by (auto simp: and_then_Inr_iff split: if_splits)
    from Cons.IH [OF 2] client_method_reads [OF 1] es show ?case
      by (auto simp: readers_def)
  qed (simp add: readers_def)
  then show "map (\<lambda>f. collect f es) readers = [map (sname service) (filter (\<lambda>m. unary m) methods), [], [], [], [], []]"
    and "stream_calls es =
      map (\<lambda>(j, m). (serviceDescVar service, j, sname service m)) (enumerate i (filter (\<lambda>m. \<not> unary m) methods))"
    by blast+
qed

lemma server_methods_reads:
  assumes "server_methods service methods = ok (hs, es)"
  shows "hs = map (hname service) methods"
    and "map (\<lambda>f. collect f es) readers =
      [[], [], [], [], map (\<lambda>m. Quote (''/'' @ sv_FullName service @ ''/'' @ pm_GoName m)) (filter (\<lambda>m. unary m) methods),
       map (hname service) methods]"
    and "stream_calls es = []"
proof -
  have "hs = map (hname service) methods \<and> map (\<lambda>f. collect f es) readers =
      [[], [], [], [], map (\<lambda>m. Quote (''/'' @ sv_FullName service @ ''/'' @ pm_GoName m)) (filter (\<lambda>m. unary m) methods),
       map (hname service) methods] \<and> stream_calls es = []"
    using assms
  proof (induction methods arbitrary: hs es)
    case (Cons m ms)
    then obtain h es1 hs' es2 where es: "es = es1 @ es2" "hs = h # hs'"
      and 1: "genServerMethod service m = ok (h, es1)" and 2: "server_methods service ms = ok (hs', es2)"
      by (auto simp: and_then_Inr_iff)
    from Cons.IH [OF 2] server_method_reads [OF 1] es show ?case
      by (auto simp: readers_def)
  qed (simp add: readers_def)
  then show "hs = map (hname service) methods" and "stream_calls es = []"
    and "map (\<lambda>f. collect f es) readers =
      [[], [], [], [], map (\<lambda>m. Quote (''/'' @ sv_FullName service @ ''/'' @ pm_GoName m)) (filter (\<lambda>m. unary m) methods),
       map (hname service) methods]"
    by blast+
qed

lemma indexed_map:
  "concat (map (\<lambda>(i, x). g (map f xs ! i) x) (enumerate 0 xs)) = concat (map (\<lambda>x. g (f x) x) xs)"
proof -
  have "map (\<lambda>(i, x). g (map f xs ! i) x) (enumerate 0 xs) = map (\<lambda>x. g (f x) x) xs"
    by (rule nth_equalityI) (simp_all add: nth_enumerate_eq)
  then show ?thesis by simp
qed

lemma entry_reads:
  "map (\<lambda>f. collect f (method_entry h m)) readers = [[], [], [Quote (pm_Name m)], [h], [], []]"
  "map (\<lambda>f. collect f (stream_entry h m)) readers = [[], [Quote (pm_Name m)], [], [h], [], []]"
  "stream_calls (method_entry h m) = []" "stream_calls (stream_entry h m) = []"
  unfolding method_entry_def stream_entry_def readers_def by (simp_all add: gen_defs)

lemma descriptor_reads:
  assumes "hs = map (hname service) (sv_Methods service)"
  defines "u \<equiv> filter (\<lambda>m. unary m) (sv_Methods service)" and "s \<equiv> filter (\<lambda>m. \<not> unary m) (sv_Methods service)"
  shows "map (\<lambda>f. collect f (service_descriptor file service hs)) readers =
      [[], map (Quote \<circ> pm_Name) s, map (Quote \<circ> pm_Name) u, map (hname service) u @ map (hname service) s, [], []]"
    and "stream_calls (service_descriptor file service hs) = []"
proof -
  have entries: "concat (map (\<lambda>x. if unary x then [] else [f x]) xs) = map f (filter (\<lambda>m. \<not> unary m) xs)"
    "concat (map (\<lambda>x. if unary x then [f x] else []) xs) = map f (filter (\<lambda>m. unary m) xs)"
    for f :: "proto_method \<Rightarrow> string" and xs by (induction xs) simp_all
  have tables: "concat (map (\<lambda>(i, m). if unary m then method_entry (hs ! i) m else []) (enumerate 0 (sv_Methods service))) =
      concat (map (\<lambda>m. if unary m then method_entry (hname service m) m else []) (sv_Methods service))"
    "concat (map (\<lambda>(i, m). if unary m then [] else stream_entry (hs ! i) m) (enumerate 0 (sv_Methods service))) =
      concat (map (\<lambda>m. if unary m then [] else stream_entry (hname service m) m) (sv_Methods service))"
    unfolding assms(1)
    using indexed_map [of "\<lambda>h m. if unary m then method_entry h m else []" "hname service" "sv_Methods service"]
      indexed_map [of "\<lambda>h m. if unary m then [] else stream_entry h m" "hname service" "sv_Methods service"]
    by simp_all
  show "map (\<lambda>f. collect f (service_descriptor file service hs)) readers =
      [[], map (Quote \<circ> pm_Name) s, map (Quote \<circ> pm_Name) u, map (hname service) u @ map (hname service) s, [], []]"
    "stream_calls (service_descriptor file service hs) = []"
    unfolding service_descriptor_def tables readers_def
    using entry_reads [unfolded readers_def]
    by (simp_all add: gen_defs collect_concat_map entries u_def s_def comp_def cong: if_cong)
qed

text \<open>The descriptor's own name, variable and registration, and the rows of its table of streams.\<close>

lemma stream_types_desc [simp]:
  "map (\<lambda>f. collect f (client_stream_types service method t)) desc_readers = [[], [], [], []]"
  "map (\<lambda>f. collect f (server_stream_types service method t)) desc_readers = [[], [], [], []]"
  unfolding client_stream_types_def server_stream_types_def Let_def desc_readers_def
  by (simp_all add: gen_defs desc_variable_def stream_flag_def)

lemma interface_desc [simp]:
  "map (\<lambda>f. collect f (client_interface G service)) desc_readers = [[], [], [], []]"
  "map (\<lambda>f. collect f (server_interface G r service)) desc_readers = [[], [], [], []]"
  "map (\<lambda>f. collect f (unimplemented_server G r service)) desc_readers = [[], [], [], []]"
  "map (\<lambda>f. collect f (registration service)) desc_readers = [[], [serviceDescVar service], [], []]"
  unfolding client_interface_def server_interface_def unimplemented_server_def registration_def desc_readers_def
  by (simp_all add: gen_defs desc_variable_def stream_flag_def deprecationComment_def collect_concat_map) auto

lemma factory_desc:
  assumes "client_factory service = ok es"
  shows "map (\<lambda>f. collect f es) desc_readers = [[], [], [], []]"
  using assms
  by (auto simp: client_factory_def desc_readers_def gen_defs desc_variable_def stream_flag_def deprecationComment_def
      and_then_Inr_iff)

lemma client_method_desc:
  assumes "genClientMethod G service method i = ok es"
  shows "map (\<lambda>f. collect f es) desc_readers = [[], [], [], []]"
proof -
  from assms obtain lower where "genClientMethod G service method i = ok es" "unexport (sv_GoName service) = ok lower"
    by (auto simp: genClientMethod_def and_then_Inr_iff)
  note es = this(1) [unfolded genClientMethod_def this(2) and_then_simps Let_def]
  show ?thesis
    using es stream_types_desc(1) [of service "method" "lower @ pm_GoName method @ ''Client''", unfolded desc_readers_def]
    unfolding desc_readers_def
    by (cases "unary method") (auto simp: gen_defs desc_variable_def stream_flag_def deprecationComment_def split: if_splits)
qed

lemma server_method_desc:
  assumes "genServerMethod service method = ok (h, es)"
  shows "map (\<lambda>f. collect f es) desc_readers = [[], [], [], []]"
proof (cases "unary method")
  case True
  with assms show ?thesis
    by (auto simp: genServerMethod_def desc_readers_def gen_defs desc_variable_def stream_flag_def)
next
  case False
  with assms [unfolded genServerMethod_def Let_def] obtain lower where
    "unexport (sv_GoName service) = ok lower" by (auto simp: and_then_Inr_iff)
  with assms [unfolded genServerMethod_def Let_def] False
    stream_types_desc(2) [of service "method" "lower @ pm_GoName method @ ''Server''", unfolded desc_readers_def]
  show ?thesis unfolding desc_readers_def by (auto simp: gen_defs desc_variable_def stream_flag_def)
qed

lemma client_methods_desc:
  "client_methods G service u i methods = ok es \<Longrightarrow> map (\<lambda>f. collect f es) desc_readers = [[], [], [], []]"
proof (induction methods arbitrary: u i es)
  case (Cons m ms)
  from Cons.prems obtain es1 es2 where es: "es = es1 @ es2"
    and 1: "genClientMethod G service m (if unary m then u else i) = ok es1"
    and 2: "client_methods G service (if unary m then u + 1 else u) (if unary m then i else i + 1) ms = ok es2"
    by (auto simp: and_then_Inr_iff split: if_splits)
  from Cons.IH [OF 2] client_method_desc [OF 1] es show ?case by (simp add: desc_readers_def)
qed (simp add: desc_readers_def)

lemma server_methods_desc:
  "server_methods service methods = ok (hs, es) \<Longrightarrow> map (\<lambda>f. collect f es) desc_readers = [[], [], [], []]"
proof (induction methods arbitrary: hs es)
  case (Cons m ms)
  then obtain h es1 hs' es2 where es: "es = es1 @ es2"
    and 1: "genServerMethod service m = ok (h, es1)" and 2: "server_methods service ms = ok (hs', es2)"
    by (auto simp: and_then_Inr_iff)
  from Cons.IH [OF 2] server_method_desc [OF 1] es show ?case by (simp add: desc_readers_def)
qed (simp add: desc_readers_def)

lemma entry_desc:
  "map (\<lambda>f. collect f (method_entry h m)) desc_readers = [[], [], [], []]"
  "map (\<lambda>f. collect f (stream_entry h m)) desc_readers = [[], [], [], stream_row m]"
  unfolding method_entry_def stream_entry_def desc_readers_def
  by (simp_all add: gen_defs desc_variable_def stream_flag_def stream_row_def)

lemma descriptor_desc:
  "map (\<lambda>f. collect f (service_descriptor file service hs)) desc_readers =
     [[Quote (sv_FullName service)], [], [serviceDescVar service],
      concat (map stream_row (filter (\<lambda>m. \<not> unary m) (sv_Methods service)))]"
proof -
  have rows: "concat (map (\<lambda>x. if unary x then [] else stream_row x) xs) =
      concat (map stream_row (filter (\<lambda>m. \<not> unary m) xs))" for xs
    by (induction xs) simp_all
  have tables: "collect f (concat (map (\<lambda>(i, m). g i m) (enumerate k ms))) =
      concat (map (\<lambda>(i, m). collect f (g i m)) (enumerate k ms))" for f :: "emit \<Rightarrow> string list" and g k and ms :: "proto_method list"
    by (induction ms arbitrary: k) simp_all
  have snds: "concat (map (\<lambda>(i, m). h m) (enumerate k ms)) = concat (map h ms)"
    for h :: "proto_method \<Rightarrow> string list" and k ms by (induction ms arbitrary: k) simp_all
  show ?thesis
    unfolding service_descriptor_def desc_readers_def
    using entry_desc [unfolded desc_readers_def]
    by (simp add: gen_defs desc_variable_def stream_flag_def grpcPackage_def tables snds rows if_distrib [of "collect f" for f] cong: if_cong)
qed

section \<open>Stubs, handlers and descriptor fit together\<close>

lemma unexport_ok [simp]: "s \<noteq> [] \<Longrightarrow> unexport s = ok (lower_byte (hd s) @ tl s)"
  by (cases s) (simp_all add: unexport_def go_slice_def)

lemma genClientMethod_total: "sv_GoName service \<noteq> [] \<Longrightarrow> \<exists>es. genClientMethod G service m i = ok es"
  by (simp add: genClientMethod_def Let_def)

lemma client_methods_total: "sv_GoName service \<noteq> [] \<Longrightarrow> \<exists>es. client_methods G service u i ms = ok es"
proof (induction ms arbitrary: u i)
  case (Cons m ms)
  from genClientMethod_total [OF Cons.prems] obtain es where "genClientMethod G service m (if unary m then u else i) = ok es"
    by blast
  moreover from Cons obtain es' where
    "client_methods G service (if unary m then u + 1 else u) (if unary m then i else i + 1) ms = ok es'" by blast
  ultimately show ?case by (cases "unary m") auto
qed simp

lemma server_methods_total: "sv_GoName service \<noteq> [] \<Longrightarrow> \<exists>hs es. server_methods service ms = ok (hs, es)"
proof (induction ms)
  case (Cons m ms)
  then obtain hs es where "server_methods service ms = ok (hs, es)" by blast
  with Cons.prems show ?case by (auto simp: genServerMethod_def Let_def)
qed simp

lemma genService_parts:
  assumes "genService G r file service = ok es"
  obtains factory stubs handlers hs where
    "client_factory service = ok factory" "client_methods G service 0 0 (sv_Methods service) = ok stubs"
    "server_methods service (sv_Methods service) = ok (hs, handlers)"
    "es = client_interface G service @ factory @ stubs @ server_interface G r service
       @ unimplemented_server G r service @ registration service @ handlers @ service_descriptor file service hs"
  using assms by (auto simp: genService_def and_then_Inr_iff)

lemma genService_total:
  assumes "sv_GoName service \<noteq> []"
  shows "\<exists>es. genService G r file service = ok es"
proof -
  from client_methods_total [OF assms] obtain stubs where "client_methods G service 0 0 (sv_Methods service) = ok stubs"
    by blast
  moreover from server_methods_total [OF assms] obtain hs handlers where
    "server_methods service (sv_Methods service) = ok (hs, handlers)" by blast
  ultimately show ?thesis using assms by (simp add: genService_def client_factory_def Let_def)
qed

lemma genService_reads:
  assumes "genService G r file service = ok es"
  defines "u \<equiv> filter (\<lambda>m. unary m) (sv_Methods service)" and "s \<equiv> filter (\<lambda>m. \<not> unary m) (sv_Methods service)"
  shows "map (\<lambda>f. collect f es) readers =
      [map (sname service) u, map (Quote \<circ> pm_Name) s, map (Quote \<circ> pm_Name) u,
       map (hname service) u @ map (hname service) s,
       map (\<lambda>m. Quote (''/'' @ sv_FullName service @ ''/'' @ pm_GoName m)) u, map (hname service) (sv_Methods service)]"
    and "stream_calls es = map (\<lambda>(j, m). (serviceDescVar service, j, sname service m)) (enumerate 0 s)"
proof -
  from assms(1) obtain factory stubs handlers hs where parts: "client_factory service = ok factory"
    "client_methods G service 0 0 (sv_Methods service) = ok stubs"
    "server_methods service (sv_Methods service) = ok (hs, handlers)"
    "es = client_interface G service @ factory @ stubs @ server_interface G r service
       @ unimplemented_server G r service @ registration service @ handlers @ service_descriptor file service hs"
    by (rule genService_parts)
  note reads = interface_reads factory_reads [OF parts(1)] client_methods_reads [OF parts(2)]
    server_methods_reads [OF parts(3)] descriptor_reads [OF refl]
  have append: "map (\<lambda>f. collect f (xs @ ys)) readers =
      map2 (@) (map (\<lambda>f. collect f xs) readers) (map (\<lambda>f. collect f ys) readers)" for xs ys
    by (simp add: readers_def)
  show "map (\<lambda>f. collect f es) readers =
      [map (sname service) u, map (Quote \<circ> pm_Name) s, map (Quote \<circ> pm_Name) u,
       map (hname service) u @ map (hname service) s,
       map (\<lambda>m. Quote (''/'' @ sv_FullName service @ ''/'' @ pm_GoName m)) u, map (hname service) (sv_Methods service)]"
    unfolding parts(4) append reads u_def s_def by simp
  show "stream_calls es = map (\<lambda>(j, m). (serviceDescVar service, j, sname service m)) (enumerate 0 s)"
    unfolding parts(4) collect_append reads u_def s_def by simp
qed

lemma genService_desc:
  assumes "genService G r file service = ok es"
  shows "map (\<lambda>f. collect f es) desc_readers =
     [[Quote (sv_FullName service)], [serviceDescVar service], [serviceDescVar service],
      concat (map stream_row (filter (\<lambda>m. \<not> unary m) (sv_Methods service)))]"
proof -
  from assms obtain factory stubs handlers hs where parts: "client_factory service = ok factory"
    "client_methods G service 0 0 (sv_Methods service) = ok stubs"
    "server_methods service (sv_Methods service) = ok (hs, handlers)"
    "es = client_interface G service @ factory @ stubs @ server_interface G r service
       @ unimplemented_server G r service @ registration service @ handlers @ service_descriptor file service hs"
    by (rule genService_parts)
  have append: "map (\<lambda>f. collect f (xs @ ys)) desc_readers =
      map2 (@) (map (\<lambda>f. collect f xs) desc_readers) (map (\<lambda>f. collect f ys) desc_readers)" for xs ys
    by (simp add: desc_readers_def)
  show ?thesis
    unfolding parts(4) append interface_desc factory_desc [OF parts(1)] client_methods_desc [OF parts(2)]
      server_methods_desc [OF parts(3)] descriptor_desc by simp
qed

text \<open>
  C25: the client stubs call what the server serves. The descriptor is declared once and registered
  once, under the service's full name. The unary calls go to the paths of that full name and the unary
  methods' names, which are the descriptor's table of methods. The \<open>j\<close>-th streaming method is opened with index
  \<open>j\<close> of that descriptor variable and its own path, and the \<open>j\<close>-th row of the table of streams has its name
  and says which sides stream.
\<close>
theorem stubs_match_descriptor:
  assumes "genService G requireUnimplemented file service = ok es"
  defines "streaming \<equiv> filter (\<lambda>m. pm_StreamingClient m \<or> pm_StreamingServer m) (sv_Methods service)"
    and "simple \<equiv> filter (\<lambda>m. \<not> pm_StreamingClient m \<and> \<not> pm_StreamingServer m) (sv_Methods service)"
  shows "service_names es = [Quote (sv_FullName service)] \<and>
    desc_variables es = [''_'' @ sv_GoName service @ ''_serviceDesc''] \<and>
    registered es = [''_'' @ sv_GoName service @ ''_serviceDesc''] \<and>
    stream_calls es =
      map (\<lambda>(j, m). (''_'' @ sv_GoName service @ ''_serviceDesc'', j, ''/'' @ sv_FullName service @ ''/'' @ pm_Name m))
        (enumerate 0 streaming) \<and>
    stream_names es = map (\<lambda>m. Quote (pm_Name m)) streaming \<and>
    stream_rows es = concat (map stream_row streaming) \<and>
    invoke_paths es = map (\<lambda>m. ''/'' @ sv_FullName service @ ''/'' @ pm_Name m) simple \<and>
    method_names es = map (\<lambda>m. Quote (pm_Name m)) simple"
  using genService_reads [OF assms(1)] genService_desc [OF assms(1)]
  unfolding readers_def desc_readers_def streaming_def simple_def
  by (simp add: serviceDescVar_def sname_def comp_def)

text \<open>
  Every handler the descriptor refers to is a generated function, each one is generated once and
  referred to once.
\<close>
theorem handlers_referred_once:
  assumes "genService G requireUnimplemented file service = ok es"
  shows "mset (handler_refs es) = mset (handler_defs es) \<and>
    handler_defs es = map (\<lambda>m. ''_'' @ sv_GoName service @ ''_'' @ pm_GoName m @ ''_Handler'') (sv_Methods service)"
proof -
  let ?ms = "sv_Methods service"
  have parts: "mset (map f (filter (\<lambda>m. unary m) xs) @ map f (filter (\<lambda>m. \<not> unary m) xs)) = mset (map f xs)"
    for f :: "proto_method \<Rightarrow> string" and xs by (induction xs) auto
  from genService_reads(1) [OF assms] have
    "handler_refs es = map (hname service) (filter (\<lambda>m. unary m) ?ms) @ map (hname service) (filter (\<lambda>m. \<not> unary m) ?ms)"
    and defs: "handler_defs es = map (hname service) ?ms"
    unfolding readers_def by (simp_all only: list.map list.inject)
  then have "mset (handler_refs es) = mset (handler_defs es)" by (simp only: parts)
  with defs show ?thesis by (simp add: hname_def)
qed

text \<open>A name as protobuf allows it: letters, digits, underscores and the dots between packages.\<close>

definition proto_name :: "string \<Rightarrow> bool" where
  "proto_name s \<longleftrightarrow>
     (\<forall>c \<in> set s. let n = (of_char c :: nat) in
       48 \<le> n \<and> n \<le> 57 \<or> 65 \<le> n \<and> n \<le> 90 \<or> 97 \<le> n \<and> n \<le> 122 \<or> n = 95 \<or> n = 46)"

lemma quote_char_plain: "n = (of_char c :: nat) \<Longrightarrow> 35 \<le> n \<Longrightarrow> n < 127 \<Longrightarrow> n \<noteq> 92 \<Longrightarrow> quote_char c = [c]"
  by (simp add: quote_char_def)

lemma quote_name: "proto_name s \<Longrightarrow> concat (map quote_char s) = s"
proof (induction s)
  case (Cons c s)
  from Cons.prems have "quote_char c = [c]"
    by (intro quote_char_plain [OF refl]) (auto simp: proto_name_def Let_def)
  with Cons show ?case by (simp add: proto_name_def)
qed simp

lemma Quote_path_eq:
  assumes "proto_name a" and "proto_name b" and "proto_name c"
  shows "Quote (CHR ''/'' # a @ CHR ''/'' # b) = Quote (CHR ''/'' # a @ CHR ''/'' # c) \<longleftrightarrow> b = c"
  using assms by (simp add: Quote_def quote_name)

text \<open>
  C34: the path a server interceptor is told is the path the client called exactly when the method's
  name in the \<^verbatim>\<open>.proto\<close> file is already its Go name. For a method in lower case the two differ.
\<close>
theorem interceptor_path_matches_iff:
  assumes "genService G requireUnimplemented file service = ok es"
    and "proto_name (sv_FullName service)"
    and "\<forall>m \<in> set (sv_Methods service). proto_name (pm_GoName m) \<and> proto_name (pm_Name m)"
  shows "full_methods es = map Quote (invoke_paths es) \<longleftrightarrow>
    (\<forall>m \<in> set (sv_Methods service). \<not> pm_StreamingClient m \<and> \<not> pm_StreamingServer m \<longrightarrow> pm_GoName m = pm_Name m)"
proof -
  have iff: "full_methods es = map Quote (invoke_paths es) \<longleftrightarrow>
      (\<forall>m \<in> set (filter (\<lambda>m. unary m) (sv_Methods service)).
        Quote (''/'' @ sv_FullName service @ ''/'' @ pm_GoName m) = Quote (''/'' @ sv_FullName service @ ''/'' @ pm_Name m))"
    using genService_reads [OF assms(1)] unfolding readers_def by (simp add: sname_def)
  have eq: "Quote (''/'' @ sv_FullName service @ ''/'' @ pm_GoName m) = Quote (''/'' @ sv_FullName service @ ''/'' @ pm_Name m)
      \<longleftrightarrow> pm_GoName m = pm_Name m" if "m \<in> set (sv_Methods service)" for m
    using assms(2,3) that by (simp add: Quote_path_eq)
  show ?thesis
    unfolding iff using eq by (simp only: set_filter mem_Collect_eq Ball_def) blast
qed

text \<open>A service with one method of each kind, the unary one in lower case.\<close>

definition sample_method :: "string \<Rightarrow> string \<Rightarrow> bool \<Rightarrow> bool \<Rightarrow> proto_method" where
  "sample_method goName name client server =
     \<lparr>pm_GoName = goName, pm_Name = name, pm_Input = grpcPackage ''In'', pm_Output = grpcPackage ''Out'',
      pm_StreamingClient = client, pm_StreamingServer = server, pm_Deprecated = False, pm_Leading = [],
      pm_Location = ([], [])\<rparr>"

definition sample_proto_service :: proto_service where
  "sample_proto_service =
     \<lparr>sv_GoName = ''Hub'', sv_FullName = ''net.Hub'', sv_Deprecated = True,
      sv_Methods = [sample_method ''Watch'' ''Watch'' False True, sample_method ''GetKey'' ''getKey'' False False,
        sample_method ''Chat'' ''Chat'' True True],
      sv_Location = ([], [])\<rparr>"

definition sample_file :: proto_file where
  "sample_file = \<lparr>pf_Generate = True, pf_Prefix = ''hub'', pf_ImportPath = ''hub'', pf_PackageName = ''hub'',
     pf_Path = ''hub.proto'', pf_Services = [sample_proto_service]\<rparr>"

definition plain_protogen :: protogen where
  "plain_protogen = \<lparr>pg_QualifiedGoIdent = gi_GoName, pg_CommentText = (\<lambda>c. c)\<rparr>"

lemma sample_generates: "\<exists>es. genService plain_protogen True sample_file sample_proto_service = ok es"
  by (rule genService_total) (simp add: sample_proto_service_def)

lemma stubs_match_descriptor_witness:
  "\<exists>es. genService plain_protogen True sample_file sample_proto_service = ok es \<and>
    service_names es = [Quote ''net.Hub''] \<and> desc_variables es = registered es \<and>
    stream_calls es = [(''_Hub_serviceDesc'', 0, ''/net.Hub/Watch''), (''_Hub_serviceDesc'', 1, ''/net.Hub/Chat'')] \<and>
    stream_rows es = [Quote ''Watch'', ''ServerStreams: true,'',
      Quote ''Chat'', ''ServerStreams: true,'', ''ClientStreams: true,''] \<and>
    invoke_paths es = [''/net.Hub/getKey'']"
proof -
  from sample_generates obtain es where es: "genService plain_protogen True sample_file sample_proto_service = ok es"
    by blast
  from stubs_match_descriptor [OF es] es show ?thesis
    by (simp add: sample_proto_service_def sample_method_def enumerate_simps stream_row_def)
qed

lemma handlers_referred_once_witness:
  "\<exists>es. genService plain_protogen True sample_file sample_proto_service = ok es \<and>
    handler_defs es = [''_Hub_Watch_Handler'', ''_Hub_GetKey_Handler'', ''_Hub_Chat_Handler'']"
proof -
  from sample_generates obtain es where es: "genService plain_protogen True sample_file sample_proto_service = ok es"
    by blast
  from handlers_referred_once [OF es] es show ?thesis by (simp add: sample_proto_service_def sample_method_def)
qed

lemma interceptor_path_matches_iff_witness:
  "\<exists>es. genService plain_protogen True sample_file sample_proto_service = ok es \<and>
    full_methods es \<noteq> map Quote (invoke_paths es)"
proof -
  from sample_generates obtain es where es: "genService plain_protogen True sample_file sample_proto_service = ok es"
    by blast
  from interceptor_path_matches_iff [OF es] es show ?thesis
    by (simp add: sample_proto_service_def sample_method_def proto_name_def)
qed

end
