(* ===== verification/Grpc_Text.thy ===== *)
theory Grpc_Text
  imports Grpc_Gen
begin

text \<open>
  The text of a generated file: its brackets are balanced. Every function of the generator is shown to
  leave the nesting depth as it was, for each kind of bracket, and the parts are put together.
\<close>

section \<open>Brackets\<close>

text \<open>The nesting depth after a text, from a given depth; \<open>None\<close> when a bracket closes nothing.\<close>

fun depth :: "char \<Rightarrow> char \<Rightarrow> nat \<Rightarrow> string \<Rightarrow> nat option" where
  "depth l r d [] = Some d"
| "depth l r d (c # cs) =
     (if c = l then depth l r (Suc d) cs
      else if c = r then (case d of 0 \<Rightarrow> None | Suc e \<Rightarrow> depth l r e cs)
      else depth l r d cs)"

definition bracket_pairs :: "(char \<times> char) set" where
  "bracket_pairs = {(CHR ''{'', CHR ''}''), (CHR ''('', CHR '')''), (CHR ''['', CHR '']'')}"

definition plain_text :: "string \<Rightarrow> bool" where
  "plain_text s \<longleftrightarrow> (\<forall>c \<in> set s. c \<notin> set ''{}()[]'')"

lemma depth_append [simp]:
  "depth l r d (s @ t) = (case depth l r d s of None \<Rightarrow> None | Some e \<Rightarrow> depth l r e t)"
  by (induction s arbitrary: d) (auto split: nat.split)

lemma depth_plain [simp]: "plain_text s \<Longrightarrow> (l, r) \<in> bracket_pairs \<Longrightarrow> depth l r d s = Some d"
  by (induction s) (auto simp: plain_text_def bracket_pairs_def)

lemma plain_text_simps [simp]:
  "plain_text []" "plain_text (s @ t) \<longleftrightarrow> plain_text s \<and> plain_text t"
  "plain_text (c # s) \<longleftrightarrow> c \<notin> set ''{}()[]'' \<and> plain_text s"
  "plain_text (concat ss) \<longleftrightarrow> (\<forall>s \<in> set ss. plain_text s)"
  by (auto simp: plain_text_def)

text \<open>Output that leaves the depth as it was, for one kind of bracket.\<close>

definition nested :: "protogen \<Rightarrow> char \<Rightarrow> char \<Rightarrow> emit list \<Rightarrow> bool" where
  "nested G l r es \<longleftrightarrow> (\<forall>d. depth l r d (file_text G es) = Some d)"

lemma file_text_simps [simp]:
  "file_text G [] = []" "file_text G (es @ fs) = file_text G es @ file_text G fs"
  "file_text G (Line ps # es) = concat (map (piece_text G) ps) @ newline # file_text G es"
  "file_text G (Annotate a b # es) = file_text G es"
  by (simp_all add: file_text_def emit_text_def)

lemma nested_append: "nested G l r es \<Longrightarrow> nested G l r fs \<Longrightarrow> nested G l r (es @ fs)"
  by (simp add: nested_def)

lemma nested_concat: "(\<And>x. x \<in> set xs \<Longrightarrow> nested G l r (f x)) \<Longrightarrow> nested G l r (concat (map f xs))"
  by (induction xs) (simp_all add: nested_def)

lemma piece_text_simps [simp]:
  "piece_text G (Txt s) = s" "piece_text G (Ident i) = pg_QualifiedGoIdent G i"
  "piece_text G (Num n) = show_nat n" "piece_text G (Comments c) = pg_CommentText G c"
  by (simp_all add: piece_text_def)

lemma newline_plain [simp]: "newline \<notin> set ''{}()[]''" by (simp add: newline_def)

text \<open>Names and comments without brackets.\<close>

definition plain_ident :: "protogen \<Rightarrow> go_ident \<Rightarrow> bool" where
  "plain_ident G i \<longleftrightarrow> plain_text (pg_QualifiedGoIdent G i)"

definition plain_method :: "protogen \<Rightarrow> proto_method \<Rightarrow> bool" where
  "plain_method G m \<longleftrightarrow> plain_text (pm_GoName m) \<and> plain_text (pm_Name m) \<and>
     plain_ident G (pm_Input m) \<and> plain_ident G (pm_Output m) \<and> plain_text (pg_CommentText G (pm_Leading m))"

definition plain_service :: "protogen \<Rightarrow> proto_service \<Rightarrow> bool" where
  "plain_service G s \<longleftrightarrow> plain_text (sv_GoName s) \<and> plain_text (sv_FullName s) \<and>
     list_all (plain_method G) (sv_Methods s)"

text \<open>The identifiers of the packages the generated code imports.\<close>

definition plain_packages :: "protogen \<Rightarrow> bool" where
  "plain_packages G \<longleftrightarrow> list_all (plain_ident G)
     (contextPackage ''Context'' # statusPackage ''Errorf'' # codesPackage ''Unimplemented'' #
      map grpcPackage [''ClientConnInterface'', ''CallOption'', ''ClientStream'', ''ServerStream'', ''Server'',
        ''ServiceDesc'', ''MethodDesc'', ''StreamDesc'', ''UnaryServerInterceptor'', ''UnaryServerInfo'',
        ''SupportPackageIsVersion6''])"

lemma bracket_code: "c \<in> set ''{}()[]'' \<Longrightarrow> (of_char c :: nat) \<in> {40, 41, 91, 93, 123, 125}"
  by auto

lemma code_plain:
  assumes "n < 256" and "n \<notin> {40, 41, 91, 93, 123, 125 :: nat}"
  shows "char_of n \<notin> set ''{}()[]''"
proof
  assume "char_of n \<in> set ''{}()[]''"
  from bracket_code [OF this] assms(1) have "n \<in> {40, 41, 91, 93, 123, 125}" by (simp only: of_char_of) simp
  with assms(2) show False by contradiction
qed

lemma show_nat_plain [simp]: "plain_text (show_nat n)"
proof (induction n rule: show_nat.induct)
  case (1 n)
  have "digit_char k \<notin> set ''{}()[]''" if "k < 10" for k
    unfolding digit_char_def by (rule code_plain) (use that in auto)
  with 1 show ?case by (subst show_nat.simps) simp
qed

lemma lower_byte_plain:
  assumes "c \<notin> set ''{}()[]''"
  shows "plain_text (lower_byte c)"
proof (cases "65 \<le> (of_char c :: nat) \<and> (of_char c :: nat) \<le> 90")
  case True
  then have "char_of ((of_char c :: nat) + 32) \<notin> set ''{}()[]''" by (intro code_plain) auto
  with True show ?thesis by (simp add: lower_byte_def Let_def)
next
  case False
  then have "lower_byte c = [c] \<or> lower_byte c = [CHR 0xEF, CHR 0xBF, CHR 0xBD]"
    by (auto simp: lower_byte_def Let_def)
  with assms show ?thesis by auto
qed

lemma unexport_plain: "unexport s = ok t \<Longrightarrow> plain_text s \<Longrightarrow> plain_text t"
  by (cases s) (auto simp: unexport_def go_slice_def lower_byte_plain split: if_splits)

lemma quote_char_brackets: "c \<notin> set ''{}()[]'' \<Longrightarrow> plain_text (quote_char c)"
proof -
  have hex: "hex_digit k \<notin> set ''{}()[]''" if "k < 16" for k
    using code_plain [of "48 + k"] code_plain [of "87 + k"] that by (auto simp: hex_digit_def)
  have less: "(of_char c :: nat) < 256" by simp
  have "hex_digit (of_char c div 16) \<notin> set ''{}()[]''" "hex_digit (of_char c mod 16) \<notin> set ''{}()[]''"
    by (rule hex, use less in linarith) (rule hex, simp)
  then show "c \<notin> set ''{}()[]'' \<Longrightarrow> plain_text (quote_char c)"
    unfolding quote_char_def Let_def by simp
qed

lemma Quote_plain [simp]: "plain_text s \<Longrightarrow> plain_text (Quote s)"
  using quote_char_brackets by (auto simp: Quote_def plain_text_def [of s])

lemma join_plain [simp]: "plain_text sep \<Longrightarrow> list_all plain_text ss \<Longrightarrow> plain_text (join_strings sep ss)"
  by (induction sep ss rule: join_strings.induct) auto

text \<open>What every part of a file with plain names may use.\<close>

lemmas plain_defs = plain_service_def plain_method_def plain_ident_def plain_packages_def list_all_iff
  serviceDescVar_def sname_def hname_def deprecationComment_def

lemma bracket_pairs_simps [simp]:
  "(CHR ''{'', CHR ''}'') \<in> bracket_pairs" "(CHR ''('', CHR '')'') \<in> bracket_pairs"
  "(CHR ''['', CHR '']'') \<in> bracket_pairs"
  by (simp_all add: bracket_pairs_def)

lemma bracket_cases:
  assumes "(l, r) \<in> bracket_pairs"
  obtains "l = CHR ''{''" "r = CHR ''}''" | "l = CHR ''(''" "r = CHR '')''" | "l = CHR ''[''" "r = CHR '']''"
  using assms by (auto simp: bracket_pairs_def)

lemma clientSignature_depth:
  assumes "(l, r) \<in> bracket_pairs" and "plain_packages G" and "plain_service G service" and "plain_method G method"
  shows "depth l r d (clientSignature G service method) = Some d"
proof -
  note plain = assms(2-4) [unfolded plain_defs, simplified]
  from assms(1) show ?thesis
    by (cases rule: bracket_cases; cases "pm_StreamingClient method"; cases "pm_StreamingServer method")
       (simp_all add: clientSignature_def Let_def plain)
qed

lemma serverSignature_depth:
  assumes "(l, r) \<in> bracket_pairs" and "plain_packages G" and "plain_service G service" and "plain_method G method"
  shows "depth l r d (serverSignature G service method) = Some d"
proof -
  note plain = assms(2-4) [unfolded plain_defs, simplified]
  from assms(1) show ?thesis
    by (cases rule: bracket_cases; cases "pm_StreamingClient method"; cases "pm_StreamingServer method")
       (simp_all add: serverSignature_def Let_def plain)
qed

lemma nested_by_line:
  "nested G l r es" if "\<And>d. depth l r d (file_text G es) = Some d"
  using that by (simp add: nested_def)

lemma client_stream_types_nested:
  assumes "(l, r) \<in> bracket_pairs" and "plain_packages G" and "plain_service G service" and "plain_method G method"
    and "plain_text t"
  shows "nested G l r (client_stream_types service method t)"
proof -
  note plain = assms(2-5) [unfolded plain_defs, simplified]
  note line_defs = nested_def client_stream_types_def Let_def plain newline_def
  from assms(1) show ?thesis
  proof (cases rule: bracket_cases)
    case 1
    then show ?thesis
      by (cases "pm_StreamingClient method"; cases "pm_StreamingServer method") (simp_all add: line_defs)
  next
    case 2
    then show ?thesis
      by (cases "pm_StreamingClient method"; cases "pm_StreamingServer method") (simp_all add: line_defs)
  next
    case 3
    then show ?thesis
      by (cases "pm_StreamingClient method"; cases "pm_StreamingServer method") (simp_all add: line_defs)
  qed
qed

lemma server_stream_types_nested:
  assumes "(l, r) \<in> bracket_pairs" and "plain_packages G" and "plain_service G service" and "plain_method G method"
    and "plain_text t"
  shows "nested G l r (server_stream_types service method t)"
proof -
  note plain = assms(2-5) [unfolded plain_defs, simplified]
  note line_defs = nested_def server_stream_types_def Let_def plain newline_def
  from assms(1) show ?thesis
  proof (cases rule: bracket_cases)
    case 1
    then show ?thesis
      by (cases "pm_StreamingClient method"; cases "pm_StreamingServer method") (simp_all add: line_defs)
  next
    case 2
    then show ?thesis
      by (cases "pm_StreamingClient method"; cases "pm_StreamingServer method") (simp_all add: line_defs)
  next
    case 3
    then show ?thesis
      by (cases "pm_StreamingClient method"; cases "pm_StreamingServer method") (simp_all add: line_defs)
  qed
qed

lemma genClientMethod_nested:
  assumes pair: "(l, r) \<in> bracket_pairs" and "plain_packages G" and "plain_service G service" and "plain_method G method"
    and ok: "genClientMethod G service method i = ok es"
  shows "nested G l r es"
proof -
  note plain = assms(2-4) [unfolded plain_defs, simplified]
  from ok obtain lower where lower: "unexport (sv_GoName service) = ok lower"
    by (auto simp: genClientMethod_def and_then_Inr_iff)
  have low: "plain_text lower" by (rule unexport_plain [OF lower]) (simp add: plain)
  note es = ok [unfolded genClientMethod_def lower and_then_simps Let_def]
  note sig = clientSignature_depth [OF assms(1-4)]
  have types: "\<And>d. depth l r d (file_text G (client_stream_types service method (lower @ pm_GoName method @ ''Client''))) = Some d"
    using client_stream_types_nested [OF assms(1-4)] low plain by (simp add: nested_def)
  from pair es sig types show ?thesis unfolding nested_def
    by (cases rule: bracket_cases; cases "unary method"; cases "pm_StreamingClient method")
       (auto simp: plain low newline_def plain_defs)
qed

lemma genServerMethod_nested:
  assumes pair: "(l, r) \<in> bracket_pairs" and "plain_packages G" and "plain_service G service" and "plain_method G method"
    and ok: "genServerMethod service method = ok (h, es)"
  shows "nested G l r es \<and> plain_text h"
proof -
  note plain = assms(2-4) [unfolded plain_defs, simplified]
  show ?thesis
  proof (cases "unary method")
    case True
    from pair ok True show ?thesis unfolding nested_def
      by (cases rule: bracket_cases) (auto simp: genServerMethod_def Let_def plain newline_def plain_defs)
  next
    case False
    with ok obtain lower where lower: "unexport (sv_GoName service) = ok lower"
      by (auto simp: genServerMethod_def Let_def and_then_Inr_iff)
    have low: "plain_text lower" by (rule unexport_plain [OF lower]) (simp add: plain)
    note es = ok [unfolded genServerMethod_def lower and_then_simps Let_def]
    have types: "\<And>d. depth l r d (file_text G (server_stream_types service method (lower @ pm_GoName method @ ''Server''))) = Some d"
      using server_stream_types_nested [OF assms(1-4)] low plain by (simp add: nested_def)
    from pair es False types show ?thesis unfolding nested_def
      by (cases rule: bracket_cases; cases "pm_StreamingClient method")
         (auto simp: plain low newline_def plain_defs)
  qed
qed

lemma method_list_nested:
  assumes "plain_service G service" and "\<And>m. plain_method G m \<Longrightarrow> nested G l r (f m)"
  shows "nested G l r (concat (map f (sv_Methods service)))"
  by (rule nested_concat) (use assms in \<open>auto simp: plain_service_def list_all_iff\<close>)

lemma client_methods_nested:
  assumes pair: "(l, r) \<in> bracket_pairs" and "plain_packages G" and "plain_service G service"
    and "list_all (plain_method G) ms" and "client_methods G service u i ms = ok es"
  shows "nested G l r es"
  using assms(4,5)
proof (induction ms arbitrary: u i es)
  case (Cons m ms)
  then obtain es1 es2 where "es = es1 @ es2"
    and 1: "genClientMethod G service m (if unary m then u else i) = ok es1"
    and 2: "client_methods G service (if unary m then u + 1 else u) (if unary m then i else i + 1) ms = ok es2"
    by (auto simp: and_then_Inr_iff split: if_splits)
  with Cons.IH [OF _ 2] Cons.prems(1) genClientMethod_nested [OF assms(1-3) _ 1] show ?case
    by (simp add: nested_append)
qed (simp add: nested_def)

lemma server_methods_nested:
  assumes pair: "(l, r) \<in> bracket_pairs" and "plain_packages G" and "plain_service G service"
    and "list_all (plain_method G) ms" and "server_methods service ms = ok (hs, es)"
  shows "nested G l r es \<and> list_all plain_text hs"
  using assms(4,5)
proof (induction ms arbitrary: hs es)
  case (Cons m ms)
  then obtain h es1 hs2 es2 where "es = es1 @ es2" "hs = h # hs2"
    and 1: "genServerMethod service m = ok (h, es1)" and 2: "server_methods service ms = ok (hs2, es2)"
    by (auto simp: and_then_Inr_iff)
  with Cons.IH [OF _ 2] Cons.prems(1) genServerMethod_nested [OF assms(1-3) _ 1] show ?case
    by (simp add: nested_append)
qed (simp add: nested_def)

lemma interfaces_nested:
  assumes pair: "(l, r) \<in> bracket_pairs" and "plain_packages G" and "plain_service G service"
  shows "nested G l r (client_interface G service)" and "nested G l r (server_interface G b service)"
    and "nested G l r (unimplemented_server G b service)" and "nested G l r (registration service)"
    and "client_factory service = ok es \<Longrightarrow> nested G l r es"
proof -
  note plain = assms(2,3) [unfolded plain_defs, simplified]
  note csig = clientSignature_depth [OF assms] and ssig = serverSignature_depth [OF assms]
  have entry: "nested G l r (concat (map (\<lambda>m. [Annotate (g m) (pm_Location m)] @
      if_out (pm_Deprecated m) (gT deprecationComment) @ gP [Comments (pm_Leading m), Txt (s m)]) (sv_Methods service)))"
    if "\<And>m d. plain_method G m \<Longrightarrow> depth l r d (s m) = Some d" for g s
  proof (rule method_list_nested [OF assms(3)])
    fix m assume m: "plain_method G m"
    from pair that [OF m] m show "nested G l r ([Annotate (g m) (pm_Location m)] @
        if_out (pm_Deprecated m) (gT deprecationComment) @ gP [Comments (pm_Leading m), Txt (s m)])"
      by (cases rule: bracket_cases) (simp_all add: nested_def plain_defs newline_def)
  qed
  note centries = entry [OF csig, unfolded nested_def] and sentries = entry [OF ssig, unfolded nested_def]
  from pair centries show "nested G l r (client_interface G service)"
    unfolding nested_def client_interface_def Let_def
    by (cases rule: bracket_cases) (simp_all add: deprecated_note_def plain deprecationComment_def newline_def)
  from pair sentries show "nested G l r (server_interface G b service)"
    unfolding nested_def server_interface_def Let_def
    by (cases rule: bracket_cases) (simp_all add: deprecated_note_def plain deprecationComment_def newline_def)
  have stub: "nested G l r (concat (map (\<lambda>m.
      gP [Txt ''func (*Unimplemented'', Txt (sv_GoName service @ ''Server''), Txt '') '', Txt (serverSignature G service m), Txt ''{'']
      @ gP [Txt ''return '', Txt (if unary m then ''nil,'' else ''''), Ident (statusPackage ''Errorf''), Txt ''('',
          Ident (codesPackage ''Unimplemented''), Txt ('', '' @ dquote @ ''method ''), Txt (pm_GoName m),
          Txt ('' not implemented'' @ dquote @ '')'')]
      @ gT ''}'') (sv_Methods service)))"
  proof (rule method_list_nested [OF assms(3)])
    fix m assume m: "plain_method G m"
    from pair ssig [OF m] m show "nested G l r (
      gP [Txt ''func (*Unimplemented'', Txt (sv_GoName service @ ''Server''), Txt '') '', Txt (serverSignature G service m), Txt ''{'']
      @ gP [Txt ''return '', Txt (if unary m then ''nil,'' else ''''), Ident (statusPackage ''Errorf''), Txt ''('',
          Ident (codesPackage ''Unimplemented''), Txt ('', '' @ dquote @ ''method ''), Txt (pm_GoName m),
          Txt ('' not implemented'' @ dquote @ '')'')]
      @ gT ''}'')"
      by (cases rule: bracket_cases) (simp_all add: nested_def plain plain_method_def newline_def)
  qed
  from pair stub show "nested G l r (unimplemented_server G b service)"
    unfolding nested_def unimplemented_server_def Let_def
    by (cases rule: bracket_cases) (simp_all add: plain newline_def)
  from pair show "nested G l r (registration service)"
    unfolding nested_def registration_def
    by (cases rule: bracket_cases) (simp_all add: plain plain_defs newline_def)
  assume "client_factory service = ok es"
  then obtain lower where lower: "unexport (sv_GoName service @ ''Client'') = ok lower"
    by (auto simp: client_factory_def Let_def and_then_Inr_iff)
  have low: "plain_text lower" by (rule unexport_plain [OF lower]) (simp add: plain)
  from pair \<open>client_factory service = ok es\<close> show "nested G l r es"
    unfolding nested_def client_factory_def Let_def lower and_then_simps
    by (cases rule: bracket_cases) (auto simp: plain low deprecationComment_def newline_def)
qed

lemma service_descriptor_nested:
  assumes pair: "(l, r) \<in> bracket_pairs" and "plain_packages G" and "plain_service G service"
    and "plain_text (pf_Path file)" and hs: "hs = map (hname service) (sv_Methods service)"
  shows "nested G l r (service_descriptor file service hs)"
proof -
  note plain = assms(2-4) [unfolded plain_defs, simplified]
  have handler: "nested G l r (method_entry (hname service m) m)" if "plain_method G m" for m
    using pair that plain by (cases rule: bracket_cases) (simp_all add: nested_def method_entry_def plain_defs newline_def)
  have stream: "nested G l r (stream_entry (hname service m) m)" if "plain_method G m" for m
    using pair that plain by (cases rule: bracket_cases) (simp_all add: nested_def stream_entry_def plain_defs newline_def)
  have "nested G l r (concat (map (\<lambda>m. if unary m then method_entry (hname service m) m else []) (sv_Methods service)))"
    by (rule method_list_nested [OF assms(3)]) (simp add: handler nested_def [of _ _ _ "[]"])
  moreover have "nested G l r (concat (map (\<lambda>m. if unary m then [] else stream_entry (hname service m) m) (sv_Methods service)))"
    by (rule method_list_nested [OF assms(3)]) (simp add: stream nested_def [of _ _ _ "[]"])
  moreover note
    indexed_map [of "\<lambda>h m. if unary m then method_entry h m else []" "hname service" "sv_Methods service"]
    indexed_map [of "\<lambda>h m. if unary m then [] else stream_entry h m" "hname service" "sv_Methods service"]
  ultimately have tables:
    "nested G l r (concat (map (\<lambda>(i, m). if unary m then method_entry (hs ! i) m else []) (enumerate 0 (sv_Methods service))))"
    "nested G l r (concat (map (\<lambda>(i, m). if unary m then [] else stream_entry (hs ! i) m) (enumerate 0 (sv_Methods service))))"
    unfolding hs by (simp_all only:)
  from pair tables show ?thesis
    unfolding nested_def service_descriptor_def
    by (cases rule: bracket_cases) (simp_all add: plain plain_defs newline_def)
qed

lemma genService_nested:
  assumes "(l, r) \<in> bracket_pairs" and "plain_packages G" and "plain_service G service"
    and "plain_text (pf_Path file)" and "genService G b file service = ok es"
  shows "nested G l r es"
proof -
  from assms(5) obtain factory stubs handlers hs where parts: "client_factory service = ok factory"
    "client_methods G service 0 0 (sv_Methods service) = ok stubs"
    "server_methods service (sv_Methods service) = ok (hs, handlers)"
    "es = client_interface G service @ factory @ stubs @ server_interface G b service
       @ unimplemented_server G b service @ registration service @ handlers @ service_descriptor file service hs"
    by (rule genService_parts)
  have ms: "list_all (plain_method G) (sv_Methods service)" using assms(3) by (simp add: plain_service_def)
  from interfaces_nested [OF assms(1-3)] parts(1) client_methods_nested [OF assms(1-3) ms parts(2)]
    server_methods_nested [OF assms(1-3) ms parts(3)]
    service_descriptor_nested [OF assms(1-4) server_methods_reads(1) [OF parts(3)]]
  show ?thesis unfolding parts(4) by (intro nested_append) simp_all
qed

definition plain_file :: "protogen \<Rightarrow> proto_file \<Rightarrow> bool" where
  "plain_file G file \<longleftrightarrow> plain_packages G \<and> plain_text (pf_Path file) \<and> plain_text (pf_PackageName file) \<and>
     list_all (plain_service G) (pf_Services file)"

text \<open>
  C26: the generated text is balanced in braces, parentheses and square brackets: none is closed before
  it was opened and all are closed at the end, when the names and comments of the file have none.
\<close>
theorem generated_text_balanced:
  assumes "generateFile G requireUnimplemented file = ok (Some (name, es))" and "plain_file G file"
    and "(l, r) \<in> {(CHR ''{'', CHR ''}''), (CHR ''('', CHR '')''), (CHR ''['', CHR '']'')}"
  shows "depth l r 0 (file_text G es) = Some 0"
proof -
  from assms(3) have pair: "(l, r) \<in> bracket_pairs" by (simp add: bracket_pairs_def)
  have services: "nested G l r fs" if "gen_services G requireUnimplemented file ss = ok fs" "list_all (plain_service G) ss"
    for ss fs using that
  proof (induction ss arbitrary: fs)
    case (Cons s ss)
    then obtain f1 f2 where fs: "fs = f1 @ f2" and 1: "genService G requireUnimplemented file s = ok f1"
      and 2: "gen_services G requireUnimplemented file ss = ok f2" by (auto simp: and_then_Inr_iff)
    have "nested G l r f1"
      by (rule genService_nested [OF pair _ _ _ 1]) (use Cons.prems assms(2) in \<open>simp_all add: plain_file_def\<close>)
    moreover have "nested G l r f2" using Cons.IH [OF 2] Cons.prems by simp
    ultimately show ?case unfolding fs by (rule nested_append)
  qed (simp add: nested_def)
  from assms(1) obtain fs where "gen_services G requireUnimplemented file (pf_Services file) = ok fs"
    "es = gT ''// Code generated by protoc-gen-go-grpc. DO NOT EDIT.'' @ gP []
      @ gP [Txt ''package '', Txt (pf_PackageName file)] @ gP []
      @ gT ''// This is a compile-time assertion to ensure that this generated file''
      @ gT ''// is compatible with the grpc package it is being compiled against.''
      @ gP [Txt ''const _ = '', Ident (grpcPackage ''SupportPackageIsVersion6'')] @ gP [] @ fs"
    by (auto simp: generateFile_def generateFileContent_def and_then_Inr_iff split: if_splits)
  with pair services [of "pf_Services file" fs] assms(2) show ?thesis
    by (cases rule: bracket_cases) (simp_all add: nested_def plain_file_def plain_packages_def plain_ident_def newline_def)
qed

lemma sample_file_plain: "plain_file plain_protogen sample_file"
  by (simp add: plain_file_def plain_packages_def plain_ident_def plain_protogen_def sample_file_def
      sample_proto_service_def sample_method_def plain_service_def plain_method_def contextPackage_def
      grpcPackage_def codesPackage_def statusPackage_def)

lemma generated_text_balanced_witness:
  "\<exists>name es. generateFile plain_protogen True sample_file = ok (Some (name, es)) \<and>
    depth (CHR ''{'') (CHR ''}'') 0 (file_text plain_protogen es) = Some 0"
proof -
  from sample_generates obtain fs where "genService plain_protogen True sample_file sample_proto_service = ok fs"
    by blast
  then obtain name es where es: "generateFile plain_protogen True sample_file = ok (Some (name, es))"
    by (simp add: generateFile_def generateFileContent_def sample_file_def)
  from generated_text_balanced [OF es sample_file_plain, of "CHR ''{''" "CHR ''}''"] es show ?thesis by auto
qed

end
