(* ===== verification/Spec2Isabelle.thy ===== *)
theory Spec2Isabelle
  imports Peer_Facts Bootstrap Hub_Server Shutdown Locks Progress Status Grpc_Text
begin

text \<open>
  A model of the Lachain communication hub, the Go library that connects a blockchain node to its
  peers over libp2p, with the properties that make it correct and the places where it is not.

  THE PROGRAM. The node calls the functions exported by \<^verbatim>\<open>embedded_hub.go\<close>. They drive one
  \<open>PeerService\<close> (\<^verbatim>\<open>peer_service/peer_service.go\<close>), which keeps a \<open>Connection\<close> per peer
  (\<^verbatim>\<open>peer_service/connection/connection.go\<close>). A connection has three goroutines: a receive cycle that
  reads frames (\<^verbatim>\<open>communication/communication.go\<close>) from the inbound stream, a send cycle that takes
  envelopes from a queue (\<^verbatim>\<open>utils/message_queue.go\<close>) and writes frames to the outbound stream, and a
  cycle that sends the list of known peers (\<^verbatim>\<open>peer_service/connection/metadata.go\<close>). Peers prove who
  they are with a signature over their peer id (\<^verbatim>\<open>utils/crypto.go\<close>). Received messages end in the
  inbox that \<open>GetMessages\<close> empties into the node's buffer.

  THE THEORIES, in the order of the dependencies.
  \<^item> \<open>Prelude\<close>: words, errors and panics as values (\<open>'a go\<close>), slices, \<open>encoding/binary\<close>; the contracts
    \<open>fifo_queue\<close>, \<open>prefix_codec\<close>, \<open>invariant_machine\<close>, \<open>unless_machine\<close>, \<open>budget_simulation\<close> with the
    lemmas proved once inside them.
  \<^item> \<open>Utils_Queue\<close>: random ids, envelopes, the message queue and the spam queue; both are interpreted as
    \<open>fifo_queue\<close>. \<open>Utils_Crypto\<close>: \<open>LaSign\<close>, \<open>EcRecover\<close>, hexadecimal text. \<open>Throughput\<close>: the calculator of
    \<^verbatim>\<open>throughput/calculator.go\<close>.
  \<^item> \<open>Crc32\<close> and \<open>Communication\<close>: the checksum and the frame format with \<open>Encode\<close>, \<open>ReadFromReader\<close> and
    \<open>ReadOnce\<close>, on top of \<open>bufio.Reader\<close> and \<open>io.ReadFull\<close>; a frame is a \<open>prefix_codec\<close>.
  \<^item> \<open>Net_Lib\<close>: the parameter for libp2p ids, multiaddresses and gob. \<open>Metadata\<close>: the peer list format, a
    \<open>prefix_codec\<close>. \<open>Config\<close>: \<^verbatim>\<open>config/config.go\<close> with the key file and the listen address of
    \<^verbatim>\<open>host/builder.go\<close>, whose file operations may fail (\<open>file_faults\<close>); \<open>Host\<close>: \<open>GenerateKey\<close> and \<open>BuildNamedHost\<close>.
  \<^item> \<open>Connection_State\<close> (record, constructors, status, streams, confirmations), \<open>Connection_Spam\<close> (the
    duplicate filter, simulated by a bounded window of ids), \<open>Connection_Recv\<close> (the receive cycle and
    its handlers), \<open>Connection_Send\<close> (connecting, the send cycle with its program counter, the signature
    and peer cycles), \<open>Connection\<close> (all goroutines and methods interleaved by \<open>conn_step\<close>), \<open>Status\<close> (the
    single loads, \<open>CAS\<close> calls and stores of the status, interleaved between concurrent calls).
  \<^item> \<open>Protocol_Match\<close>: \<open>Sscanf\<close>/\<open>Sprintf\<close> of the protocol string. \<open>Peer_Service\<close>: every method and callback
    of the service; \<open>Peer_Table\<close>: its machine \<open>ps_step\<close>, the table invariant and the properties;
    \<open>Peer_Facts\<close>: the contract \<open>connection_fact\<close> that lifts a fact about single connections to the whole
    table, with two instances, and where a connection's key comes from.
  \<^item> \<open>Hub\<close>: the exported functions; \<open>Hub_Server\<close>: metrics endpoint, profiler and log lines; \<open>Bootstrap\<close>:
    \<open>StartHub\<close> from the bootstrap string to the connections.
  \<^item> \<open>Link\<close>: two connections of two hubs and a network that loses, repeats and reorders frames (\<open>link_step\<close>);
    \<open>Progress\<close>: what the send cycle achieves once the peer is reachable.
  \<^item> \<open>Locks\<close>: the service's mutex, the stream locks and every thread that takes them, for any number of
    connections, with the contract \<open>lock\<close>; \<open>Shutdown\<close>: an earlier, smaller relation for \<open>Stop\<close> against one
    connection, which lets the send cycle ask for relays at any time.
  \<^item> \<open>Grpc_Gen\<close> and \<open>Grpc_Text\<close>: the code generator of \<^verbatim>\<open>cmd/protoc-gen-go-grpc\<close>, and the text it prints.
  \<^item> This theory: properties that span two hubs.

  CORRESPONDENCE. A Go struct is a record with the same field names, a method a function from the state
  to the new state and the list of its actions on the outside (callbacks, stream writes and resets,
  goroutines started). A panic is the value \<open>panic p\<close>; it ends the process, so machines that run many
  steps report it and keep the state. Mutexes of the service, of the hub and of the queues make their
  bodies atomic; between the steps of the two cycles any other step may happen (\<open>conn_step\<close>), and a
  blocking read is a point between two steps (\<open>recv_step\<close>). Flags and stream fields that the code reads
  without a lock are taken to be read and written atomically, and the nil test and the use of a stream
  within one step are not interrupted. In \<open>conn_step\<close> a method's test of the status and its \<open>CAS\<close> calls
  (\<open>SetInboundStream\<close>, \<open>checkOutboundStream\<close>, \<open>handleSignature\<close>, \<open>TrySetPeerPublicKey\<close>) are one step; \<open>Status\<close>
  takes them apart and ties each method to its list of accesses. \<open>Terminate\<close> in \<open>conn_step\<close> does not hold the
  service's mutex, as its only caller \<open>Stop\<close> does; who waits for whom is the subject of \<open>Locks\<close>. Go's map iteration order is the argument \<open>order\<close>. Clock readings,
  random ids, dial, stream and write results are arguments of the step that uses them.

  WHAT THE LEMMAS SHOW. Round trips (frames for any chunking, peer lists, hexadecimal text, signatures,
  protocol strings, the node's buffer); simulation of the duplicate filter by a window; invariants of
  the connection (key, status, custody of a consensus message) and of the service (tables, numbers, a
  key behind every completed handshake, an address for every peer) under every interleaving; the
  sources of a key; between two hubs, that what is delivered was submitted, that a confirmation of an id means the
  delivery of a consensus message submitted under that id, and that a consensus message is kept until
  then or until an attempt to send fails past the two minutes; progress of the send cycle;
  bounds of retries; order of delivery; the end of both cycles after \<open>Terminate\<close>; the exact conditions of panics; and
  the exact states from which the service's mutex is never free again. Of the generator: that stubs
  and descriptor agree, which handlers are referred to, and that the brackets of its text balance.

  BOUNDS. The duplicate filter is exact for fewer than \<open>2 ^ 32\<close> frames of a connection, where its 32-bit
  counters cannot wrap, and remembers 9999 ids; connection numbers are unique for up to \<open>2 ^ 32\<close>
  connections; frames are below \<open>2 ^ 32\<close> bytes. No definition needs fuel: loops are recursive functions with
  termination proofs, and endless loops are step functions.

  NOT MODELLED. libp2p, go-ethereum's curve and hash functions, gob, the clock, \<open>math/rand\<close> and \<open>protogen\<close> are
  parameters (\<open>net_lib\<close>, \<open>crypto_lib\<close>, \<open>key_lib\<close>, \<open>host_env\<close>, \<open>prng\<close>, \<open>fifo\<close>, \<open>protogen\<close>); log calls and Prometheus
  counters are left out, as are the flags of the generator's \<open>main\<close> (the one flag is an argument).
  \<^verbatim>\<open>Lachain.CommunicationHub.Net\<close> is the C# binding. Data races on unlocked fields are outside the model.
  Of the file system, \<open>Sync\<close> and \<open>Close\<close>, whose results the code ignores, are left out.
  In \<open>Locks\<close> the goroutine of \<open>sendSignature\<close>, which takes a stream lock only to write, and the node's
  requests, which hold the mutex for a bounded computation, are left out.

  PLAN. Next: one machine in which the callbacks of the connections run as steps of the service, so
  that a message can be followed from the frame of one hub to the buffer of the other node.
\<close>

section \<open>The handshake, from key to key\<close>

lemma valid_frame_small: "length (frm_data f) < 2 ^ 31 \<Longrightarrow> valid_frame f"
  by (simp add: valid_frame_def frame_length_def)

text \<open>
  C1: the handshake works end to end: the signature the node made over its peer id with \<open>LaSign\<close> goes out in one
  frame of \<open>sendSignature\<close>; the other hub, however the bytes are cut up on the way, reads that frame
  back and its new connection ends up with the signer's public key and announced address, in status
  \<open>HandshakeComplete\<close>, reporting the key once. It relies on the library recovering the key from the
  signature it made and on addresses surviving their binary form.
\<close>
theorem handshake_end_to_end:
  assumes "MarshalId N pid = Inr idBytes"
    and "Sign C (Keccak256 C idBytes) prv = Inr s" and "length s = 65" and "s ! 64 = 0 \<or> s ! 64 = 1"
    and "Ecrecover C (Keccak256 C idBytes) s = Inr rpk" and "UnmarshalPubkey C rpk = Inr pk"
    and "chainId \<noteq> 0" and "LaSign C idBytes prv chainId = ok t"
    and "NewMultiaddrBytes N (AddrBytes N a) = Inr a" and "length (AddrBytes N a) < 2 ^ 30"
    and "status cA \<noteq> Terminated" and "outboundStream cA = Some st" and "signature cA = Some t"
    and "myAddress cA = Some a" and "he_write h = None"
  shows "\<exists>f. sig_step N chainId h rndId backoff cA =
      ok (None, [WriteFrame st f, OutboundTPS (length (frm_data f))]) \<and>
    (\<forall>r rest. content r = Encode f @ rest \<longrightarrow>
      (\<exists>r' cB. ReadFromReader r = (ok f, r') \<and> content r' = rest \<and>
        receive_frame C N chainId f (conn_init pid protocol my uid) =
          ok (cB, [InboundTPS (length (frm_data f)), OnPublicKeyRecovered (PublicKeyToHexString C pk)]) \<and>
        PeerPublicKey cB = PublicKeyToHexString C pk \<and> PeerAddress cB = Some a \<and>
        status cB = HandshakeComplete))"
proof -
  let ?n = "sig_length chainId"
  let ?f = "NewFrame FSignature (t @ AddrBytes N a) rndId"
  let ?c = "conn_init pid protocol my uid"
  from recover_signed [OF assms(2-4,7)] assms(5,6,8) have t: "length t = ?n" "EcRecover C idBytes t chainId = ok pk"
    by (auto simp: sig_length_def not_less)
  have out: "sig_step N chainId h rndId backoff cA = ok (None, [WriteFrame st ?f, OutboundTPS (length (frm_data ?f))])"
    using assms(11-15) t(1) by (simp add: sig_step_def sig_length_def Let_def)
  have valid: "valid_frame ?f"
    by (rule valid_frame_small) (use t(1) assms(10) in \<open>simp add: sig_length_def split: if_splits\<close>)
  obtain c1 where c1: "spam_filter rndId ?c = ok (c1, True)"
    using spam_filter_known [OF spam_inv_init [of pid protocol my uid], of rndId] by (auto simp: window_of_init)
  note same = spam_filter_fields [OF c1]
  let ?cB = "handshake_done (c1\<lparr>PeerPublicKey := PublicKeyToHexString C pk, PeerAddress := Some a\<rparr>)"
  have "handleSignature C N chainId (t @ AddrBytes N a) c1 =
      ok (?cB, [OnPublicKeyRecovered (PublicKeyToHexString C pk)])"
    using assms(1,9) t same
    by (simp add: handleSignature_def go_slice_def validatePublicKey_def Let_def)
  then have rcv: "receive_frame C N chainId ?f ?c =
      ok (?cB, [InboundTPS (length (frm_data ?f)), OnPublicKeyRecovered (PublicKeyToHexString C pk)])"
    using c1 by (simp add: receive_frame_def handle_frame_def frame_kind_defs)
  show ?thesis
    using out rcv ReadFromReader_Encode [OF valid] same(3) by (intro exI [of _ ?f]) fastforce
qed

lemma handshake_end_to_end_witness:
  "\<exists>f. sig_step toy_net 200 sample_host 5 0
       ((conn_init [9] ''p'' (Some ''/x'') 0)\<lparr>outboundStream := Some sample_stream,
          signature := Some (replicate 64 0 @ [1, 180])\<rparr>) =
      ok (None, [WriteFrame sample_stream f, OutboundTPS (length (frm_data f))]) \<and>
    (\<forall>r rest. content r = Encode f @ rest \<longrightarrow>
      (\<exists>r' cB. ReadFromReader r = (ok f, r') \<and> content r' = rest \<and>
        receive_frame toy_crypto toy_net 200 f (conn_init [1, 2] ''p'' None 0) =
          ok (cB, [InboundTPS (length (frm_data f)), OnPublicKeyRecovered (PublicKeyToHexString toy_crypto [7])]) \<and>
        PeerPublicKey cB = PublicKeyToHexString toy_crypto [7] \<and> PeerAddress cB = Some ''/x'' \<and>
        status cB = HandshakeComplete))"
proof (rule handshake_end_to_end [where idBytes = "[1, 2]" and s = "replicate 64 0 @ [1]" and rpk = "[4, 7]" and prv = "[]"])
  show "LaSign toy_crypto [1, 2] [] 200 = ok (replicate 64 0 @ [1, 180])" by code_simp
qed (simp_all add: toy_net_def toy_crypto_def nth_append conn_init_def sample_host_def, simp_all add: text_bytes_def)

section \<open>A consensus message, its confirmation and the way back\<close>

text \<open>
  C27: one exchange confirms a consensus message: the request the sender writes is passed to the application at the
  other hub and queued for reply there; the frame that hub's send cycle writes for it, received by
  the sender, marks the message's id as confirmed (so that the next attempt drops the message).
\<close>
theorem consensus_confirmed_in_one_exchange:
  assumes "sl_pc l = SSend" and "msgKind l = KConsensus" and "msgToSend l = Some d" and "msgId l = i"
    and "outboundStream cA = Some s" and "he_write h = None" and "confirmReceived cA i = None"
    and "spam_inv kA cA" and "kA < 2 ^ 32 - 1" and "i \<notin> set (window_of cA)"
    and "spam_inv kB cB" and "kB < 2 ^ 32 - 1" and "i \<notin> set (window_of cB)"
    and "status cB \<noteq> Terminated" and "outboundStream cB = Some s'" and "mq_list (messageQueue cB) = []"
    and "sl_pc lB = STop" and "msgToSend lB = None"
    and "healthy h1" and "healthy h2" and "healthy h3"
  shows "\<exists>l' cA' f cB' g cA''.
    send_step N h (l, cA) = ok (l', cA', [WriteFrame s f, OutboundTPS (length d)]) \<and>
    receive_frame C N chainId f cB = ok (cB', [InboundTPS (length d), OnMessage d]) \<and>
    writes (snd (run (send_machine N) (lB, cB') [h1, h2, h3])) = [(s', g)] \<and>
    receive_frame C N chainId g cA' = ok (cA'', [InboundTPS 1]) \<and>
    confirmReceived cA'' i = Some True"
proof -
  let ?f = "NewFrameWithId FMessageConfirmRequest d i"
  let ?reply = "NewEnvelopWithId (Some [0]) KConfirmReply i"
  let ?g = "NewFrameWithId FConfirmReply [0] i"
  let ?A = "addToQueue (NewEnvelopWithId (Some d) KConsensus i) (addMsgIdToConfirm i cA)"
  obtain l' where out: "send_step N h (l, cA) = ok (l', ?A, [WriteFrame s ?f, OutboundTPS (length d)])"
    using assms(1-7) by (simp add: send_step_def send_write_def build_frame_def checkConfirmation_def Let_def)
  obtain b1 where b1: "spam_filter i cB = ok (b1, True)"
    using spam_filter_known [OF assms(11,12), of i] assms(13) by auto
  let ?B = "addToQueue ?reply b1"
  have rcv: "receive_frame C N chainId ?f cB = ok (?B, [InboundTPS (length d), OnMessage d])"
    using b1 by (simp add: receive_frame_def handle_frame_def frame_kind_defs)
  note sameB = spam_filter_fields [OF b1]
  have "idle s' [?reply] (lB, ?B)"
    using assms(14-18) sameB by (simp add: idle_def addToQueue_def MQ_Enqueue_def)
  from send_one [OF this _ assms(19-21), of N] have
    wr: "writes (snd (run (send_machine N) (lB, ?B) [h1, h2, h3])) = [(s', ?g)]"
    by (simp add: plain_def frame_of_def)
  have "spam_inv kA ?A" "i \<notin> set (window_of ?A)"
    using assms(8,10) by (simp_all add: spam_inv_def window_of_def addToQueue_def addMsgIdToConfirm_def)
  then obtain a1 where a1: "spam_filter i ?A = ok (a1, True)"
    using spam_filter_known [OF _ assms(9), of ?A i] by auto
  have conf: "confirmReceived a1 i = Some False"
    by (subst spam_filter_effect [OF a1]) (simp add: addToQueue_def addMsgIdToConfirm_def)
  have "receive_frame C N chainId ?g ?A = ok (confirmationReceived i a1, [InboundTPS 1])"
    using a1 by (simp add: receive_frame_def handle_frame_def frame_kind_defs)
  moreover have "confirmReceived (confirmationReceived i a1) i = Some True"
    using conf by (simp add: confirmationReceived_def)
  ultimately show ?thesis using out rcv wr by blast
qed

lemma consensus_confirmed_in_one_exchange_witness:
  "\<exists>l' cA' f cB' g cA''.
    send_step toy_net sample_host
      ((send_init 0)\<lparr>sl_pc := SSend, msgToSend := Some [7], msgKind := KConsensus, msgId := 5\<rparr>,
       (conn_init [1] ''p'' None 0)\<lparr>outboundStream := Some sample_stream\<rparr>) =
      ok (l', cA', [WriteFrame sample_stream f, OutboundTPS (length [7 :: byte])]) \<and>
    receive_frame toy_crypto toy_net 42 f ((conn_init [2] ''p'' None 0)\<lparr>outboundStream := Some sample_stream\<rparr>) =
      ok (cB', [InboundTPS (length [7 :: byte]), OnMessage [7]]) \<and>
    writes (snd (run (send_machine toy_net) ((send_init 0)\<lparr>sl_pc := STop\<rparr>, cB')
      [sample_host, sample_host, sample_host])) = [(sample_stream, g)] \<and>
    receive_frame toy_crypto toy_net 42 g cA' = ok (cA'', [InboundTPS 1]) \<and>
    confirmReceived cA'' 5 = Some True"
proof (rule consensus_confirmed_in_one_exchange)
  show "spam_inv 0 ((conn_init [1] ''p'' None 0)\<lparr>outboundStream := Some sample_stream\<rparr>)"
    and "spam_inv 0 ((conn_init [2] ''p'' None 0)\<lparr>outboundStream := Some sample_stream\<rparr>)"
    using spam_inv_init [of "[1]" "''p''" None 0] spam_inv_init [of "[2]" "''p''" None 0]
    by (simp_all add: spam_inv_def)
  show "5 \<notin> set (window_of ((conn_init [1] ''p'' None 0)\<lparr>outboundStream := Some sample_stream\<rparr>))"
    and "5 \<notin> set (window_of ((conn_init [2] ''p'' None 0)\<lparr>outboundStream := Some sample_stream\<rparr>))"
    by (simp_all add: window_of_def NewSpamQueue_def sq_contents_def)
qed (simp_all add: sample_host_def healthy_def send_init_def NewMessageQueue_def, simp_all add: conn_init_def)

section \<open>Two messages in one tick\<close>

text \<open>
  C31: a message can be lost between two healthy hubs: the id of an envelope comes from a generator reseeded with
  the clock, so two plain messages submitted within one tick carry the same id; the sender writes
  both frames, and the receiver passes on the first and silently discards the second.
\<close>
theorem same_tick_message_lost:
  assumes "idle s [NewEnvelop prng now (Some d1) KMessage, NewEnvelop prng now (Some d2) KMessage] st"
    and "list_all healthy hs" and "length hs = 6"
  shows "\<exists>f1 f2. writes (snd (run (send_machine N) st hs)) = [(s, f1), (s, f2)] \<and>
    frm_data f1 = d1 \<and> frm_data f2 = d2 \<and>
    snd (run (receive_machine C N chainId) (conn_init pid protocol my uid) [f1, f2]) =
      [ok [InboundTPS (length d1), OnMessage (PutUint32 uid @ d1)], ok [InboundTPS (length d2)]]"
proof -
  let ?i = "GetRandomUInt64 prng now"
  let ?f1 = "NewFrameWithId FMessage d1 ?i" and ?f2 = "NewFrameWithId FMessage d2 ?i"
  let ?c = "conn_init pid protocol my uid"
  have "writes (snd (run (send_machine N) st hs)) = [(s, ?f1), (s, ?f2)]"
    using send_all [OF assms(1) _ assms(2), of N] assms(3) by (simp add: plain_def frame_of_def)
  moreover have "snd (run (receive_machine C N chainId) ?c [?f1, ?f2]) =
      [ok [InboundTPS (length d1), OnMessage (PutUint32 uid @ d1)], ok [InboundTPS (length d2)]]"
    using run_messages [OF spam_inv_init [of pid protocol my uid], of "[?f1, ?f2]" C N chainId, symmetric]
      window_no_eviction [of "[]" "[?i, ?i]"]
    by (simp add: window_of_init delivered_def fresh_flags_def upt_conv_Cons SpamStoreThreshold_def)
  ultimately show ?thesis by (intro exI [of _ ?f1] exI [of _ ?f2]) simp
qed

lemma same_tick_message_lost_witness:
  "\<exists>f1 f2. writes (snd (run (send_machine toy_net)
      ((send_init 0)\<lparr>sl_pc := STop\<rparr>,
       (conn_init [1] ''p'' None 0)\<lparr>outboundStream := Some sample_stream,
          messageQueue := \<lparr>mq_list = map VEnvelop [NewEnvelop (\<lambda>t k. 3) 0 (Some [1]) KMessage,
            NewEnvelop (\<lambda>t k. 3) 0 (Some [2]) KMessage]\<rparr>\<rparr>)
      (replicate 6 sample_host))) = [(sample_stream, f1), (sample_stream, f2)] \<and>
    frm_data f1 = [1] \<and> frm_data f2 = [2] \<and>
    snd (run (receive_machine toy_crypto toy_net 42) (conn_init [2] ''p'' None 0) [f1, f2]) =
      [ok [InboundTPS (length [1 :: byte]), OnMessage (PutUint32 0 @ [1])], ok [InboundTPS (length [2 :: byte])]]"
  by (rule same_tick_message_lost)
     (simp_all add: idle_def send_init_def healthy_def sample_host_def list_all_iff)

end
